(* ===== verification/Prelude.thy ===== *)
theory Prelude
  imports Main "HOL-Library.AList" "HOL-Library.Char_ord" "HOL-Library.Sublist"
begin

text \<open>
  Shared vocabulary of the development: Go's 64-bit integers with the wrap-around of their
  arithmetic written out, times and durations of package \<open>time\<close>, the string helpers of
  package \<open>strings\<close>, and \<open>strconv\<close>'s decimal conversions.  Facts that several
  components share are collected in \<open>wrap_simps\<close> (arithmetic that does not overflow),
  \<open>frame_simps\<close> (fields an operation does not write) and \<open>contract_intros\<close>
  (an operation keeps an invariant or a contract).
\<close>

named_theorems wrap_simps "64-bit arithmetic inside its range"
named_theorems frame_simps "what an operation leaves alone"
named_theorems contract_intros "an operation keeps an invariant or a contract"

section \<open>64-bit integers\<close>

text \<open>Go's \<open>int\<close> and \<open>int64\<close> (the module targets 64-bit platforms): a value is an
  \<open>int\<close> between \<open>min_int64\<close> and \<open>max_int64\<close>, arithmetic wraps around.\<close>

abbreviation max_int64 :: int where "max_int64 \<equiv> 9223372036854775807"
abbreviation min_int64 :: int where "min_int64 \<equiv> - 9223372036854775808"

definition in_int64 :: "int \<Rightarrow> bool" where
  "in_int64 x \<longleftrightarrow> min_int64 \<le> x \<and> x \<le> max_int64"

definition wrap64 :: "int \<Rightarrow> int" where
  "wrap64 x = (x + 9223372036854775808) mod 18446744073709551616 - 9223372036854775808"

definition clamp64 :: "int \<Rightarrow> int" where
  "clamp64 x = (if x < min_int64 then min_int64 else if x > max_int64 then max_int64 else x)"

lemma wrap64_range: "in_int64 (wrap64 x)"
  unfolding wrap64_def in_int64_def
  using pos_mod_bound [of 18446744073709551616 "x + 9223372036854775808"]
    pos_mod_sign [of 18446744073709551616 "x + 9223372036854775808"]
  by linarith

lemma wrap64_id [wrap_simps]: "in_int64 x \<Longrightarrow> wrap64 x = x"
  by (simp add: wrap64_def in_int64_def)

lemma wrap64_between: "min_int64 \<le> x \<Longrightarrow> x \<le> max_int64 \<Longrightarrow> wrap64 x = x"
  by (simp add: wrap64_id in_int64_def)

lemma wrap64_over [wrap_simps]:
  assumes "9223372036854775808 \<le> x" "x < 27670116110564327424"
  shows "wrap64 x = x - 18446744073709551616"
proof -
  let ?m = "18446744073709551616 :: int"
  have "(x + 9223372036854775808) mod ?m = (x + 9223372036854775808 - ?m) mod ?m"
    by (simp only: minus_mod_self2)
  also have "\<dots> = x + 9223372036854775808 - ?m"
    using assms by (intro mod_pos_pos_trivial) simp_all
  finally show ?thesis by (simp add: wrap64_def)
qed

lemma clamp64_range: "in_int64 (clamp64 x)"
  by (simp add: clamp64_def in_int64_def)

lemma clamp64_id [wrap_simps]: "in_int64 x \<Longrightarrow> clamp64 x = x"
  by (simp add: clamp64_def in_int64_def)

lemma clamp64_le_0 [simp]: "clamp64 x \<le> 0 \<longleftrightarrow> x \<le> 0"
  by (simp add: clamp64_def)

lemma clamp64_mono: "x \<le> y \<Longrightarrow> clamp64 x \<le> clamp64 y"
  by (simp add: clamp64_def)

text \<open>Comparing a clamped difference with a 64-bit bound is comparing the difference.\<close>

lemma clamp64_less_iff: "in_int64 b \<Longrightarrow> b < max_int64 \<Longrightarrow> clamp64 x \<le> b \<longleftrightarrow> x \<le> b"
  by (auto simp: clamp64_def in_int64_def)

section \<open>Times and durations\<close>

text \<open>
  A \<open>time.Duration\<close> is a 64-bit count of nanoseconds.  A \<open>time.Time\<close> is the number
  of nanoseconds since January 1, year 1, 00:00 UTC, so that Go's zero \<open>Time\<close> is \<open>0\<close>;
  Go keeps the seconds in a separate 64-bit field, and only \<open>time.Unix\<close> can overflow it
  here, which \<open>time_Unix\<close> writes out.  \<open>Sub\<close> saturates, as Go's does.
\<close>

type_synonym duration = int
type_synonym time = int

abbreviation (input) zero_time :: time where "zero_time \<equiv> 0"
abbreviation (input) second :: duration where "second \<equiv> 1000000000"
abbreviation (input) minute :: duration where "minute \<equiv> 60000000000"

definition time_Unix :: "int \<Rightarrow> time" where
  "time_Unix s = wrap64 (s + 62135596800) * second"

definition time_Sub :: "time \<Rightarrow> time \<Rightarrow> duration" where
  "time_Sub t u = clamp64 (t - u)"

definition time_Add :: "time \<Rightarrow> duration \<Rightarrow> time" where
  "time_Add t d = t + d"

definition time_Before :: "time \<Rightarrow> time \<Rightarrow> bool" where
  "time_Before t u \<longleftrightarrow> t < u"

definition time_IsZero :: "time \<Rightarrow> bool" where
  "time_IsZero t \<longleftrightarrow> t = zero_time"

text \<open>\<open>Duration.Round\<close>: to the nearest multiple, halves away from zero, saturating.\<close>

definition duration_Round :: "duration \<Rightarrow> duration \<Rightarrow> duration" where
  "duration_Round d m =
     (if m \<le> 0 then d
      else if d < 0 then
        (let r = (- d) mod m
         in if r + r < m then d + r
            else let d1 = wrap64 (wrap64 (d - m) + r) in if d1 < d then d1 else min_int64)
      else
        (let r = d mod m
         in if r + r < m then d - r
            else let d1 = wrap64 (wrap64 (d + m) - r) in if d1 > d then d1 else max_int64))"

lemma time_Sub_le_0 [simp]: "time_Sub t u \<le> 0 \<longleftrightarrow> t \<le> u"
  by (simp add: time_Sub_def)

lemma time_Sub_range: "in_int64 (time_Sub t u)"
  by (simp add: time_Sub_def clamp64_range)

lemma time_Sub_exact: "in_int64 (t - u) \<Longrightarrow> time_Sub t u = t - u"
  by (simp add: time_Sub_def clamp64_id)

section \<open>Strings\<close>

text \<open>Go strings are byte sequences: a \<open>string\<close> is the list of its bytes.\<close>

definition has_suffix :: "string \<Rightarrow> string \<Rightarrow> bool" where
  "has_suffix s suf \<longleftrightarrow> suffix suf s"

definition has_prefix :: "string \<Rightarrow> string \<Rightarrow> bool" where
  "has_prefix s pre \<longleftrightarrow> prefix pre s"

lemma has_suffix_append [simp]: "has_suffix (s @ suf) suf"
  by (auto simp: has_suffix_def suffix_def)

lemma suffix_code [code]:
  "suffix xs ys \<longleftrightarrow> length xs \<le> length ys \<and> drop (length ys - length xs) ys = xs"
proof
  assume "suffix xs ys"
  then obtain zs where "ys = zs @ xs" by (auto simp: suffix_def)
  then show "length xs \<le> length ys \<and> drop (length ys - length xs) ys = xs" by simp
next
  assume "length xs \<le> length ys \<and> drop (length ys - length xs) ys = xs"
  then show "suffix xs ys" by (metis suffix_drop)
qed

section \<open>Decimal conversions of strconv\<close>

definition is_digit :: "char \<Rightarrow> bool" where
  "is_digit c \<longleftrightarrow> 48 \<le> (of_char c :: nat) \<and> (of_char c :: nat) \<le> 57"

definition digit_value :: "char \<Rightarrow> int" where
  "digit_value c = int (of_char c) - 48"

fun decimal_value :: "int \<Rightarrow> string \<Rightarrow> int" where
  "decimal_value acc [] = acc"
| "decimal_value acc (c # cs) = decimal_value (10 * acc + digit_value c) cs"

text \<open>\<open>strconv.Atoi\<close> on a 64-bit platform: an optional sign, at least one digit, nothing
  else (base 10 allows no underscores), and the value must fit; \<open>None\<close> is any error.\<close>

definition Atoi :: "string \<Rightarrow> int option" where
  "Atoi s =
     (let (neg, ds) =
        (case s of [] \<Rightarrow> (False, [])
         | c # cs \<Rightarrow> if c = CHR ''-'' then (True, cs)
                     else if c = CHR ''+'' then (False, cs) else (False, s))
      in if ds = [] \<or> \<not> list_all is_digit ds then None
         else let v = decimal_value 0 ds; x = (if neg then - v else v)
              in if min_int64 \<le> x \<and> x \<le> max_int64 then Some x else None)"

definition digit_char :: "nat \<Rightarrow> char" where
  "digit_char d = char_of (48 + d)"

fun itoa :: "nat \<Rightarrow> string" where
  "itoa n = (if n < 10 then [digit_char n] else itoa (n div 10) @ [digit_char (n mod 10)])"

declare itoa.simps [simp del]

text \<open>\<open>itoa_eval\<close> evaluates a printed number.\<close>

lemma digit_chars:
  "digit_char 0 = CHR ''0''" "digit_char (Suc 0) = CHR ''1''"
  "digit_char 0 = CHR ''0''"
  "digit_char 1 = CHR ''1''"
  "digit_char 2 = CHR ''2''"
  "digit_char 3 = CHR ''3''"
  "digit_char 4 = CHR ''4''"
  "digit_char 5 = CHR ''5''"
  "digit_char 6 = CHR ''6''"
  "digit_char 7 = CHR ''7''"
  "digit_char 8 = CHR ''8''"
  "digit_char 9 = CHR ''9''"
  by code_simp+

lemmas itoa_eval = itoa.simps digit_chars

lemma digit_char_is_digit: "d < 10 \<Longrightarrow> is_digit (digit_char d)"
  by (simp add: is_digit_def digit_char_def)

lemma digit_char_value: "d < 10 \<Longrightarrow> digit_value (digit_char d) = int d"
  by (simp add: digit_value_def digit_char_def)

lemma digit_char_not_sign: "d < 10 \<Longrightarrow> digit_char d \<noteq> CHR ''-'' \<and> digit_char d \<noteq> CHR ''+''"
  using digit_char_is_digit [of d] by (auto simp: is_digit_def)

lemma decimal_value_append: "decimal_value a (xs @ ys) = decimal_value (decimal_value a xs) ys"
  by (induction xs arbitrary: a) auto

lemma itoa_digits: "list_all is_digit (itoa n)"
proof (induction n rule: itoa.induct)
  case (1 n)
  then show ?case
    by (subst itoa.simps) (simp add: digit_char_is_digit)
qed

lemma itoa_value: "decimal_value 0 (itoa n) = int n"
proof (induction n rule: itoa.induct)
  case (1 n)
  show ?case
  proof (cases "n < 10")
    case True
    then show ?thesis by (subst itoa.simps) (simp add: digit_char_value)
  next
    case False
    with 1 have "decimal_value 0 (itoa (n div 10)) = int (n div 10)" by simp
    with False show ?thesis
      by (subst itoa.simps) (simp add: decimal_value_append digit_char_value zdiv_int zmod_int)
  qed
qed

lemma itoa_Cons: "\<exists>c cs. itoa n = c # cs \<and> is_digit c"
proof -
  have "itoa n \<noteq> []" by (subst itoa.simps) simp
  then obtain c cs where "itoa n = c # cs" by (cases "itoa n") auto
  with itoa_digits [of n] show ?thesis by auto
qed

lemma itoa_not_empty [simp]: "itoa n \<noteq> []" "[] \<noteq> itoa n"
  using itoa_Cons [of n] by auto

lemma Atoi_itoa: "int n \<le> max_int64 \<Longrightarrow> Atoi (itoa n) = Some (int n)"
proof -
  assume n: "int n \<le> max_int64"
  obtain c cs where c: "itoa n = c # cs" "is_digit c" using itoa_Cons by blast
  then have "c \<noteq> CHR ''-'' \<and> c \<noteq> CHR ''+''" by (auto simp: is_digit_def)
  with c n itoa_digits [of n] itoa_value [of n] show ?thesis by (simp add: Atoi_def)
qed

lemma Atoi_Nil [simp]: "Atoi [] = None"
  by (simp add: Atoi_def)

lemma Atoi_range: "Atoi s = Some x \<Longrightarrow> in_int64 x"
  by (auto simp: Atoi_def in_int64_def Let_def split: prod.splits if_splits)

end
