(* ===== verification/Net.thy ===== *)
theory Net
  imports Prelude
begin

text \<open>
  The parts of Go's standard library that the kit builds on, as far as it uses them:
  \<open>net/http\<close>'s headers, requests and responses, \<open>net/url\<close>'s \<open>URL\<close> with
  \<open>String\<close> and \<open>Hostname\<close>, and the cancellation of a \<open>context.Context\<close>.
  \<open>url.Parse\<close> is not written out: definitions that call it take the parser as an
  argument.
\<close>

section \<open>URLs\<close>

record url =
  Scheme :: string
  Opaque_part :: string
  User :: "(string \<times> string option) option"
  Host :: string
  Path :: string
  RawPath :: string
  OmitHost :: bool
  ForceQuery :: bool
  RawQuery :: string
  Fragment :: string
  RawFragment :: string

datatype escape_mode = EncodePath | EncodeHost | EncodeUserPassword | EncodeFragment

definition is_alnum :: "char \<Rightarrow> bool" where
  "is_alnum c = (let n = (of_char c :: nat)
     in (97 \<le> n \<and> n \<le> 122) \<or> (65 \<le> n \<and> n \<le> 90) \<or> (48 \<le> n \<and> n \<le> 57))"

definition shouldEscape :: "escape_mode \<Rightarrow> char \<Rightarrow> bool" where
  "shouldEscape mode c =
     (if is_alnum c then False
      else if mode = EncodeHost \<and> (c \<in> set ''!$&()*+,;=:[]<>'' \<or> c = CHR 0x27 \<or> c = CHR 0x22) then False
      else if c \<in> set ''-_.~'' then False
      else if c \<in> set ''$&+,/:;=?@'' \<and> mode \<noteq> EncodeHost then
        (case mode of
           EncodePath \<Rightarrow> c = CHR ''?''
         | EncodeUserPassword \<Rightarrow> c \<in> set ''@/?:''
         | _ \<Rightarrow> False)
      else if mode = EncodeFragment \<and> c \<in> set ''!()*'' then False
      else True)"

definition upperhex :: "nat \<Rightarrow> char" where
  "upperhex d = (if d < 10 then char_of (48 + d) else char_of (55 + d))"

definition escape_byte :: "char \<Rightarrow> string" where
  "escape_byte c = [CHR ''%'', upperhex (of_char c div 16), upperhex (of_char c mod 16)]"

definition escape :: "escape_mode \<Rightarrow> string \<Rightarrow> string" where
  "escape mode s = concat (map (\<lambda>c. if shouldEscape mode c then escape_byte c else [c]) s)"

definition unhex :: "char \<Rightarrow> nat option" where
  "unhex c = (let n = (of_char c :: nat)
     in if 48 \<le> n \<and> n \<le> 57 then Some (n - 48)
        else if 97 \<le> n \<and> n \<le> 102 then Some (n - 87)
        else if 65 \<le> n \<and> n \<le> 70 then Some (n - 55) else None)"

fun unescape :: "string \<Rightarrow> string option" where
  "unescape [] = Some []"
| "unescape (c # s) =
     (if c = CHR ''%'' then
        (case s of a # b # r \<Rightarrow>
           (case (unhex a, unhex b) of
              (Some x, Some y) \<Rightarrow> map_option ((#) (char_of (16 * x + y))) (unescape r)
            | _ \<Rightarrow> None)
         | _ \<Rightarrow> None)
      else map_option ((#) c) (unescape s))"

definition validEncoded :: "escape_mode \<Rightarrow> string \<Rightarrow> bool" where
  "validEncoded mode s = list_all
     (\<lambda>c. c \<in> set ''!$&()*+,;=:@[]%'' \<or> c = CHR 0x27 \<or> \<not> shouldEscape mode c) s"

definition EscapedPath :: "url \<Rightarrow> string" where
  "EscapedPath u =
     (if RawPath u \<noteq> [] \<and> validEncoded EncodePath (RawPath u) \<and> unescape (RawPath u) = Some (Path u)
      then RawPath u
      else if Path u = ''*'' then ''*''
      else escape EncodePath (Path u))"

definition EscapedFragment :: "url \<Rightarrow> string" where
  "EscapedFragment u =
     (if RawFragment u \<noteq> [] \<and> validEncoded EncodeFragment (RawFragment u)
          \<and> unescape (RawFragment u) = Some (Fragment u)
      then RawFragment u else escape EncodeFragment (Fragment u))"

definition Userinfo_String :: "string \<times> string option \<Rightarrow> string" where
  "Userinfo_String ui =
     (case ui of (name, pw) \<Rightarrow> escape EncodeUserPassword name @
        (case pw of None \<Rightarrow> [] | Some p \<Rightarrow> CHR '':'' # escape EncodeUserPassword p))"

definition authority_part :: "url \<Rightarrow> string" where
  "authority_part u =
     (if Scheme u = [] \<and> Host u = [] \<and> User u = None then []
      else if OmitHost u \<and> Host u = [] \<and> User u = None then []
      else (if Host u \<noteq> [] \<or> Path u \<noteq> [] \<or> User u \<noteq> None then ''//'' else []) @
        (case User u of None \<Rightarrow> [] | Some ui \<Rightarrow> Userinfo_String ui @ ''@'') @
        (if Host u \<noteq> [] then escape EncodeHost (Host u) else []))"

text \<open>\<open>(*URL).String\<close>.\<close>

definition url_String :: "url \<Rightarrow> string" where
  "url_String u =
     (let scheme = (if Scheme u \<noteq> [] then Scheme u @ '':'' else []);
          path = EscapedPath u;
          before = scheme @ authority_part u;
          slash = (if path \<noteq> [] \<and> hd path \<noteq> CHR ''/'' \<and> Host u \<noteq> [] then ''/'' else []);
          dot = (if before @ slash = [] \<and> CHR '':'' \<in> set (takeWhile (\<lambda>c. c \<noteq> CHR ''/'') path)
                 then ''./'' else []);
          body = (if Opaque_part u \<noteq> [] then scheme @ Opaque_part u
                  else before @ slash @ dot @ path)
      in body
         @ (if ForceQuery u \<or> RawQuery u \<noteq> [] then CHR ''?'' # RawQuery u else [])
         @ (if Fragment u \<noteq> [] then CHR ''#'' # EscapedFragment u else []))"

text \<open>\<open>(*URL).Hostname\<close>: the host without a numeric port and without IPv6 brackets.\<close>

definition strip_port :: "string \<Rightarrow> string" where
  "strip_port h =
     (let port = rev (takeWhile (\<lambda>c. c \<noteq> CHR '':'') (rev h))
      in if CHR '':'' \<in> set h \<and> list_all is_digit port
         then take (length h - length port - 1) h else h)"

definition Hostname :: "url \<Rightarrow> string" where
  "Hostname u =
     (let h = strip_port (Host u)
      in if has_prefix h ''['' \<and> has_suffix h '']'' then butlast (tl h) else h)"

section \<open>Headers\<close>

text \<open>\<open>http.Header\<close> is a map from canonical keys to value lists; it is kept as an
  association list so that it evaluates.\<close>

type_synonym header = "(string \<times> string list) list"

definition is_token_byte :: "char \<Rightarrow> bool" where
  "is_token_byte c \<longleftrightarrow> is_alnum c \<or> c \<in> set ''!#$%&*+-.^_`|~'' \<or> c = CHR 0x27"

definition is_lower :: "char \<Rightarrow> bool" where
  "is_lower c = (let n = (of_char c :: nat) in 97 \<le> n \<and> n \<le> 122)"

definition is_upper :: "char \<Rightarrow> bool" where
  "is_upper c = (let n = (of_char c :: nat) in 65 \<le> n \<and> n \<le> 90)"

fun canonical_bytes :: "bool \<Rightarrow> string \<Rightarrow> string" where
  "canonical_bytes upper [] = []"
| "canonical_bytes upper (c # cs) =
     (let c' = (if upper \<and> is_lower c then char_of (of_char c - 32 :: nat)
                else if \<not> upper \<and> is_upper c then char_of (of_char c + 32 :: nat) else c)
      in c' # canonical_bytes (c' = CHR ''-'') cs)"

definition CanonicalMIMEHeaderKey :: "string \<Rightarrow> string" where
  "CanonicalMIMEHeaderKey s = (if list_all is_token_byte s then canonical_bytes True s else s)"

definition header_Get :: "header \<Rightarrow> string \<Rightarrow> string" where
  "header_Get h key =
     (case map_of h (CanonicalMIMEHeaderKey key) of
        None \<Rightarrow> [] | Some [] \<Rightarrow> [] | Some (v # vs) \<Rightarrow> v)"

definition header_Set :: "string \<Rightarrow> string \<Rightarrow> header \<Rightarrow> header" where
  "header_Set key v h = AList.update (CanonicalMIMEHeaderKey key) [v] h"

lemma header_Get_Set:
  "header_Get (header_Set k v h) k' =
     (if CanonicalMIMEHeaderKey k' = CanonicalMIMEHeaderKey k then v else header_Get h k')"
  by (simp add: header_Get_def header_Set_def update_conv)

section \<open>Contexts, requests and responses\<close>

text \<open>A context is known by when it is cancelled, if ever, and by its cause; a custom cause
  is told apart by its text.\<close>

datatype ctx_cause = Canceled | DeadlineExceeded | CustomCause string

record ctx =
  ctx_done :: "(time \<times> ctx_cause) option"

definition Background :: ctx where
  "Background = \<lparr>ctx_done = None\<rparr>"

text \<open>A request body is absent (\<open>nil\<close> or \<open>http.NoBody\<close>) or a stream that yields bytes,
  possibly ends in a read error, and may fail to close.  Errors of the reader are told
  apart by their texts.\<close>

datatype body =
    NilBody
  | HttpNoBody
  | Stream (stream_bytes: string) (stream_read_err: "string option") (stream_close_err: "string option")

record request =
  req_Method :: string
  req_URL :: url
  req_Header :: header
  req_Body :: body
  req_Context :: ctx

text \<open>\<open>net/http\<close> hands a RoundTripper only requests whose \<open>URL\<close> is not \<open>nil\<close>, so the
  field is total.\<close>

record response =
  StatusCode :: int
  resp_Header :: header
  resp_Body :: "string option"
  resp_Request :: "request option"

abbreviation StatusBadRequest :: int where "StatusBadRequest \<equiv> 400"
abbreviation StatusUnauthorized :: int where "StatusUnauthorized \<equiv> 401"
abbreviation StatusForbidden :: int where "StatusForbidden \<equiv> 403"
abbreviation StatusNotFound :: int where "StatusNotFound \<equiv> 404"
abbreviation StatusTooManyRequests :: int where "StatusTooManyRequests \<equiv> 429"
abbreviation StatusInternalServerError :: int where "StatusInternalServerError \<equiv> 500"

end
