(* ===== verification/RateLimit.thy ===== *)
theory RateLimit
  imports Net
begin

text \<open>
  \<open>src/ratelimit.go\<close>: the snapshot of the core budget, its parser for the
  \<open>X-RateLimit-*\<close> headers, and the cache every layer of one kernel shares.  The methods
  of \<open>*RateLimitCache\<close> take the pointer as an option: \<open>None\<close> is the \<open>nil\<close> receiver
  they all guard against.  Each method is one critical section of the cache's mutex, so a
  concurrent history of the cache is a list of \<open>cache_op\<close>s.
\<close>

section \<open>Snapshots and their headers\<close>

record RateLimitSnapshot =
  Limit :: int
  Remaining :: int
  ResetAt :: time

definition empty_snapshot :: RateLimitSnapshot where
  "empty_snapshot = \<lparr>Limit = 0, Remaining = 0, ResetAt = zero_time\<rparr>"

definition headerRateLimitLimit :: string where
  "headerRateLimitLimit = ''X-Ratelimit-Limit''"

definition headerRateLimitRemaining :: string where
  "headerRateLimitRemaining = ''X-Ratelimit-Remaining''"

definition headerRateLimitReset :: string where
  "headerRateLimitReset = ''X-Ratelimit-Reset''"

lemmas header_names = headerRateLimitLimit_def headerRateLimitRemaining_def headerRateLimitReset_def

definition canonicalHeader :: "string \<Rightarrow> string" where
  "canonicalHeader key =
     (if key = headerRateLimitLimit then ''X-RateLimit-Limit''
      else if key = headerRateLimitRemaining then ''X-RateLimit-Remaining''
      else if key = headerRateLimitReset then ''X-RateLimit-Reset''
      else key)"

text \<open>A header source is its \<open>Get\<close> method, a function from keys to values.\<close>

definition parseHeaderInt :: "(string \<Rightarrow> string) \<Rightarrow> string \<Rightarrow> int option" where
  "parseHeaderInt header key =
     (let raw0 = header key;
          raw = (if raw0 = [] then header (canonicalHeader key) else raw0)
      in if raw = [] then None
         else case Atoi raw of
             None \<Rightarrow> None
           | Some value \<Rightarrow> if value < 0 then None else Some value)"

definition ParseRateLimitHeaders :: "(string \<Rightarrow> string) \<Rightarrow> RateLimitSnapshot option" where
  "ParseRateLimitHeaders header =
     (case (parseHeaderInt header headerRateLimitLimit,
            parseHeaderInt header headerRateLimitRemaining) of
        (Some limit, Some remaining) \<Rightarrow>
          Some \<lparr>Limit = limit, Remaining = remaining,
                ResetAt = (case parseHeaderInt header headerRateLimitReset of
                             Some reset \<Rightarrow> time_Unix reset
                           | None \<Rightarrow> zero_time)\<rparr>
      | _ \<Rightarrow> None)"

section \<open>The cache\<close>

record RateLimitCache =
  snapshot :: RateLimitSnapshot
  known :: bool

definition NewRateLimitCache :: RateLimitCache where
  "NewRateLimitCache = \<lparr>snapshot = empty_snapshot, known = False\<rparr>"

definition Update :: "RateLimitSnapshot \<Rightarrow> RateLimitCache option \<Rightarrow> RateLimitCache option" where
  "Update s c =
     (case c of None \<Rightarrow> None
      | Some cache \<Rightarrow>
          if Limit s = 0 then Some cache else Some (cache\<lparr>snapshot := s, known := True\<rparr>))"

definition Decrement :: "int \<Rightarrow> RateLimitCache option \<Rightarrow> RateLimitCache option" where
  "Decrement n c =
     (case c of None \<Rightarrow> None
      | Some cache \<Rightarrow>
          if n \<le> 0 \<or> \<not> known cache then Some cache
          else let r = wrap64 (Remaining (snapshot cache) - n)
               in Some (cache\<lparr>snapshot := (snapshot cache)\<lparr>Remaining := (if r < 0 then 0 else r)\<rparr>\<rparr>))"

definition Get :: "RateLimitCache option \<Rightarrow> RateLimitSnapshot \<times> bool" where
  "Get c = (case c of None \<Rightarrow> (empty_snapshot, False) | Some cache \<Rightarrow> (snapshot cache, known cache))"

text \<open>Histories of the cache: the mutex makes every call one step.\<close>

datatype cache_op = UpdateOp RateLimitSnapshot | DecrementOp int

fun cache_step :: "cache_op \<Rightarrow> RateLimitCache option \<Rightarrow> RateLimitCache option" where
  "cache_step (UpdateOp s) c = Update s c"
| "cache_step (DecrementOp n) c = Decrement n c"

definition cache_run :: "cache_op list \<Rightarrow> RateLimitCache option \<Rightarrow> RateLimitCache option" where
  "cache_run ops c = fold cache_step ops c"

section \<open>Well-formed snapshots and caches\<close>

text \<open>What the parser produces and every operation keeps: counts in range, and a known
  budget that belongs to the core limit.\<close>

definition snapshot_ok :: "RateLimitSnapshot \<Rightarrow> bool" where
  "snapshot_ok s \<longleftrightarrow> 0 \<le> Limit s \<and> in_int64 (Limit s) \<and> 0 \<le> Remaining s \<and> in_int64 (Remaining s)"

definition cache_ok :: "RateLimitCache option \<Rightarrow> bool" where
  "cache_ok c \<longleftrightarrow> (case c of None \<Rightarrow> True
     | Some cache \<Rightarrow> snapshot_ok (snapshot cache) \<and> (known cache \<longrightarrow> Limit (snapshot cache) \<noteq> 0))"

fun op_ok :: "cache_op \<Rightarrow> bool" where
  "op_ok (UpdateOp s) \<longleftrightarrow> snapshot_ok s"
| "op_ok (DecrementOp n) \<longleftrightarrow> in_int64 n"

lemma snapshot_ok_empty [simp, contract_intros]: "snapshot_ok empty_snapshot"
  by (simp add: snapshot_ok_def empty_snapshot_def in_int64_def)

lemma cache_ok_New [simp, contract_intros]: "cache_ok (Some NewRateLimitCache)"
  by (simp add: cache_ok_def NewRateLimitCache_def)

lemma parseHeaderInt_range:
  "parseHeaderInt h k = Some v \<Longrightarrow> 0 \<le> v \<and> in_int64 v"
  by (auto simp: parseHeaderInt_def Let_def split: if_splits option.splits dest: Atoi_range)

lemma ParseRateLimitHeaders_ok:
  "ParseRateLimitHeaders h = Some s \<Longrightarrow> snapshot_ok s"
  by (auto simp: ParseRateLimitHeaders_def snapshot_ok_def split: option.splits
      dest: parseHeaderInt_range)

lemma cache_ok_Update [contract_intros]: "cache_ok c \<Longrightarrow> snapshot_ok s \<Longrightarrow> cache_ok (Update s c)"
  by (auto simp: cache_ok_def Update_def split: option.splits)

lemma Decrement_Some: "\<exists>cache'. Decrement n (Some cache) = Some cache'"
  by (simp add: Decrement_def Let_def)

lemma Decrement_bounds:
  assumes "snapshot_ok (snapshot cache)" "in_int64 n" "Decrement n (Some cache) = Some cache'"
  shows "snapshot_ok (snapshot cache')" "known cache' = known cache"
    "Limit (snapshot cache') = Limit (snapshot cache)"
    "ResetAt (snapshot cache') = ResetAt (snapshot cache)"
    "Remaining (snapshot cache') =
       (if known cache \<and> 0 < n then max 0 (Remaining (snapshot cache) - n)
        else Remaining (snapshot cache))"
proof -
  have w: "wrap64 (Remaining (snapshot cache) - n) = Remaining (snapshot cache) - n" if "0 < n"
    using assms(1,2) that by (intro wrap64_id) (auto simp: snapshot_ok_def in_int64_def)
  show "snapshot_ok (snapshot cache')" "known cache' = known cache"
    "Limit (snapshot cache') = Limit (snapshot cache)"
    "ResetAt (snapshot cache') = ResetAt (snapshot cache)"
    "Remaining (snapshot cache') =
       (if known cache \<and> 0 < n then max 0 (Remaining (snapshot cache) - n)
        else Remaining (snapshot cache))"
    using assms w by (auto simp: Decrement_def Let_def snapshot_ok_def in_int64_def
        split: if_splits)
qed

lemma cache_ok_Decrement [contract_intros]:
  assumes "cache_ok c" "in_int64 n"
  shows "cache_ok (Decrement n c)"
proof (cases c)
  case None
  then show ?thesis by (simp add: Decrement_def cache_ok_def)
next
  case (Some cache)
  obtain cache' where c': "Decrement n (Some cache) = Some cache'"
    using Decrement_Some by blast
  from assms Some have "snapshot_ok (snapshot cache)" by (simp add: cache_ok_def)
  note b = Decrement_bounds [OF this assms(2) c']
  show ?thesis using assms Some c' b by (simp add: cache_ok_def)
qed

lemma cache_ok_step: "cache_ok c \<Longrightarrow> op_ok op \<Longrightarrow> cache_ok (cache_step op c)"
  by (cases op) (auto intro: contract_intros)

lemma cache_ok_run: "cache_ok c \<Longrightarrow> list_all op_ok ops \<Longrightarrow> cache_ok (cache_run ops c)"
  unfolding cache_run_def
  by (induction ops arbitrary: c) (auto intro: cache_ok_step)

section \<open>What the parser and the cache promise\<close>

text \<open>\<open>http.Header.Get\<close> canonicalises its key, so for a real response both spellings
  of a rate-limit header read the same entry and the fallback never finds more.\<close>

lemma canonical_spellings:
  "CanonicalMIMEHeaderKey (canonicalHeader headerRateLimitLimit) = headerRateLimitLimit"
  "CanonicalMIMEHeaderKey (canonicalHeader headerRateLimitRemaining) = headerRateLimitRemaining"
  "CanonicalMIMEHeaderKey (canonicalHeader headerRateLimitReset) = headerRateLimitReset"
  "CanonicalMIMEHeaderKey headerRateLimitLimit = headerRateLimitLimit"
  "CanonicalMIMEHeaderKey headerRateLimitRemaining = headerRateLimitRemaining"
  "CanonicalMIMEHeaderKey headerRateLimitReset = headerRateLimitReset"
  by code_simp+

lemma header_names_distinct [simp]:
  "headerRateLimitLimit \<noteq> headerRateLimitRemaining" "headerRateLimitRemaining \<noteq> headerRateLimitLimit"
  "headerRateLimitLimit \<noteq> headerRateLimitReset" "headerRateLimitReset \<noteq> headerRateLimitLimit"
  "headerRateLimitRemaining \<noteq> headerRateLimitReset" "headerRateLimitReset \<noteq> headerRateLimitRemaining"
  by (simp_all add: header_names)

lemma parseHeaderInt_itoa:
  assumes "h key = itoa n \<or> h key = [] \<and> h (canonicalHeader key) = itoa n" "int n \<le> max_int64"
  shows "parseHeaderInt h key = Some (int n)"
  using assms by (auto simp: parseHeaderInt_def Let_def Atoi_itoa)

text \<open>C39. Header round trip: whichever of the two spellings a header source uses for each of
  the three headers, a budget printed in decimal is parsed back exactly, and the reset second
  becomes that Unix time.\<close>

theorem ParseRateLimitHeaders_roundtrip:
  assumes "h headerRateLimitLimit = itoa l
      \<or> h headerRateLimitLimit = [] \<and> h ''X-RateLimit-Limit'' = itoa l" "int l \<le> max_int64"
    and "h headerRateLimitRemaining = itoa r
      \<or> h headerRateLimitRemaining = [] \<and> h ''X-RateLimit-Remaining'' = itoa r" "int r \<le> max_int64"
    and "h headerRateLimitReset = itoa t
      \<or> h headerRateLimitReset = [] \<and> h ''X-RateLimit-Reset'' = itoa t" "int t \<le> max_int64"
  shows "ParseRateLimitHeaders h = Some \<lparr>Limit = int l, Remaining = int r, ResetAt = time_Unix (int t)\<rparr>"
proof -
  have "parseHeaderInt h headerRateLimitLimit = Some (int l)"
    by (rule parseHeaderInt_itoa) (use assms(1,2) in \<open>simp_all add: canonicalHeader_def\<close>)
  moreover have "parseHeaderInt h headerRateLimitRemaining = Some (int r)"
    by (rule parseHeaderInt_itoa) (use assms(3,4) in \<open>simp_all add: canonicalHeader_def\<close>)
  moreover have "parseHeaderInt h headerRateLimitReset = Some (int t)"
    by (rule parseHeaderInt_itoa) (use assms(5,6) in \<open>simp_all add: canonicalHeader_def\<close>)
  ultimately show ?thesis by (simp add: ParseRateLimitHeaders_def)
qed

definition example_headers :: "string \<Rightarrow> string" where
  "example_headers key =
     (if key = headerRateLimitLimit then ''5000''
      else if key = ''X-RateLimit-Remaining'' then ''42''
      else if key = headerRateLimitReset then ''1700000000''
      else [])"

theorem ParseRateLimitHeaders_roundtrip_witness:
  "ParseRateLimitHeaders example_headers
     = Some \<lparr>Limit = 5000, Remaining = 42, ResetAt = 63835596800000000000\<rparr>"
proof -
  have i: "itoa 5000 = ''5000''" "itoa 42 = ''42''" "itoa 1700000000 = ''1700000000''"
    by (simp_all add: itoa_eval)
  have "ParseRateLimitHeaders example_headers
     = Some \<lparr>Limit = int 5000, Remaining = int 42, ResetAt = time_Unix (int 1700000000)\<rparr>"
    by (rule ParseRateLimitHeaders_roundtrip)
       (simp_all add: example_headers_def header_names i)
  then show ?thesis by (simp add: time_Unix_def wrap64_def)
qed

text \<open>A missing, empty, non-decimal, negative or overflowing limit or remaining header is no
  information, never a zero budget: the parser answers only if both are decimal numbers that fit,
  and then with exactly these numbers, whatever the reset header holds.\<close>

theorem ParseRateLimitHeaders_http:
  "ParseRateLimitHeaders (header_Get H) =
     (case (Atoi (header_Get H headerRateLimitLimit), Atoi (header_Get H headerRateLimitRemaining)) of
        (Some l, Some r) \<Rightarrow>
          if l < 0 \<or> r < 0 then None
          else Some \<lparr>Limit = l, Remaining = r,
            ResetAt = (case Atoi (header_Get H headerRateLimitReset) of
                Some t \<Rightarrow> if t < 0 then zero_time else time_Unix t | None \<Rightarrow> zero_time)\<rparr>
      | _ \<Rightarrow> None)"
proof -
  have "parseHeaderInt (header_Get H) k
      = (case Atoi (header_Get H k) of None \<Rightarrow> None | Some v \<Rightarrow> if v < 0 then None else Some v)"
    if "k \<in> {headerRateLimitLimit, headerRateLimitRemaining, headerRateLimitReset}" for k
  proof -
    have "header_Get H (canonicalHeader k) = header_Get H k"
      using that by (auto simp: header_Get_def canonical_spellings)
    then show ?thesis by (auto simp: parseHeaderInt_def Let_def Atoi_Nil)
  qed
  then show ?thesis
    by (auto simp: ParseRateLimitHeaders_def split: option.splits)
qed

text \<open>How much a history of decrements spends, and the operations that leave the core budget
  alone but for decrements.\<close>

fun spent :: "cache_op list \<Rightarrow> int" where
  "spent [] = 0"
| "spent (UpdateOp s # ops) = spent ops"
| "spent (DecrementOp n # ops) = max 0 n + spent ops"

fun not_core :: "cache_op \<Rightarrow> bool" where
  "not_core (UpdateOp s) \<longleftrightarrow> Limit s = 0"
| "not_core (DecrementOp n) \<longleftrightarrow> in_int64 n"

lemma spent_nonneg: "0 \<le> spent ops"
  by (induction ops rule: spent.induct) auto

lemma cache_run_simps [simp]:
  "cache_run [] c = c" "cache_run (op # ops) c = cache_run ops (cache_step op c)"
  "cache_run (ops @ ops') c = cache_run ops' (cache_run ops c)"
  by (simp_all add: cache_run_def)

lemma cache_run_Some: "\<exists>c'. cache_run ops (Some c) = Some c'"
proof (induction ops arbitrary: c)
  case (Cons op ops)
  have "\<exists>c'. cache_step op (Some c) = Some c'"
    by (cases op) (auto simp: Update_def Decrement_Some)
  with Cons show ?case by auto
qed simp

lemma cache_run_not_core:
  assumes "snapshot_ok s" "list_all not_core ops"
  shows "cache_run ops (Some \<lparr>snapshot = s, known = True\<rparr>)
    = Some \<lparr>snapshot = s\<lparr>Remaining := max 0 (Remaining s - spent ops)\<rparr>, known = True\<rparr>"
  using assms
proof (induction ops arbitrary: s rule: spent.induct)
  case 1
  then show ?case by (simp add: snapshot_ok_def)
next
  case (2 t ops)
  then show ?case by (simp add: Update_def)
next
  case (3 n ops)
  obtain cache where c: "Decrement n (Some \<lparr>snapshot = s, known = True\<rparr>) = Some cache"
    using Decrement_Some by blast
  have n: "in_int64 n" using 3 by simp
  note b = Decrement_bounds [OF _ n c, simplified, OF "3.prems"(1)]
  have eq: "cache = \<lparr>snapshot = s\<lparr>Remaining := max 0 (Remaining s - max 0 n)\<rparr>, known = True\<rparr>"
    using b "3.prems"(1) by (auto simp: snapshot_ok_def)
  have "snapshot_ok (s\<lparr>Remaining := max 0 (Remaining s - max 0 n)\<rparr>)"
    using b(1) eq by simp
  from "3.IH" [OF this] "3.prems" show ?case
    using spent_nonneg [of ops] by (simp add: c eq max_def)
qed

text \<open>C23. The cache is authoritative and conservative.  After any history, an update with a core
  snapshot followed by any interleaving of decrements and of snapshots that do not take part in
  the core budget (limit 0) leaves exactly that snapshot with the later decrements subtracted and
  floored at zero.\<close>

theorem cache_history:
  assumes "snapshot_ok s" "Limit s \<noteq> 0" "list_all not_core later"
  shows "Get (cache_run (earlier @ UpdateOp s # later) (Some NewRateLimitCache))
    = (s\<lparr>Remaining := max 0 (Remaining s - spent later)\<rparr>, True)"
proof -
  obtain c where "cache_run earlier (Some NewRateLimitCache) = Some c"
    using cache_run_Some by blast
  moreover have "cache_step (UpdateOp s) (Some c) = Some \<lparr>snapshot = s, known = True\<rparr>"
    using assms(2) by (simp add: Update_def)
  ultimately show ?thesis
    using cache_run_not_core [OF assms(1,3)] by (simp add: Get_def)
qed

theorem cache_history_witness:
  "Get (cache_run ([DecrementOp 3] @ UpdateOp \<lparr>Limit = 5000, Remaining = 2, ResetAt = 7\<rparr>
      # [DecrementOp 1, UpdateOp empty_snapshot, DecrementOp 4]) (Some NewRateLimitCache))
    = (\<lparr>Limit = 5000, Remaining = 0, ResetAt = 7\<rparr>, True)"
  using cache_history [of "\<lparr>Limit = 5000, Remaining = 2, ResetAt = 7\<rparr>"
      "[DecrementOp 1, UpdateOp empty_snapshot, DecrementOp 4]" "[DecrementOp 3]"]
  by (simp add: snapshot_ok_def in_int64_def empty_snapshot_def)

end
