(* ===== verification/Errors.thy ===== *)
theory Errors
  imports RateLimit
begin

text \<open>
  \<open>src/errors.go\<close>: the kit's sentinels, \<open>StatusError\<close> and \<open>ClassifyError\<close>.  A Go
  error value is a tree: \<open>Unwrap\<close> gives its children, \<open>errors.AsType\<close> searches it in
  pre-order.  The constructors of \<open>err\<close> are the dynamic types the kit tells apart, its own
  and those of go-github, \<open>net\<close>, \<open>net/url\<close> and \<open>context\<close>; \<open>Errorf\<close> is
  \<open>fmt.Errorf\<close> (format string, operands, the errors of its \<open>%w\<close> verbs), which is also
  what \<open>errors.Join\<close> gives; \<open>OtherError\<close> is any error value of another type without
  children, told apart by its text.
\<close>

section \<open>Error values\<close>

datatype arg = ArgInt int | ArgStr string | ArgDuration duration

datatype err =
    OtherError (other_text: string)
  | ErrAuthRequired | ErrForbidden | ErrRateLimited | ErrNotFound | ErrAPIUnavailable
  | ErrInvalidPagination | ErrBaseURLNoHost
  | CtxError (ctx_error_cause: ctx_cause)
  | StatusError (se_Sentinel: err) (se_Status: int) (se_Method: string) (se_URL: string) (se_err: err)
  | ResetTooFarError (rtf_wait: duration) (rtf_maxWait: duration) (rtf_resetAt: time)
  | GhRateLimitError (rl_Response: "response option") (rl_Message: string)
  | GhAbuseRateLimitError (abuse_Response: "response option") (abuse_Message: string)
  | GhErrorResponse (gh_Response: "response option") (gh_Message: string)
  | UrlError (ue_Op: string) (ue_URL: string) (ue_Err: err)
  | NetOpError (op_Op: string) (op_Err: err)
  | NetError (net_text: string)
  | Errorf (fmt: string) (fmt_args: "arg list") (wrapped: "err list")

abbreviation kit_sentinels :: "err set" where
  "kit_sentinels \<equiv> {ErrAuthRequired, ErrForbidden, ErrRateLimited, ErrNotFound, ErrAPIUnavailable}"

text \<open>The \<open>Unwrap\<close> methods, and the pre-order search of \<open>errors.AsType\<close> and \<open>errors.Is\<close>
  (with a comparable sentinel as target).\<close>

definition StatusError_Unwrap :: "err \<Rightarrow> err \<Rightarrow> err list" where
  "StatusError_Unwrap sentinel e = [sentinel, e]"

fun err_tree :: "err \<Rightarrow> err list" where
  "err_tree (StatusError s st m u e) = StatusError s st m u e # err_tree s @ err_tree e"
| "err_tree (UrlError op u e) = UrlError op u e # err_tree e"
| "err_tree (NetOpError op e) = NetOpError op e # err_tree e"
| "err_tree (Errorf f as es) = Errorf f as es # concat (map err_tree es)"
| "err_tree e = [e]"

fun unwrap :: "err \<Rightarrow> err list" where
  "unwrap (StatusError s st m u e) = StatusError_Unwrap s e"
| "unwrap (UrlError op u e) = [e]"
| "unwrap (NetOpError op e) = [e]"
| "unwrap (Errorf f as es) = es"
| "unwrap e = []"

definition AsType :: "(err \<Rightarrow> bool) \<Rightarrow> err \<Rightarrow> err option" where
  "AsType is_type e = find is_type (err_tree e)"

definition errors_Is :: "err \<Rightarrow> err \<Rightarrow> bool" where
  "errors_Is e target \<longleftrightarrow> target \<in> set (err_tree e)"

text \<open>Types that implement \<open>net.Error\<close>: \<open>*url.Error\<close>, \<open>*net.OpError\<close>,
  \<open>context.DeadlineExceeded\<close> and the \<open>net\<close> package's other errors.\<close>

fun implements_net_Error :: "err \<Rightarrow> bool" where
  "implements_net_Error (UrlError op u e) = True"
| "implements_net_Error (NetOpError op e) = True"
| "implements_net_Error (NetError t) = True"
| "implements_net_Error (CtxError c) = (c = DeadlineExceeded)"
| "implements_net_Error e = False"

section \<open>StatusError's message\<close>

definition format_d :: "int \<Rightarrow> string" where
  "format_d i = (if i < 0 then CHR ''-'' # itoa (nat (- i)) else itoa (nat i))"

text \<open>\<open>(*StatusError).Error\<close>; \<open>text\<close> is the \<open>Error\<close> method of the wrapped errors.\<close>

definition StatusError_Error :: "(err \<Rightarrow> string) \<Rightarrow> err \<Rightarrow> int \<Rightarrow> string \<Rightarrow> string \<Rightarrow> err \<Rightarrow> string" where
  "StatusError_Error text sentinel status meth u e =
     (let prefix0 = ''github:'';
          prefix1 = (if meth \<noteq> [] \<or> u \<noteq> [] then ''github: '' @ meth @ '' '' @ u @ '':'' else prefix0);
          prefix2 = (if status \<noteq> 0 then prefix1 @ '' '' @ format_d status @ '':'' else prefix1)
      in prefix2 @ '' '' @ text sentinel @ '': '' @ text e)"

section \<open>Classification\<close>

definition request_Method :: "response \<Rightarrow> string" where
  "request_Method resp = (case resp_Request resp of None \<Rightarrow> [] | Some req \<Rightarrow> req_Method req)"

definition request_URL :: "response \<Rightarrow> string" where
  "request_URL resp = (case resp_Request resp of None \<Rightarrow> [] | Some req \<Rightarrow> url_String (req_URL req))"

definition classifyRateLimit :: "response option \<Rightarrow> err \<Rightarrow> err" where
  "classifyRateLimit resp cause =
     (case resp of
        None \<Rightarrow> StatusError ErrRateLimited 0 [] [] cause
      | Some r \<Rightarrow> StatusError ErrRateLimited (StatusCode r) (request_Method r) (request_URL r) cause)"

definition classifyResponseError :: "response \<Rightarrow> err \<Rightarrow> err" where
  "classifyResponseError resp ghErr =
     (let statusErr = (\<lambda>sentinel.
            StatusError sentinel (StatusCode resp) (request_Method resp) (request_URL resp) ghErr)
      in if StatusCode resp = StatusUnauthorized then statusErr ErrAuthRequired
         else if StatusCode resp = StatusNotFound then statusErr ErrNotFound
         else if StatusCode resp = StatusTooManyRequests then statusErr ErrRateLimited
         else if StatusCode resp = StatusForbidden then
           (case parseHeaderInt (header_Get (resp_Header resp)) headerRateLimitRemaining of
              Some remaining \<Rightarrow> if remaining = 0 then statusErr ErrRateLimited else statusErr ErrForbidden
            | None \<Rightarrow> statusErr ErrForbidden)
         else if StatusCode resp \<ge> StatusInternalServerError then statusErr ErrAPIUnavailable
         else ghErr)"

definition isNetError :: "err \<Rightarrow> bool" where
  "isNetError e \<longleftrightarrow> AsType implements_net_Error e \<noteq> None \<or> AsType is_NetOpError e \<noteq> None"

definition classify_transport :: "err \<Rightarrow> err" where
  "classify_transport e =
     (case AsType is_UrlError e of
        Some (UrlError op u _) \<Rightarrow> StatusError ErrAPIUnavailable 0 op u e
      | _ \<Rightarrow> if isNetError e then StatusError ErrAPIUnavailable 0 [] [] e else e)"

definition ClassifyError :: "err option \<Rightarrow> err option" where
  "ClassifyError eo =
     (case eo of None \<Rightarrow> None
      | Some e \<Rightarrow> Some
          (if AsType is_StatusError e \<noteq> None then e
           else case AsType is_GhRateLimitError e of
             Some rlErr \<Rightarrow> classifyRateLimit (rl_Response rlErr) rlErr
           | None \<Rightarrow>
          (case AsType is_GhAbuseRateLimitError e of
             Some abuseErr \<Rightarrow> classifyRateLimit (abuse_Response abuseErr) abuseErr
           | None \<Rightarrow>
          (case AsType is_GhErrorResponse e of
             Some ghErr \<Rightarrow> (case gh_Response ghErr of
                 Some resp \<Rightarrow> classifyResponseError resp ghErr
               | None \<Rightarrow> classify_transport e)
           | None \<Rightarrow> classify_transport e))))"

section \<open>Searching error trees\<close>

lemma err_tree_unwrap: "err_tree e = e # concat (map err_tree (unwrap e))"
  by (cases e) (simp_all add: StatusError_Unwrap_def)

lemma err_tree_self [simp]: "e \<in> set (err_tree e)"
  by (subst err_tree_unwrap) simp

lemma err_tree_child: "c \<in> set (unwrap e) \<Longrightarrow> x \<in> set (err_tree c) \<Longrightarrow> x \<in> set (err_tree e)"
  by (subst err_tree_unwrap) auto

lemma AsType_Some: "AsType P e = Some x \<Longrightarrow> P x \<and> x \<in> set (err_tree e)"
  by (auto simp: AsType_def find_Some_iff)

lemma AsType_None: "AsType P e = None \<longleftrightarrow> (\<forall>x \<in> set (err_tree e). \<not> P x)"
  by (auto simp: AsType_def find_None_iff)

lemma AsType_self: "P e \<Longrightarrow> AsType P e = Some e"
  by (subst AsType_def, subst err_tree_unwrap) simp

lemma AsType_gh_leaf:
  "AsType is_GhRateLimitError e = Some x \<Longrightarrow> \<exists>r m. x = GhRateLimitError r m"
  "AsType is_GhAbuseRateLimitError e = Some x \<Longrightarrow> \<exists>r m. x = GhAbuseRateLimitError r m"
  "AsType is_GhErrorResponse e = Some x \<Longrightarrow> \<exists>r m. x = GhErrorResponse r m"
  "AsType is_UrlError e = Some x \<Longrightarrow> \<exists>op u i. x = UrlError op u i"
  by (auto dest!: AsType_Some simp: is_GhRateLimitError_def is_GhAbuseRateLimitError_def
      is_GhErrorResponse_def is_UrlError_def)

lemma isNetError_iff: "isNetError e \<longleftrightarrow> (\<exists>x \<in> set (err_tree e). implements_net_Error x)"
proof -
  have "is_NetOpError x \<Longrightarrow> implements_net_Error x" for x by (cases x) auto
  then show ?thesis
    by (auto simp: isNetError_def AsType_None)
qed

text \<open>The three shapes of the result: unchanged, a fresh \<open>StatusError\<close>, or the bare
  \<open>*ErrorResponse\<close> found in the tree.\<close>

lemma classifyResponseError_cases:
  "(\<exists>s \<in> kit_sentinels. classifyResponseError r g
       = StatusError s (StatusCode r) (request_Method r) (request_URL r) g)
   \<or> classifyResponseError r g = g \<and> StatusCode r < 500 \<and> StatusCode r \<notin> {401, 403, 404, 429}"
  by (auto simp: classifyResponseError_def Let_def split: option.splits)

lemma classifyResponseError_bare:
  "classifyResponseError r (GhErrorResponse ro m) = GhErrorResponse ro m
     \<longleftrightarrow> StatusCode r < 500 \<and> StatusCode r \<notin> {401, 403, 404, 429}"
  by (auto simp: classifyResponseError_def Let_def split: option.splits)

lemma classify_transport_cases:
  "(\<exists>op u. classify_transport e = StatusError ErrAPIUnavailable 0 op u e \<and> isNetError e)
   \<or> classify_transport e = e \<and> \<not> isNetError e"
proof (cases "AsType is_UrlError e")
  case None
  then show ?thesis by (auto simp: classify_transport_def)
next
  case (Some x)
  then obtain op u i where x: "x = UrlError op u i" using AsType_gh_leaf by blast
  then have "isNetError e"
    using AsType_Some [OF Some] unfolding isNetError_iff by (intro bexI [of _ x]) auto
  with Some x show ?thesis by (simp add: classify_transport_def)
qed

lemma ClassifyError_None [simp]: "ClassifyError None = None"
  by (simp add: ClassifyError_def)

lemma ClassifyError_StatusError [simp]:
  "ClassifyError (Some (StatusError s st m u e)) = Some (StatusError s st m u e)"
  by (simp add: ClassifyError_def AsType_self)

text \<open>The branch \<open>ClassifyError\<close> takes, with what it found.\<close>

lemma ClassifyError_branches:
  obtains
    (tagged) "AsType is_StatusError e \<noteq> None" "ClassifyError (Some e) = Some e"
  | (limited) resp x where "AsType is_StatusError e = None" "x \<in> set (err_tree e)"
      "x = GhRateLimitError resp (rl_Message x) \<or> x = GhAbuseRateLimitError resp (abuse_Message x)"
      "ClassifyError (Some e) = Some (classifyRateLimit resp x)"
  | (api) resp msg where "AsType is_StatusError e = None"
      "GhErrorResponse (Some resp) msg \<in> set (err_tree e)"
      "ClassifyError (Some e) = Some (classifyResponseError resp (GhErrorResponse (Some resp) msg))"
  | (transport) "AsType is_StatusError e = None" "AsType is_GhRateLimitError e = None"
      "AsType is_GhAbuseRateLimitError e = None"
      "ClassifyError (Some e) = Some (classify_transport e)"
proof (cases "AsType is_StatusError e")
  case Some
  then show ?thesis by (intro tagged) (simp_all add: ClassifyError_def)
next
  case no_status: None
  have hits: "AsType is_GhRateLimitError e = None \<or> (\<exists>r m. AsType is_GhRateLimitError e = Some (GhRateLimitError r m))"
    "AsType is_GhAbuseRateLimitError e = None \<or> (\<exists>r m. AsType is_GhAbuseRateLimitError e = Some (GhAbuseRateLimitError r m))"
    "AsType is_GhErrorResponse e = None \<or> (\<exists>r m. AsType is_GhErrorResponse e = Some (GhErrorResponse r m))"
    by (metis AsType_gh_leaf(1) not_None_eq, metis AsType_gh_leaf(2) not_None_eq,
        metis AsType_gh_leaf(3) not_None_eq)
  consider (rate) r m where "AsType is_GhRateLimitError e = Some (GhRateLimitError r m)"
    | (abuse) r m where "AsType is_GhRateLimitError e = None"
        "AsType is_GhAbuseRateLimitError e = Some (GhAbuseRateLimitError r m)"
    | (response) ro m where "AsType is_GhRateLimitError e = None" "AsType is_GhAbuseRateLimitError e = None"
        "AsType is_GhErrorResponse e = Some (GhErrorResponse ro m)"
    | (none) "AsType is_GhRateLimitError e = None" "AsType is_GhAbuseRateLimitError e = None"
        "AsType is_GhErrorResponse e = None"
    using hits by metis
  then show ?thesis
  proof cases
    case (rate r m)
    with no_status AsType_Some [OF rate] show ?thesis
      by (intro limited [of "GhRateLimitError r m" r]) (simp_all add: ClassifyError_def)
  next
    case (abuse r m)
    with no_status AsType_Some [OF abuse(2)] show ?thesis
      by (intro limited [of "GhAbuseRateLimitError r m" r]) (simp_all add: ClassifyError_def)
  next
    case (response ro m)
    with no_status AsType_Some [OF response(3)] show ?thesis
      by (cases ro) (auto simp: ClassifyError_def intro: transport api)
  next
    case none
    with no_status show ?thesis by (intro transport) (simp_all add: ClassifyError_def)
  qed
qed

text \<open>The three shapes of a result: unchanged, a fresh \<open>StatusError\<close> with a kit sentinel, or
  the bare \<open>*ErrorResponse\<close> found in the tree.\<close>

lemma ClassifyError_result:
  obtains (same) "ClassifyError (Some e) = Some e"
  | (status) s st m u x where "s \<in> kit_sentinels" "x \<in> set (err_tree e)"
      "ClassifyError (Some e) = Some (StatusError s st m u x)"
  | (bare) resp msg where "GhErrorResponse (Some resp) msg \<in> set (err_tree e)"
      "StatusCode resp < 500" "StatusCode resp \<notin> {401, 403, 404, 429}"
      "ClassifyError (Some e) = Some (GhErrorResponse (Some resp) msg)"
proof (cases e rule: ClassifyError_branches)
  case tagged
  then show ?thesis by (intro same)
next
  case (limited resp x)
  then show ?thesis
    by (cases resp) (auto simp: classifyRateLimit_def intro: status [of ErrRateLimited x])
next
  case (api resp msg)
  then show ?thesis
    using classifyResponseError_cases [of resp "GhErrorResponse (Some resp) msg"]
    by (metis bare status)
next
  case transport
  then show ?thesis
    using classify_transport_cases [of e]
    by (elim disjE exE conjE) (auto intro: same status [of ErrAPIUnavailable e])
qed

section \<open>What classification promises\<close>

text \<open>Classifying is idempotent: classifying a classified error changes nothing, whatever the
  error tree was.\<close>

theorem ClassifyError_idempotent: "ClassifyError (ClassifyError eo) = ClassifyError eo"
proof (cases eo)
  case (Some e)
  show ?thesis
  proof (cases e rule: ClassifyError_result)
    case (bare resp msg)
    let ?g = "GhErrorResponse (Some resp) msg"
    have "classifyResponseError resp ?g = ?g"
      using classifyResponseError_cases [of resp ?g] bare(2,3)
      by (auto simp: classifyResponseError_def Let_def)
    moreover have "AsType P ?g = (if P ?g then Some ?g else None)" for P
      by (simp add: AsType_def)
    ultimately have "ClassifyError (Some ?g) = Some ?g"
      by (simp add: ClassifyError_def)
    with bare Some show ?thesis by simp
  qed (use Some in simp_all)
qed simp

text \<open>C31. The classification table.  For an error whose tree holds a \<open>*github.ErrorResponse\<close>
  with a response, none of go-github's dedicated rate-limit errors and none of the kit's own
  errors, the result matches exactly the sentinel of the status: 401, 404, 429, 403 (split by the
  remaining-requests header being present and zero), 500 and above, and no sentinel otherwise.\<close>

theorem ClassifyError_table:
  assumes gh: "AsType is_GhErrorResponse e = Some (GhErrorResponse (Some resp) msg)"
    and no_rl: "AsType is_GhRateLimitError e = None" "AsType is_GhAbuseRateLimitError e = None"
    and fresh: "AsType is_StatusError e = None"
    and r: "ClassifyError (Some e) = Some r"
  shows "(errors_Is r ErrAuthRequired \<longleftrightarrow> StatusCode resp = 401)
    \<and> (errors_Is r ErrNotFound \<longleftrightarrow> StatusCode resp = 404)
    \<and> (errors_Is r ErrRateLimited \<longleftrightarrow> StatusCode resp = 429 \<or> StatusCode resp = 403 \<and>
        parseHeaderInt (header_Get (resp_Header resp)) headerRateLimitRemaining = Some 0)
    \<and> (errors_Is r ErrForbidden \<longleftrightarrow> StatusCode resp = 403 \<and>
        parseHeaderInt (header_Get (resp_Header resp)) headerRateLimitRemaining \<noteq> Some 0)
    \<and> (errors_Is r ErrAPIUnavailable \<longleftrightarrow> StatusCode resp \<ge> 500)
    \<and> AsType is_GhErrorResponse r = AsType is_GhErrorResponse e"
proof -
  have eq: "r = classifyResponseError resp (GhErrorResponse (Some resp) msg)"
    using r gh no_rl fresh by (simp add: ClassifyError_def)
  show ?thesis
    unfolding eq gh
    by (auto simp: classifyResponseError_def Let_def errors_Is_def AsType_def split: option.splits)
qed

text \<open>A secondary rate limit: 403 with an exhausted budget in its headers.\<close>

definition example_403 :: response where
  "example_403 = \<lparr>StatusCode = 403, resp_Header = [(headerRateLimitRemaining, [''0''])],
     resp_Body = None, resp_Request = None\<rparr>"

lemma example_403_remaining:
  "parseHeaderInt (header_Get (resp_Header example_403)) headerRateLimitRemaining = Some 0"
  by code_simp

theorem ClassifyError_table_witness:
  "errors_Is (the (ClassifyError (Some (Errorf ''list: %w'' [] [GhErrorResponse (Some example_403) ''limit'']))))
     ErrRateLimited"
proof -
  let ?e = "Errorf ''list: %w'' [] [GhErrorResponse (Some example_403) ''limit'']"
  have "AsType is_GhErrorResponse ?e = Some (GhErrorResponse (Some example_403) ''limit'')"
    "AsType is_GhRateLimitError ?e = None" "AsType is_GhAbuseRateLimitError ?e = None"
    "AsType is_StatusError ?e = None"
    by (simp_all add: AsType_def)
  moreover obtain r where r: "ClassifyError (Some ?e) = Some r"
    by (simp add: ClassifyError_def)
  ultimately have "errors_Is r ErrRateLimited"
    using ClassifyError_table [of ?e example_403 "''limit''" r] example_403_remaining
    by (simp add: example_403_def)
  with r show ?thesis by simp
qed

text \<open>A chain: no error of the tree but a \<open>StatusError\<close> wraps more than one error.\<close>

definition chain :: "err \<Rightarrow> bool" where
  "chain e \<longleftrightarrow> (\<forall>x \<in> set (err_tree e). is_StatusError x \<or> length (unwrap x) \<le> 1)"

lemma chain_leaf_unique:
  assumes "chain e" "AsType is_StatusError e = None"
    "x \<in> set (err_tree e)" "unwrap x = []" "y \<in> set (err_tree e)" "unwrap y = []"
  shows "x = y"
  using assms
proof (induction e rule: err_tree.induct)
  case (4 f as es)
  from "4.prems"(1) have "length es \<le> 1" by (simp add: chain_def)
  then consider "es = []" | c where "es = [c]" by (cases es) auto
  then show ?case
  proof cases
    case 1
    with "4.prems" show ?thesis by simp
  next
    case (2 c)
    with "4.prems" show ?thesis
      by (intro "4.IH" [of c]) (auto simp: chain_def AsType_None)
  qed
qed (auto simp: chain_def AsType_None)

lemma leaf_gh: "unwrap (GhErrorResponse r m) = []" "unwrap (GhRateLimitError r m) = []"
  "unwrap (GhAbuseRateLimitError r m) = []"
  by simp_all

text \<open>Classifying keeps the root cause.  In a chain of wrapped errors every error at the end of
  the chain, be it one of go-github's types, a context error or any other sentinel, is still found
  in the result by \<open>errors.Is\<close> and \<open>errors.AsType\<close>; an error already classified is returned
  as it is, with its whole tree.\<close>

theorem ClassifyError_keeps_root_cause:
  assumes "chain e" "x \<in> set (err_tree e)" "unwrap x = []" "ClassifyError (Some e) = Some r"
  shows "x \<in> set (err_tree r)"
proof (cases e rule: ClassifyError_branches)
  case tagged
  with assms show ?thesis by simp
next
  case (limited resp y)
  then have "unwrap y = []" using leaf_gh by metis
  with chain_leaf_unique [OF assms(1) limited(1) assms(2,3) limited(2)] have "x = y" by simp
  with limited assms(4) show ?thesis by (auto simp: classifyRateLimit_def split: option.splits)
next
  case (api resp msg)
  let ?g = "GhErrorResponse (Some resp) msg"
  have "x = ?g" using chain_leaf_unique [OF assms(1) api(1) assms(2,3) api(2)] by simp
  with api assms(4) classifyResponseError_cases [of resp ?g] show ?thesis by auto
next
  case transport
  with assms(2,4) classify_transport_cases [of e] show ?thesis by auto
qed

theorem ClassifyError_keeps_root_cause_witness:
  "CtxError Canceled \<in> set (err_tree (the (ClassifyError (Some
     (UrlError ''Get'' ''https://api.github.com/'' (Errorf ''dial: %w'' [] [CtxError Canceled]))))))"
proof -
  let ?e = "UrlError ''Get'' ''https://api.github.com/'' (Errorf ''dial: %w'' [] [CtxError Canceled])"
  obtain r where r: "ClassifyError (Some ?e) = Some r" by (simp add: ClassifyError_def)
  have "CtxError Canceled \<in> set (err_tree r)"
    by (rule ClassifyError_keeps_root_cause [OF _ _ _ r]) (simp_all add: chain_def)
  with r show ?thesis by simp
qed

text \<open>C38. Classifying loses the context around an API error.  Whatever go-github error is wrapped
  together with a sentinel of the caller, the classified error no longer matches that sentinel: the
  branches for go-github's types wrap or return the inner error instead of the error passed in.  In
  particular an HTTP 400 is not returned unchanged but stripped of its wrappers.\<close>

theorem ClassifyError_drops_wrappers:
  "let api = GhErrorResponse (Some resp) msg;
       e = Errorf ''%w: %w'' [] [OtherError caller, api];
       r = the (ClassifyError (Some e))
   in errors_Is e (OtherError caller) \<and> \<not> errors_Is r (OtherError caller) \<and> r \<noteq> e
      \<and> (r = api \<longleftrightarrow> StatusCode resp < 500 \<and> StatusCode resp \<notin> {401, 403, 404, 429})"
proof -
  let ?api = "GhErrorResponse (Some resp) msg"
  let ?e = "Errorf ''%w: %w'' [] [OtherError caller, ?api]"
  have "ClassifyError (Some ?e) = Some (classifyResponseError resp ?api)"
    by (simp add: ClassifyError_def AsType_def)
  then show ?thesis
    using classifyResponseError_cases [of resp ?api] classifyResponseError_bare [of resp "Some resp" msg]
    by (auto simp: errors_Is_def)
qed

text \<open>Transport failures.  For an error without any go-github error and without a classified
  error, the result matches \<open>ErrAPIUnavailable\<close> exactly if some error in the tree is a
  \<open>net.Error\<close> (a \<open>*url.Error\<close>, a \<open>*net.OpError\<close>, an expired deadline), and otherwise the
  error is returned unchanged; the whole original error stays reachable.\<close>

theorem ClassifyError_transport:
  assumes "AsType is_StatusError e = None" "AsType is_GhRateLimitError e = None"
    "AsType is_GhAbuseRateLimitError e = None" "AsType is_GhErrorResponse e = None"
    "\<not> errors_Is e ErrAPIUnavailable" "ClassifyError (Some e) = Some r"
  shows "(errors_Is r ErrAPIUnavailable \<longleftrightarrow> (\<exists>x \<in> set (err_tree e). implements_net_Error x))
    \<and> (r = e \<longleftrightarrow> \<not> (\<exists>x \<in> set (err_tree e). implements_net_Error x))
    \<and> set (err_tree e) \<subseteq> set (err_tree r)"
proof -
  have r: "r = classify_transport e" using assms by (simp add: ClassifyError_def)
  have ne: "StatusError ErrAPIUnavailable 0 op u e \<noteq> e" for op u
    using assms(1) by (auto simp: AsType_self)
  show ?thesis
    using classify_transport_cases [of e] assms(5) ne
    by (auto simp: r isNetError_iff [symmetric] errors_Is_def)
qed

theorem ClassifyError_transport_witness:
  "errors_Is (the (ClassifyError (Some (CtxError DeadlineExceeded)))) ErrAPIUnavailable"
  using ClassifyError_transport [of "CtxError DeadlineExceeded"
      "StatusError ErrAPIUnavailable 0 [] [] (CtxError DeadlineExceeded)"]
  by (simp add: AsType_def errors_Is_def ClassifyError_def classify_transport_def isNetError_def)

end
