(* ===== verification/World.thy ===== *)
theory World
  imports Errors
begin

text \<open>
  The world an HTTP request runs in, and the two interfaces of the kit's transport stack:
  \<open>clock\<close> (\<open>src/transport.go\<close>) and \<open>http.RoundTripper\<close>.  The shared state of
  one kernel lives in the world record: the rate-limit cache, the prober's last attempt and the
  pacing layer's reserved slot, each guarded by its own mutex in the code.  The type \<open>'n\<close> is
  the state of what is beyond the innermost transport.  \<open>w_log\<close> is a ghost field: it records
  requests put on the wire with their outcome, waits asked of the clock, and response bodies
  drained and closed.

  What the kit cannot decide, how late a timer fires and a goroutine is scheduled, which ready
  branch a \<open>select\<close> takes, how much of a request body a transport reads, is up to
  \<open>w_chance\<close>: any function from the number of events so far to the choices made next.  No
  operation writes it, and the theorems hold for every such function.
\<close>

section \<open>State\<close>

type_synonym rt_result = "response option \<times> err option"

datatype event =
    Sent request rt_result
  | Slept duration
  | Closed response nat

record chance =
  scheduled_after :: nat
  timer_late :: nat
  ctx_first :: bool
  body_taken :: nat

record 'n world =
  w_now :: time
  w_cache :: "RateLimitCache option"
  w_lastAttempt :: time
  w_reserved :: time
  w_log :: "event list"
  w_chance :: "nat \<Rightarrow> chance"
  w_net :: 'n

abbreviation next_chance :: "'n world \<Rightarrow> chance" where
  "next_chance w \<equiv> w_chance w (length (w_log w))"

definition log_event :: "event \<Rightarrow> 'n world \<Rightarrow> 'n world" where
  "log_event ev w = w\<lparr>w_log := w_log w @ [ev]\<rparr>"

lemma log_event_simps [simp]:
  "w_now (log_event ev w) = w_now w" "w_cache (log_event ev w) = w_cache w"
  "w_lastAttempt (log_event ev w) = w_lastAttempt w" "w_reserved (log_event ev w) = w_reserved w"
  "w_log (log_event ev w) = w_log w @ [ev]" "w_net (log_event ev w) = w_net w"
  "w_chance (log_event ev w) = w_chance w"
  by (simp_all add: log_event_def)

fun sents :: "event list \<Rightarrow> (request \<times> rt_result) list" where
  "sents [] = []"
| "sents (Sent req r # es) = (req, r) # sents es"
| "sents (ev # es) = sents es"

fun slepts :: "event list \<Rightarrow> duration list" where
  "slepts [] = []"
| "slepts (Slept d # es) = d # slepts es"
| "slepts (ev # es) = slepts es"

fun closeds :: "event list \<Rightarrow> response list" where
  "closeds [] = []"
| "closeds (Closed r n # es) = r # closeds es"
| "closeds (ev # es) = closeds es"

lemma events_append [simp]:
  "sents (a @ b) = sents a @ sents b" "slepts (a @ b) = slepts a @ slepts b"
  "closeds (a @ b) = closeds a @ closeds b"
  by (induction a rule: sents.induct; simp)+

text \<open>What a log weighs, by a cost per request and outcome and a cost per wait: with cost one for
  requests it is their number, with a cost that is zero for the good ones it counts the bad, with
  the length as the cost of a wait it is the time spent waiting.\<close>

definition weight :: "(request \<times> rt_result \<Rightarrow> nat) \<Rightarrow> (duration \<Rightarrow> nat) \<Rightarrow> event list \<Rightarrow> nat" where
  "weight cost pause es = sum_list (map cost (sents es)) + sum_list (map pause (slepts es))"

lemma weight_simps [simp]:
  "weight cost pause [] = 0" "weight cost pause (Sent req r # es) = cost (req, r) + weight cost pause es"
  "weight cost pause (Slept d # es) = pause d + weight cost pause es"
  "weight cost pause (Closed resp n # es) = weight cost pause es"
  "weight cost pause (es @ es') = weight cost pause es + weight cost pause es'"
  by (simp_all add: weight_def)

lemma sum_list_zeros [simp]: "sum_list (map (\<lambda>x. 0) xs) = (0::nat)"
  by (induction xs) simp_all

lemma weight_one: "weight (\<lambda>s. 1) (\<lambda>d. 0) es = length (sents es)"
  by (simp add: weight_def sum_list_triv)

lemma weight_zero: "weight (\<lambda>s. if P s then 0 else 1) (\<lambda>d. 0) es = 0 \<longleftrightarrow> list_all P (sents es)"
  by (auto simp: weight_def list_all_iff)

lemma weight_waits: "weight (\<lambda>s. 0) pause es = sum_list (map pause (slepts es))"
  by (simp add: weight_def)

text \<open>What a call added to the log.\<close>

definition new_events :: "'n world \<Rightarrow> 'n world \<Rightarrow> event list" where
  "new_events w w' = drop (length (w_log w)) (w_log w')"

lemma new_eventsI: "w_log w' = w_log w @ tr \<Longrightarrow> new_events w w' = tr"
  by (simp add: new_events_def)

text \<open>The responses of some attempts that have a body to close.\<close>

fun with_body :: "(request \<times> rt_result) list \<Rightarrow> response list" where
  "with_body [] = []"
| "with_body ((req, resp, e) # xs) =
     (case resp of Some r \<Rightarrow> (if resp_Body r = None then [] else [r]) | None \<Rightarrow> []) @ with_body xs"

section \<open>The clock interface\<close>

record 'n clock =
  clk_now :: "'n world \<Rightarrow> time"
  clk_sleep :: "ctx \<Rightarrow> duration \<Rightarrow> 'n world \<Rightarrow> err option \<times> 'n world"

text \<open>The wall clock.  The goroutine reaches the \<open>select\<close> some time after it has set the timer;
  the timer fires after at least its duration, at once if that is not positive, and possibly late.
  The branch that is ready first is taken, and if both are ready when the goroutine looks, or become
  ready at the same moment, either may be.\<close>

definition wallClock_now :: "'n world \<Rightarrow> time" where
  "wallClock_now w = w_now w"

definition wallClock_sleep :: "ctx \<Rightarrow> duration \<Rightarrow> 'n world \<Rightarrow> err option \<times> 'n world" where
  "wallClock_sleep c d w =
     (let looks = w_now w + int (scheduled_after (next_chance w));
          fires = max looks (w_now w + max 0 d + int (timer_late (next_chance w)));
          w1 = log_event (Slept d) w
      in case ctx_done c of
           None \<Rightarrow> (None, w1\<lparr>w_now := fires\<rparr>)
         | Some (t, cause) \<Rightarrow>
             let cancelled = max looks t
             in if cancelled < fires \<or> cancelled = fires \<and> ctx_first (next_chance w)
                then (Some (CtxError cause), w1\<lparr>w_now := cancelled\<rparr>)
                else (None, w1\<lparr>w_now := fires\<rparr>))"

definition wallClock :: "'n clock" where
  "wallClock = \<lparr>clk_now = wallClock_now, clk_sleep = wallClock_sleep\<rparr>"

text \<open>What the layers rely on: reading the clock has no effect, a completed wait lasted at
  least as long as asked, an interrupted one reports the cause of the context's cancellation, and
  a wait touches nothing else.\<close>

locale clock_laws =
  fixes clk :: "'n clock"
  assumes now_reads: "clk_now clk w = w_now w"
    and sleep_frame: "clk_sleep clk c d w = (eo, w') \<Longrightarrow>
      w' = (log_event (Slept d) w)\<lparr>w_now := w_now w'\<rparr> \<and> w_now w \<le> w_now w'"
    and sleep_full: "clk_sleep clk c d w = (None, w') \<Longrightarrow> w_now w + d \<le> w_now w'"
    and sleep_interrupted: "clk_sleep clk c d w = (Some e, w') \<Longrightarrow>
      \<exists>t cause. ctx_done c = Some (t, cause) \<and> e = CtxError cause"
begin

lemma sleep_fields:
  assumes "clk_sleep clk c d w = (eo, w')"
  shows "w_cache w' = w_cache w" "w_lastAttempt w' = w_lastAttempt w" "w_reserved w' = w_reserved w"
    "w_log w' = w_log w @ [Slept d]" "w_net w' = w_net w" "w_now w \<le> w_now w'"
    "w_chance w' = w_chance w"
proof -
  have eq: "w' = (log_event (Slept d) w)\<lparr>w_now := w_now w'\<rparr>" and "w_now w \<le> w_now w'"
    using sleep_frame [OF assms] by auto
  show "w_cache w' = w_cache w" using arg_cong [OF eq, of w_cache] by simp
  show "w_lastAttempt w' = w_lastAttempt w" using arg_cong [OF eq, of w_lastAttempt] by simp
  show "w_reserved w' = w_reserved w" using arg_cong [OF eq, of w_reserved] by simp
  show "w_log w' = w_log w @ [Slept d]" using arg_cong [OF eq, of w_log] by simp
  show "w_net w' = w_net w" using arg_cong [OF eq, of w_net] by simp
  show "w_chance w' = w_chance w" using arg_cong [OF eq, of w_chance] by simp
  show "w_now w \<le> w_now w'" by fact
qed

end

interpretation wall: clock_laws wallClock
  by unfold_locales
    (auto simp: wallClock_def wallClock_now_def wallClock_sleep_def Let_def log_event_def
      split: option.splits if_splits)

text \<open>When a completed wait ends, and that only a context can cut one short.\<close>

lemma wall_sleep_done:
  assumes "clk_sleep wallClock c d w = (None, w')"
  shows "w_now w' = max (w_now w + int (scheduled_after (next_chance w)))
    (w_now w + max 0 d + int (timer_late (next_chance w)))"
  using assms
  by (auto simp: wallClock_def wallClock_sleep_def Let_def split: option.splits if_splits)

lemma wall_sleep_cut:
  assumes "clk_sleep wallClock c d w = (Some e, w')"
  obtains t cause where "ctx_done c = Some (t, cause)" "e = CtxError cause" "t \<le> w_now w'"
  using assms
  by (auto simp: wallClock_def wallClock_sleep_def Let_def split: option.splits if_splits prod.splits)

text \<open>The next wait of a world is on time if neither its timer nor its goroutine is late.\<close>

definition punctual :: "'n world \<Rightarrow> bool" where
  "punctual w \<longleftrightarrow> scheduled_after (next_chance w) = 0 \<and> timer_late (next_chance w) = 0"

lemma wall_sleep_punctual:
  "clk_sleep wallClock c d w = (None, w') \<Longrightarrow> punctual w \<Longrightarrow> 0 \<le> d \<Longrightarrow> w_now w' = w_now w + d"
  by (simp add: wall_sleep_done punctual_def)

section \<open>The RoundTripper interface\<close>

type_synonym 'n round_trip = "request \<Rightarrow> 'n world \<Rightarrow> rt_result \<times> 'n world"

text \<open>The contract of \<open>http.RoundTripper\<close> (a call answers with a response or an error) and
  what every layer of the kernel keeps of the shared state.\<close>

locale round_tripper =
  fixes rt :: "'n round_trip"
  assumes answers: "rt req w = ((resp, eo), w') \<Longrightarrow> resp \<noteq> None \<or> eo \<noteq> None"
    and time_flows: "rt req w = (r, w') \<Longrightarrow> w_now w \<le> w_now w'"
    and log_grows: "rt req w = (r, w') \<Longrightarrow> prefix (w_log w) (w_log w')"
    and keeps_cache: "rt req w = (r, w') \<Longrightarrow> cache_ok (w_cache w) \<Longrightarrow> cache_ok (w_cache w')"

text \<open>A leaf puts each request on the wire exactly once and touches no shared state.\<close>

locale leaf_transport = round_tripper rt for rt :: "'n round_trip" +
  assumes logs_once: "rt req w = (r, w') \<Longrightarrow> w_log w' = w_log w @ [Sent req r]"
    and leaf_frame: "rt req w = (r, w') \<Longrightarrow> w_cache w' = w_cache w \<and>
      w_lastAttempt w' = w_lastAttempt w \<and> w_reserved w' = w_reserved w"

text \<open>The innermost transport.  What happens on the network is outside the module: \<open>net\<close>
  is any function that answers a request with an error or a response, says when, and moves
  its own state.\<close>

type_synonym 'n network = "request \<Rightarrow> time \<Rightarrow> 'n \<Rightarrow> (err + response) \<times> time \<times> 'n"

definition base_RoundTrip :: "'n network \<Rightarrow> 'n round_trip" where
  "base_RoundTrip net req w =
     (case net req (w_now w) (w_net w) of (a, t, n) \<Rightarrow>
        let r = (case a of Inl e \<Rightarrow> (None, Some e) | Inr resp \<Rightarrow> (Some resp, None))
        in (r, (log_event (Sent req r) w)\<lparr>w_now := max (w_now w) t, w_net := n\<rparr>))"

interpretation base: leaf_transport "base_RoundTrip net" for net :: "'n network"
  by unfold_locales
    (auto simp: base_RoundTrip_def Let_def prefix_def split: prod.splits sum.splits)

section \<open>Draining a response\<close>

definition drainLimitBytes :: nat where
  "drainLimitBytes = 4096"

definition drainClose :: "response option \<Rightarrow> 'n world \<Rightarrow> 'n world" where
  "drainClose resp w =
     (case resp of None \<Rightarrow> w
      | Some r \<Rightarrow> (case resp_Body r of None \<Rightarrow> w
          | Some b \<Rightarrow> log_event (Closed r (min drainLimitBytes (length b))) w))"

definition closing :: "response option \<Rightarrow> event list" where
  "closing resp = (case resp of None \<Rightarrow> []
     | Some r \<Rightarrow> (case resp_Body r of None \<Rightarrow> []
         | Some b \<Rightarrow> [Closed r (min drainLimitBytes (length b))]))"

lemma drainClose_simps [simp, frame_simps]:
  "w_now (drainClose r w) = w_now w" "w_cache (drainClose r w) = w_cache w"
  "w_lastAttempt (drainClose r w) = w_lastAttempt w" "w_reserved (drainClose r w) = w_reserved w"
  "w_net (drainClose r w) = w_net w" "w_log (drainClose r w) = w_log w @ closing r"
  "w_chance (drainClose r w) = w_chance w"
  by (simp_all add: drainClose_def closing_def split: option.splits)

lemma closing_events [simp]: "sents (closing r) = []" "slepts (closing r) = []"
  "closeds (closing r) = with_body [(req, r, e)]" "weight cost pause (closing r) = 0"
  by (simp_all add: closing_def weight_def split: option.splits)

end
