(* ===== verification/Retry.thy ===== *)
theory Retry
  imports World
begin

text \<open>
  The retry layer of \<open>src/transport.go\<close> with its options from \<open>src/probe.go\<close>.  The
  loop is a recursion that ends because the attempt counter reaches \<open>MaxRetries\<close>; the
  backoff doubles in 64-bit arithmetic.  \<open>retry_protocol\<close> is the abstract specification: the
  sequences of sends, body closings and waits the layer may produce, without clock or world.
\<close>

section \<open>Options and the retry decision\<close>

record RetryOptions =
  retry_Enabled :: bool
  MaxRetries :: int
  InitialBackoff :: duration
  MaxBackoff :: duration

definition isIdempotent :: "string \<Rightarrow> bool" where
  "isIdempotent meth \<longleftrightarrow> meth \<in> {''GET'', ''HEAD'', ''OPTIONS'', ''PUT'', ''DELETE''}"

definition shouldRetry :: "request \<Rightarrow> response option \<Rightarrow> err option \<Rightarrow> bool" where
  "shouldRetry req resp e =
     (if e \<noteq> None then isIdempotent (req_Method req)
      else case resp of
          None \<Rightarrow> False
        | Some r \<Rightarrow>
            if StatusCode r = StatusTooManyRequests then True
            else StatusCode r \<ge> StatusInternalServerError \<and> isIdempotent (req_Method req))"

definition retryAfter :: "response option \<Rightarrow> duration" where
  "retryAfter resp =
     (case resp of None \<Rightarrow> 0
      | Some r \<Rightarrow>
          let raw = header_Get (resp_Header r) ''Retry-After''
          in if raw = [] then 0
             else case Atoi raw of
                 None \<Rightarrow> 0
               | Some seconds \<Rightarrow> if seconds < 0 then 0 else wrap64 (seconds * second))"

definition readBody :: "body \<Rightarrow> err + string \<times> bool" where
  "readBody b =
     (case b of
        NilBody \<Rightarrow> Inr ([], False)
      | HttpNoBody \<Rightarrow> Inr ([], False)
      | Stream bytes readErr closeErr \<Rightarrow>
          (case readErr of
             Some e \<Rightarrow> Inl (OtherError e)
           | None \<Rightarrow> (case closeErr of
               Some e \<Rightarrow> Inl (OtherError e)
             | None \<Rightarrow> Inr (bytes, True))))"

definition replacer :: "string \<Rightarrow> body" where
  "replacer b = Stream b None None"

text \<open>\<open>req.Body\<close> is a reader that \<open>readBody\<close> and the transport below share with the loop through
  the pointer \<open>req\<close>: bytes that were read are gone for the next attempt.\<close>

definition read_off :: "nat \<Rightarrow> request \<Rightarrow> request" where
  "read_off n req =
     (case req_Body req of
        Stream bytes readErr closeErr \<Rightarrow> req\<lparr>req_Body := Stream (drop n bytes) readErr closeErr\<rparr>
      | _ \<Rightarrow> req)"

definition replay :: "string \<times> bool \<Rightarrow> request \<Rightarrow> request" where
  "replay body req = (if snd body then req\<lparr>req_Body := replacer (fst body)\<rparr> else req)"

section \<open>The loop\<close>

definition retry_delay :: "RetryOptions \<Rightarrow> duration \<Rightarrow> response option \<Rightarrow> duration" where
  "retry_delay opts backoff resp =
     (let delay = backoff;
          after = retryAfter resp;
          delay = (if after > delay then after else delay)
      in if delay > MaxBackoff opts then MaxBackoff opts else delay)"

lemma retry_delay_le: "retry_delay opts backoff resp \<le> MaxBackoff opts"
  by (simp add: retry_delay_def Let_def)

definition next_backoff :: "RetryOptions \<Rightarrow> duration \<Rightarrow> duration" where
  "next_backoff opts backoff =
     (let b = wrap64 (backoff * 2) in if b > MaxBackoff opts then MaxBackoff opts else b)"

text \<open>The layer below takes any number of bytes of the body off the reader, all or few of them; what
  it leaves is what the next attempt would send if the body were not reset.\<close>

function retry_loop :: "RetryOptions \<Rightarrow> 'n clock \<Rightarrow> 'n round_trip \<Rightarrow> string \<times> bool \<Rightarrow> int \<Rightarrow> duration
    \<Rightarrow> 'n round_trip" where
  "retry_loop opts clk nxt body attempt backoff req w =
     (let req = replay body req;
          n = body_taken (next_chance w) in
      case nxt req w of ((resp, rtErr), w) \<Rightarrow>
       (let req = read_off n req in
        if attempt \<ge> MaxRetries opts \<or> \<not> shouldRetry req resp rtErr then ((resp, rtErr), w)
        else
          (case clk_sleep clk (req_Context req) (retry_delay opts backoff resp) (drainClose resp w) of
             (Some sleepErr, w) \<Rightarrow> ((None, Some sleepErr), w)
           | (None, w) \<Rightarrow>
               retry_loop opts clk nxt body (attempt + 1) (next_backoff opts backoff) req w)))"
  by pat_completeness auto
termination
  by (relation "measure (\<lambda>(opts, clk, nxt, body, attempt, backoff, req, w). nat (MaxRetries opts + 1 - attempt))")
     auto

declare retry_loop.simps [simp del]

definition retryTransport_RoundTrip :: "RetryOptions \<Rightarrow> 'n clock \<Rightarrow> 'n round_trip \<Rightarrow> 'n round_trip" where
  "retryTransport_RoundTrip opts clk nxt req w =
     (if \<not> retry_Enabled opts then nxt req w
      else case readBody (req_Body req) of
          Inl e \<Rightarrow> ((None, Some e), w)
        | Inr body \<Rightarrow>
            retry_loop opts clk nxt body 0 (InitialBackoff opts) (read_off (length (fst body)) req) w)"

section \<open>The abstract protocol\<close>

inductive retry_protocol :: "RetryOptions \<Rightarrow> request \<Rightarrow> int \<Rightarrow> duration \<Rightarrow> event list \<Rightarrow> rt_result \<Rightarrow> bool"
  for opts req where
  final: "attempt \<ge> MaxRetries opts \<or> \<not> shouldRetry req resp e \<Longrightarrow>
    retry_protocol opts req attempt backoff [Sent req (resp, e)] (resp, e)"
| interrupted: "attempt < MaxRetries opts \<Longrightarrow> shouldRetry req resp e \<Longrightarrow>
    ctx_done (req_Context req) = Some (t, cause) \<Longrightarrow>
    d = retry_delay opts backoff resp \<Longrightarrow>
    retry_protocol opts req attempt backoff (Sent req (resp, e) # closing resp @ [Slept d])
      (None, Some (CtxError cause))"
| again: "attempt < MaxRetries opts \<Longrightarrow> shouldRetry req resp e \<Longrightarrow>
    d = retry_delay opts backoff resp \<Longrightarrow>
    retry_protocol opts req (attempt + 1) (next_backoff opts backoff) tr res \<Longrightarrow>
    retry_protocol opts req attempt backoff (Sent req (resp, e) # closing resp @ Slept d # tr) res"

section \<open>One round of the loop, and induction over rounds\<close>

lemma replay_fields [simp]:
  "req_Method (replay body req) = req_Method req" "req_URL (replay body req) = req_URL req"
  "req_Header (replay body req) = req_Header req" "req_Context (replay body req) = req_Context req"
  by (simp_all add: replay_def)

lemma read_off_fields [simp]:
  "req_Method (read_off n req) = req_Method req" "req_URL (read_off n req) = req_URL req"
  "req_Header (read_off n req) = req_Header req" "req_Context (read_off n req) = req_Context req"
  by (simp_all add: read_off_def split: body.splits)

lemma shouldRetry_read_off [simp]: "shouldRetry (read_off n req) resp e = shouldRetry req resp e"
  by (simp add: shouldRetry_def split: option.splits)

text \<open>The loop has the bytes of the body, or there is none to send.\<close>

definition covers :: "string \<times> bool \<Rightarrow> request \<Rightarrow> bool" where
  "covers body req \<longleftrightarrow> snd body \<or> req_Body req \<in> {NilBody, HttpNoBody}"

lemma replay_read_off:
  "covers body req \<Longrightarrow> replay body (read_off n (replay body req)) = replay body req"
  by (auto simp: covers_def replay_def read_off_def replacer_def split: body.splits)

lemma covers_again: "covers body req \<Longrightarrow> covers body (read_off n (replay body req))"
  by (auto simp: covers_def replay_def read_off_def)

text \<open>A body that could be read is sent as it was, however much of it has been read since.\<close>

lemma replay_readBody:
  assumes "readBody (req_Body req) = Inr body"
  shows "replay body (read_off n req) = req" "covers body (read_off n req)"
proof -
  have "(snd body \<and> req_Body req = replacer (fst body)) \<or> (\<not> snd body \<and> req_Body req \<in> {NilBody, HttpNoBody})"
    using assms by (auto simp: readBody_def replacer_def split: body.splits option.splits)
  then show "replay body (read_off n req) = req" "covers body (read_off n req)"
    by (cases req; auto simp: replay_def read_off_def covers_def replacer_def)+
qed

lemma retry_loop_round:
  assumes "retry_loop opts clk nxt body attempt backoff req w = (res, w')"
  obtains
    (final) resp e where "nxt (replay body req) w = ((resp, e), w')" "res = (resp, e)"
      "attempt \<ge> MaxRetries opts \<or> \<not> shouldRetry (replay body req) resp e"
  | (interrupted) resp e w1 x where "nxt (replay body req) w = ((resp, e), w1)"
      "attempt < MaxRetries opts" "shouldRetry (replay body req) resp e"
      "clk_sleep clk (req_Context req) (retry_delay opts backoff resp) (drainClose resp w1) = (Some x, w')"
      "res = (None, Some x)"
  | (again) resp e w1 w2 where "nxt (replay body req) w = ((resp, e), w1)"
      "attempt < MaxRetries opts" "shouldRetry (replay body req) resp e"
      "clk_sleep clk (req_Context req) (retry_delay opts backoff resp) (drainClose resp w1) = (None, w2)"
      "retry_loop opts clk nxt body (attempt + 1) (next_backoff opts backoff)
        (read_off (body_taken (next_chance w)) (replay body req)) w2 = (res, w')"
proof -
  obtain resp e w1 where n: "nxt (replay body req) w = ((resp, e), w1)" by (metis prod.exhaust)
  obtain x w2 where s: "clk_sleep clk (req_Context req) (retry_delay opts backoff resp)
      (drainClose resp w1) = (x, w2)" by (metis prod.exhaust)
  note eq = assms [unfolded retry_loop.simps [of opts clk nxt body attempt backoff req w]]
  show ?thesis
  proof (cases "attempt \<ge> MaxRetries opts \<or> \<not> shouldRetry (replay body req) resp e")
    case True
    with eq n show ?thesis by (intro final) (auto simp: Let_def)
  next
    case False
    then have go: "attempt < MaxRetries opts" "shouldRetry (replay body req) resp e" by auto
    show ?thesis
    proof (cases x)
      case None
      with eq n s go show ?thesis by (intro again [OF n go]) (auto simp: Let_def)
    next
      case (Some y)
      with eq n s go show ?thesis by (intro interrupted [OF n go]) (auto simp: Let_def)
    qed
  qed
qed

lemma retry_loop_rounds [consumes 1, case_names final interrupted again]:
  assumes "retry_loop opts clk nxt body attempt backoff req w = (res, w')"
    and final: "\<And>attempt backoff req w resp e w'. nxt (replay body req) w = ((resp, e), w') \<Longrightarrow>
      attempt \<ge> MaxRetries opts \<or> \<not> shouldRetry (replay body req) resp e \<Longrightarrow>
      P attempt backoff req w (resp, e) w'"
    and interrupted: "\<And>attempt backoff req w resp e w1 x w'.
      nxt (replay body req) w = ((resp, e), w1) \<Longrightarrow>
      attempt < MaxRetries opts \<Longrightarrow> shouldRetry (replay body req) resp e \<Longrightarrow>
      clk_sleep clk (req_Context req) (retry_delay opts backoff resp) (drainClose resp w1) = (Some x, w') \<Longrightarrow>
      P attempt backoff req w (None, Some x) w'"
    and again: "\<And>attempt backoff req w resp e w1 w2 res w'.
      nxt (replay body req) w = ((resp, e), w1) \<Longrightarrow>
      attempt < MaxRetries opts \<Longrightarrow> shouldRetry (replay body req) resp e \<Longrightarrow>
      clk_sleep clk (req_Context req) (retry_delay opts backoff resp) (drainClose resp w1) = (None, w2) \<Longrightarrow>
      P (attempt + 1) (next_backoff opts backoff) (read_off (body_taken (next_chance w)) (replay body req)) w2 res w' \<Longrightarrow>
      P attempt backoff req w res w'"
  shows "P attempt backoff req w res w'"
  using assms(1)
proof (induction "nat (MaxRetries opts - attempt)" arbitrary: attempt backoff req w rule: less_induct)
  case less
  from less.prems show ?case
  proof (cases rule: retry_loop_round)
    case (final resp e)
    with assms(2) show ?thesis by simp
  next
    case (interrupted resp e w1 x)
    with assms(3) show ?thesis by simp
  next
    case (again resp e w1 w2)
    have "nat (MaxRetries opts - (attempt + 1)) < nat (MaxRetries opts - attempt)"
      using again(2) by simp
    from less.hyps [OF this again(5)] assms(4) [OF again(1-4)] show ?thesis by blast
  qed
qed

section \<open>The layer keeps the RoundTripper contract\<close>

locale retry_stack = clock_laws clk + round_tripper nxt
  for clk :: "'n clock" and nxt :: "'n round_trip"
begin

lemma retry_loop_contract:
  assumes "retry_loop opts clk nxt body attempt backoff req w = (res, w')"
  shows "(fst res \<noteq> None \<or> snd res \<noteq> None) \<and> w_now w \<le> w_now w' \<and> prefix (w_log w) (w_log w')
    \<and> (cache_ok (w_cache w) \<longrightarrow> cache_ok (w_cache w'))"
  using assms
proof (induction rule: retry_loop_rounds)
  case (final attempt backoff req w resp e w')
  then show ?case using answers time_flows log_grows keeps_cache by auto
next
  case (interrupted attempt backoff req w resp e w1 x w')
  note f = sleep_fields [OF interrupted(4)]
  show ?case
    using time_flows [OF interrupted(1)] log_grows [OF interrupted(1)] keeps_cache [OF interrupted(1)] f
    by (auto simp: prefix_def)
next
  case (again attempt backoff req w resp e w1 w2 res w')
  note f = sleep_fields [OF again(4)]
  show ?case
    using time_flows [OF again(1)] log_grows [OF again(1)] keeps_cache [OF again(1)] f again(5)
    by (auto simp: prefix_def)
qed

lemma retry_contract:
  assumes "retryTransport_RoundTrip opts clk nxt req w = (res, w')"
  shows "(fst res \<noteq> None \<or> snd res \<noteq> None) \<and> w_now w \<le> w_now w' \<and> prefix (w_log w) (w_log w')
    \<and> (cache_ok (w_cache w) \<longrightarrow> cache_ok (w_cache w'))"
proof (cases "retry_Enabled opts")
  case True
  then show ?thesis
    using assms retry_loop_contract by (auto simp: retryTransport_RoundTrip_def split: sum.splits)
next
  case False
  then show ?thesis
    using assms answers time_flows log_grows keeps_cache
    by (cases res) (auto simp: retryTransport_RoundTrip_def)
qed

sublocale retried: round_tripper "retryTransport_RoundTrip opts clk nxt" for opts
  by unfold_locales (use retry_contract in fastforce)+

lemma retried_round_tripper: "round_tripper (retryTransport_RoundTrip opts clk nxt)"
  by (rule retried.round_tripper_axioms)

end

section \<open>Refinement: over a leaf transport the log follows the protocol\<close>

locale retry_leaf = clock_laws clk + leaf_transport nxt
  for clk :: "'n clock" and nxt :: "'n round_trip"
begin

sublocale retry_stack clk nxt
  by unfold_locales

lemma retry_loop_protocol:
  assumes "retry_loop opts clk nxt body attempt backoff req w = (res, w')" "covers body req"
  shows "\<exists>tr. w_log w' = w_log w @ tr \<and> retry_protocol opts (replay body req) attempt backoff tr res"
  using assms
proof (induction rule: retry_loop_rounds)
  case (final attempt backoff req w resp e w')
  then show ?case
    using logs_once [OF final(1)] by (auto intro: retry_protocol.final)
next
  case (interrupted attempt backoff req w resp e w1 x w')
  obtain t cause where c: "ctx_done (req_Context req) = Some (t, cause)" "x = CtxError cause"
    using sleep_interrupted [OF interrupted(4)] by blast
  have "retry_protocol opts (replay body req) attempt backoff
      (Sent (replay body req) (resp, e) # closing resp @ [Slept (retry_delay opts backoff resp)])
      (None, Some (CtxError cause))"
    using interrupted(2,3) c(1) by (intro retry_protocol.interrupted [where t = t]) auto
  then show ?case
    using sleep_fields(4) [OF interrupted(4)] logs_once [OF interrupted(1)] c(2) by simp
next
  case (again attempt backoff req w resp e w1 w2 res w')
  obtain tr where tr: "w_log w' = w_log w2 @ tr"
    "retry_protocol opts (replay body req) (attempt + 1) (next_backoff opts backoff) tr res"
    using again(5) covers_again [OF again(6)] replay_read_off [OF again(6)] by auto
  have "retry_protocol opts (replay body req) attempt backoff
      (Sent (replay body req) (resp, e) # closing resp @ Slept (retry_delay opts backoff resp) # tr) res"
    using again(2,3) tr(2) by (intro retry_protocol.again) auto
  then show ?case
    using sleep_fields(4) [OF again(4)] logs_once [OF again(1)] tr(1) by auto
qed

lemma retry_refines_protocol:
  assumes "retry_Enabled opts" "readBody (req_Body req) = Inr body"
    "retryTransport_RoundTrip opts clk nxt req w = (res, w')"
  shows "\<exists>tr. w_log w' = w_log w @ tr \<and> retry_protocol opts req 0 (InitialBackoff opts) tr res"
  using retry_loop_protocol [of opts body 0 "InitialBackoff opts" "read_off (length (fst body)) req" w res w']
    assms replay_readBody [OF assms(2)]
  by (simp add: retryTransport_RoundTrip_def)

end

interpretation retry: retry_leaf wallClock "base_RoundTrip net" for net :: "'n network"
  by unfold_locales

section \<open>Consequences of the protocol\<close>

lemma protocol_attempts:
  "retry_protocol opts req attempt backoff tr res \<Longrightarrow>
   sents tr \<noteq> [] \<and> length (sents tr) \<le> 1 + nat (MaxRetries opts - attempt)
   \<and> length (slepts tr) \<le> nat (MaxRetries opts - attempt)"
  by (induction rule: retry_protocol.induct) auto

lemma protocol_same_request:
  "retry_protocol opts req attempt backoff tr res \<Longrightarrow> list_all (\<lambda>(q, r). q = req) (sents tr)"
  by (induction rule: retry_protocol.induct) auto

lemma protocol_waits:
  "retry_protocol opts req attempt backoff tr res \<Longrightarrow> list_all (\<lambda>d. d \<le> MaxBackoff opts) (slepts tr)"
  by (induction rule: retry_protocol.induct) (auto simp: retry_delay_le)

lemma protocol_retried:
  "retry_protocol opts req attempt backoff tr res \<Longrightarrow>
   list_all (\<lambda>(q, resp, e). shouldRetry req resp e) (butlast (sents tr))"
  by (induction rule: retry_protocol.induct) auto

lemma protocol_closes:
  "retry_protocol opts req attempt backoff tr res \<Longrightarrow>
   closeds tr = with_body (take (length (slepts tr)) (sents tr))"
  by (induction rule: retry_protocol.induct) (auto simp: closing_def split: option.splits)

lemma protocol_result:
  "retry_protocol opts req attempt backoff tr res \<Longrightarrow>
   (res = snd (last (sents tr)) \<and> length (sents tr) = Suc (length (slepts tr)))
   \<or> (\<exists>t cause. ctx_done (req_Context req) = Some (t, cause) \<and> res = (None, Some (CtxError cause))
        \<and> length (sents tr) = length (slepts tr))"
proof (induction rule: retry_protocol.induct)
  case (again attempt resp e d backoff tr res)
  have "sents tr \<noteq> []" using protocol_attempts [OF again(4)] by simp
  with again show ?case by auto
qed auto

text \<open>The waits when no answer carries a usable \<open>Retry-After\<close>: a doubling sequence, capped.\<close>

lemma next_backoff_exact:
  assumes "0 \<le> b" "b \<le> 4611686018427387903"
  shows "next_backoff opts b = min (MaxBackoff opts) (2 * b)"
proof -
  have "wrap64 (b * 2) = b * 2" using assms by (intro wrap64_id) (auto simp: in_int64_def)
  then show ?thesis by (simp add: next_backoff_def Let_def min_def)
qed

lemma min_double: "0 \<le> (m::int) \<Longrightarrow> 0 \<le> x \<Longrightarrow> min m (min m (2 * x) * 2 ^ k) = min m (x * 2 ^ Suc k)"
proof -
  assume m: "0 \<le> m" "0 \<le> x"
  have "1 \<le> (2::int) ^ k" by simp
  then have "m \<le> m * 2 ^ k" using m mult_left_mono [of 1 "2 ^ k" m] by simp
  moreover have "2 * x \<le> 2 * x * 2 ^ k" using m(2) \<open>1 \<le> (2::int) ^ k\<close> mult_left_mono [of 1 "2 ^ k" "2 * x"] by simp
  ultimately show ?thesis by (auto simp: min_def algebra_simps)
qed

lemma protocol_schedule:
  assumes "retry_protocol opts req attempt backoff tr res"
    and "0 \<le> MaxBackoff opts" "MaxBackoff opts \<le> 4611686018427387903"
    and "0 \<le> backoff" "backoff \<le> 4611686018427387903"
    and "list_all (\<lambda>(q, resp, e). retryAfter resp = 0) (sents tr)"
  shows "slepts tr = map (\<lambda>k. min (MaxBackoff opts) (backoff * 2 ^ k)) [0..<length (slepts tr)]"
  using assms
proof (induction rule: retry_protocol.induct)
  case (again attempt resp e d backoff tr res)
  let ?f = "\<lambda>b k. min (MaxBackoff opts) (b * 2 ^ k)"
  have d: "d = min (MaxBackoff opts) backoff" using again by (simp add: retry_delay_def Let_def min_def)
  have b: "next_backoff opts backoff = min (MaxBackoff opts) (2 * backoff)"
    using again.prems by (intro next_backoff_exact) auto
  have "slepts tr = map (?f (next_backoff opts backoff)) [0..<length (slepts tr)]"
    using again.prems by (intro again.IH) (auto simp: b)
  also have "\<dots> = map (\<lambda>k. ?f backoff (Suc k)) [0..<length (slepts tr)]"
    using again.prems(1,3) by (intro map_cong refl) (simp add: b min_double)
  finally show ?case
    using d by (simp add: upt_conv_Cons map_Suc_upt [symmetric] comp_def del: upt_Suc)
qed (auto simp: retry_delay_def Let_def min_def)

section \<open>What the retry layer promises\<close>

text \<open>The layer over the innermost transport: the three ways a call can go.\<close>

lemma retry_over_base:
  assumes "retryTransport_RoundTrip opts wallClock (base_RoundTrip net) req w = (res, w')"
  obtains
    (off) "\<not> retry_Enabled opts" "new_events w w' = [Sent req res]"
  | (unreadable) e where "retry_Enabled opts" "readBody (req_Body req) = Inl e"
      "new_events w w' = []" "res = (None, Some e)"
  | (run) body where "retry_Enabled opts" "readBody (req_Body req) = Inr body"
      "retry_protocol opts req 0 (InitialBackoff opts) (new_events w w') res"
proof (cases "retry_Enabled opts")
  case False
  with assms show ?thesis
    using base.logs_once [of net req w res w']
    by (intro off new_eventsI) (simp_all add: retryTransport_RoundTrip_def)
next
  case True
  show ?thesis
  proof (cases "readBody (req_Body req)")
    case (Inl e)
    with True assms show ?thesis
      by (intro unreadable new_eventsI) (auto simp: retryTransport_RoundTrip_def)
  next
    case (Inr body)
    obtain tr where "w_log w' = w_log w @ tr"
      "retry_protocol opts req 0 (InitialBackoff opts) tr res"
      using retry.retry_refines_protocol [OF True Inr assms] by blast
    with True Inr show ?thesis
      by (intro run) (auto dest: new_eventsI)
  qed
qed

text \<open>C17. Retrying is bounded.  One call makes at most \<open>1 + MaxRetries\<close> round trips and waits at
  most \<open>MaxRetries\<close> times, never longer than \<open>MaxBackoff\<close> each, whatever the server answers
  and whatever its \<open>Retry-After\<close> headers say.\<close>

theorem retry_bounded:
  "case retryTransport_RoundTrip opts wallClock (base_RoundTrip net) req w of (res, w') \<Rightarrow>
     length (sents (new_events w w')) \<le> 1 + nat (MaxRetries opts)
     \<and> length (slepts (new_events w w')) \<le> nat (MaxRetries opts)
     \<and> list_all (\<lambda>d. d \<le> MaxBackoff opts) (slepts (new_events w w'))"
proof -
  obtain res w' where r: "retryTransport_RoundTrip opts wallClock (base_RoundTrip net) req w = (res, w')"
    by fastforce
  from r show ?thesis
  proof (cases rule: retry_over_base)
    case (run body)
    with r show ?thesis using protocol_attempts protocol_waits by fastforce
  qed (use r in auto)
qed

text \<open>C4. Only safe repeats.  Every attempt that is followed by another one was either answered with
  429 (and no error), or used an idempotent method and met a transport error or a status of at
  least 500.  So a POST or PATCH is sent again only after a 429.\<close>

theorem retry_only_safe:
  "case retryTransport_RoundTrip opts wallClock (base_RoundTrip net) req w of (res, w') \<Rightarrow>
     list_all (\<lambda>(q, resp, e).
         e = None \<and> map_option StatusCode resp = Some 429
       \<or> req_Method req \<in> {''GET'', ''HEAD'', ''OPTIONS'', ''PUT'', ''DELETE''}
         \<and> (case (e, resp) of (Some _, _) \<Rightarrow> True | (None, Some r) \<Rightarrow> StatusCode r \<ge> 500
              | (None, None) \<Rightarrow> False))
       (butlast (sents (new_events w w')))"
proof -
  obtain res w' where r: "retryTransport_RoundTrip opts wallClock (base_RoundTrip net) req w = (res, w')"
    by fastforce
  have safe: "shouldRetry req resp e \<Longrightarrow> e = None \<and> map_option StatusCode resp = Some 429
       \<or> req_Method req \<in> {''GET'', ''HEAD'', ''OPTIONS'', ''PUT'', ''DELETE''}
         \<and> (case (e, resp) of (Some _, _) \<Rightarrow> True | (None, Some r) \<Rightarrow> StatusCode r \<ge> 500
              | (None, None) \<Rightarrow> False)" for resp e
    by (auto simp: shouldRetry_def isIdempotent_def split: if_splits option.splits)
  from r show ?thesis
  proof (cases rule: retry_over_base)
    case (run body)
    from protocol_retried [OF run(3)] have "list_all (\<lambda>(q, resp, e).
         e = None \<and> map_option StatusCode resp = Some 429
       \<or> req_Method req \<in> {''GET'', ''HEAD'', ''OPTIONS'', ''PUT'', ''DELETE''}
         \<and> (case (e, resp) of (Some _, _) \<Rightarrow> True | (None, Some r) \<Rightarrow> StatusCode r \<ge> 500
              | (None, None) \<Rightarrow> False))
       (butlast (sents (new_events w w')))"
      by (rule list.pred_mono_strong) (use safe in blast)
    with r show ?thesis by simp
  qed (use r in auto)
qed

text \<open>C18. Faithful replay.  Reading the body empties it, and every round trip takes some or all of what
  it was given to send off the reader; still every attempt puts the very same request on the wire:
  method, URL, headers, context and the whole body.  Nothing is sent exactly when retrying is on and
  the body cannot be read to its end and closed.\<close>

theorem retry_replays_request:
  "case retryTransport_RoundTrip opts wallClock (base_RoundTrip net) req w of (res, w') \<Rightarrow>
     list_all (\<lambda>(q, r). q = req) (sents (new_events w w'))
     \<and> (sents (new_events w w') = [] \<longleftrightarrow>
         retry_Enabled opts \<and> (\<exists>e. readBody (req_Body req) = Inl e))"
proof -
  obtain res w' where r: "retryTransport_RoundTrip opts wallClock (base_RoundTrip net) req w = (res, w')"
    by fastforce
  from r show ?thesis
  proof (cases rule: retry_over_base)
    case (run body)
    with r show ?thesis using protocol_same_request protocol_attempts by fastforce
  qed (use r in auto)
qed

text \<open>C19. The answer, and no leaked connection.  If a request was sent, the caller gets the outcome
  of the last attempt, or, when the context was cancelled during a wait, its cause.  The responses
  drained and closed are exactly those with a body that were given up for a retry; the response
  handed to the caller is never closed.\<close>

theorem retry_answer:
  "case retryTransport_RoundTrip opts wallClock (base_RoundTrip net) req w of (res, w') \<Rightarrow>
     let ev = new_events w w' in
     sents ev = [] \<or>
     closeds ev = with_body (take (length (slepts ev)) (sents ev)) \<and>
     (res = snd (last (sents ev)) \<and> length (sents ev) = Suc (length (slepts ev))
      \<or> (\<exists>t cause. ctx_done (req_Context req) = Some (t, cause) \<and> res = (None, Some (CtxError cause)))
         \<and> length (sents ev) = length (slepts ev))"
proof -
  obtain res w' where r: "retryTransport_RoundTrip opts wallClock (base_RoundTrip net) req w = (res, w')"
    by fastforce
  from r show ?thesis
  proof (cases rule: retry_over_base)
    case (run body)
    with r show ?thesis using protocol_closes [OF run(3)] protocol_result [OF run(3)]
      by (auto simp: Let_def)
  qed (use r in auto)
qed

text \<open>The backoff schedule in closed form.  As long as no answer carries a usable
  \<open>Retry-After\<close>, the waits are the initial backoff doubled at every retry and capped at
  \<open>MaxBackoff\<close>: with the defaults 1s, 2s, 4s.\<close>

theorem retry_schedule:
  assumes "retry_Enabled opts" "0 \<le> MaxBackoff opts" "MaxBackoff opts \<le> 4611686018427387903"
    and "0 \<le> InitialBackoff opts" "InitialBackoff opts \<le> 4611686018427387903"
    and run: "retryTransport_RoundTrip opts wallClock (base_RoundTrip net) req w = (res, w')"
    and "list_all (\<lambda>(q, resp, e). retryAfter resp = 0) (sents (new_events w w'))"
  shows "slepts (new_events w w')
    = map (\<lambda>k. min (MaxBackoff opts) (InitialBackoff opts * 2 ^ k)) [0..<length (slepts (new_events w w'))]"
  using run
proof (cases rule: retry_over_base)
  case (run body)
  with assms show ?thesis by (intro protocol_schedule) auto
qed simp_all

definition example_url :: url where
  "example_url = \<lparr>Scheme = ''https'', Opaque_part = [], User = None, Host = ''api.github.com'',
     Path = ''/user'', RawPath = [], OmitHost = False, ForceQuery = False, RawQuery = [],
     Fragment = [], RawFragment = []\<rparr>"

definition example_request :: "string \<Rightarrow> request" where
  "example_request meth = \<lparr>req_Method = meth, req_URL = example_url, req_Header = [],
     req_Body = Stream ''hello'' None None, req_Context = Background\<rparr>"

definition example_response :: "int \<Rightarrow> header \<Rightarrow> response" where
  "example_response status hdr = \<lparr>StatusCode = status, resp_Header = hdr, resp_Body = Some ''body'',
     resp_Request = None\<rparr>"

text \<open>Timers and goroutines on time, and bodies read whole.\<close>

definition on_time :: "nat \<Rightarrow> chance" where
  "on_time k = \<lparr>scheduled_after = 0, timer_late = 0, ctx_first = False, body_taken = 4096\<rparr>"

definition example_world :: "nat world" where
  "example_world = \<lparr>w_now = 1000, w_cache = Some NewRateLimitCache, w_lastAttempt = zero_time,
     w_reserved = zero_time, w_log = [], w_chance = on_time, w_net = 0\<rparr>"

text \<open>A server that answers every request with the same status and headers, a millisecond later.\<close>

definition always :: "int \<Rightarrow> header \<Rightarrow> nat network" where
  "always status hdr req t n = (Inr (example_response status hdr), t + 1000000, Suc n)"

definition default_retry :: RetryOptions where
  "default_retry = \<lparr>retry_Enabled = True, MaxRetries = 3, InitialBackoff = second, MaxBackoff = 30 * second\<rparr>"

text \<open>Evaluating a concrete run of the layer.\<close>

lemmas run_evals = retryTransport_RoundTrip_def readBody_def default_retry_def retry_loop.simps
  replay_def replacer_def read_off_def on_time_def base_RoundTrip_def always_def example_request_def example_response_def
  example_world_def shouldRetry_def isIdempotent_def wallClock_def wallClock_sleep_def Let_def
  retry_delay_def next_backoff_def retryAfter_def header_Get_def Background_def wrap64_def
  drainClose_def drainLimitBytes_def log_event_def new_events_def

theorem retry_schedule_witness:
  "slepts (new_events example_world (snd (retryTransport_RoundTrip default_retry wallClock
      (base_RoundTrip (always 503 [])) (example_request ''GET'') example_world)))
   = [second, 2 * second, 4 * second]"
proof -
  let ?run = "retryTransport_RoundTrip default_retry wallClock (base_RoundTrip (always 503 []))
    (example_request ''GET'') example_world"
  let ?ev = "new_events example_world (snd ?run)"
  let ?r = "example_response 503 []"
  let ?q = "example_request ''GET''"
  let ?a = "Sent ?q (Some ?r, None)"
  let ?c = "Closed ?r 4"
  have ev: "?ev = [?a, ?c, Slept second, ?a, ?c, Slept (2 * second), ?a, ?c, Slept (4 * second), ?a]"
    by (simp add: run_evals)
  have "slepts ?ev = map (\<lambda>k. min (MaxBackoff default_retry) (InitialBackoff default_retry * 2 ^ k))
      [0..<length (slepts ?ev)]"
  proof (rule retry_schedule)
    show "?run = (fst ?run, snd ?run)" by simp
    show "list_all (\<lambda>(q, resp, e). retryAfter resp = 0) (sents ?ev)"
      by (simp add: ev retryAfter_def example_response_def header_Get_def)
  qed (simp_all add: default_retry_def)
  then show ?thesis unfolding ev by (simp add: default_retry_def upt_rec)
qed

text \<open>\<open>Retry-After\<close> is honoured up to \<open>MaxBackoff\<close>: a header asking for \<open>n\<close> seconds
  raises the wait to that many seconds, capped.  This holds up to 9223372036 seconds.\<close>

theorem retry_after_honoured:
  assumes "header_Get (resp_Header r) ''Retry-After'' = itoa n" "n \<le> 9223372036"
  shows "retry_delay opts backoff (Some r) = min (MaxBackoff opts) (max backoff (int n * second))"
proof -
  have "wrap64 (int n * second) = int n * second"
    using assms(2) by (intro wrap64_id) (simp add: in_int64_def)
  then have "retryAfter (Some r) = int n * second"
    using assms by (simp add: retryAfter_def Let_def Atoi_itoa)
  then show ?thesis by (simp add: retry_delay_def Let_def min_def max_def)
qed

theorem retry_after_honoured_witness:
  "retry_delay default_retry second (Some (example_response 429 [(''Retry-After'', [''20''])])) = 20 * second"
proof -
  have "header_Get (resp_Header (example_response 429 [(''Retry-After'', [''20''])])) ''Retry-After'' = ''20''"
    by code_simp
  moreover have "itoa 20 = ''20''" by (simp add: itoa_eval)
  ultimately show ?thesis
    using retry_after_honoured [of "example_response 429 [(''Retry-After'', [''20''])]" 20 default_retry second]
    by (simp add: default_retry_def)
qed

text \<open>Beyond that the conversion to nanoseconds overflows: for any request of the server to
  wait between 9223372037 and 18446744073 seconds the product is negative, so the header is ignored
  and the wait is the plain backoff instead of \<open>MaxBackoff\<close>.\<close>

theorem retry_after_overflow:
  assumes "header_Get (resp_Header r) ''Retry-After'' = itoa n" "9223372037 \<le> n" "n \<le> 18446744073"
    and "0 \<le> backoff"
  shows "retry_delay opts backoff (Some r) = min (MaxBackoff opts) backoff"
proof -
  have "wrap64 (int n * second) < 0"
    using assms(2,3) by (subst wrap64_over) simp_all
  then have "retryAfter (Some r) < 0"
    using assms by (simp add: retryAfter_def Let_def Atoi_itoa)
  then show ?thesis using assms(4) by (simp add: retry_delay_def Let_def min_def)
qed

theorem retry_after_overflow_witness:
  "retry_delay default_retry second (Some (example_response 429 [(''Retry-After'', [''9223372037''])])) = second"
proof -
  have "header_Get (resp_Header (example_response 429 [(''Retry-After'', [''9223372037''])])) ''Retry-After''
      = ''9223372037''"
    by code_simp
  moreover have "itoa 9223372037 = ''9223372037''" by (simp add: itoa_eval)
  ultimately show ?thesis
    using retry_after_overflow [of "example_response 429 [(''Retry-After'', [''9223372037''])]" 9223372037
        second default_retry]
    by (simp add: default_retry_def)
qed

end
