(* ===== verification/Gate.thy ===== *)
theory Gate
  imports Retry
begin

text \<open>
  The layers around the rate-limit budget: the header feed and the pre-flight gate of
  \<open>src/transport.go\<close>, and the lazy \<open>GET /rate_limit\<close> prober of \<open>src/probe.go\<close>.  The
  prober's mutex-guarded \<open>lastAttempt\<close> and the shared cache live in the world.
  \<open>url.Parse\<close>, which \<open>http.NewRequestWithContext\<close> applies to the probe's URL, is the
  argument \<open>parse\<close>.
\<close>

section \<open>Header feed\<close>

definition feed_response :: "response option \<Rightarrow> RateLimitCache option \<Rightarrow> RateLimitCache option" where
  "feed_response resp c =
     (case resp of None \<Rightarrow> c
      | Some r \<Rightarrow> (case ParseRateLimitHeaders (header_Get (resp_Header r)) of
            Some s \<Rightarrow> Update s c
          | None \<Rightarrow> c))"

definition feedTransport_RoundTrip :: "'n round_trip \<Rightarrow> 'n round_trip" where
  "feedTransport_RoundTrip nxt req w =
     (case nxt req w of ((resp, e), w) \<Rightarrow>
        ((resp, e), w\<lparr>w_cache := feed_response resp (w_cache w)\<rparr>))"

section \<open>The prober\<close>

record RateLimitOptions =
  rl_Enabled :: bool
  MinRemaining :: int
  MaxWait :: duration

definition probeCooldown :: duration where
  "probeCooldown = 30 * second"

record 'n rateProber =
  prober_next :: "'n round_trip"
  prober_token :: string

definition probe_target :: "url \<Rightarrow> url" where
  "probe_target base =
     base\<lparr>Path := (if Path base = [] then ''rate_limit'' else Path base @ ''rate_limit'')\<rparr>"

text \<open>\<open>http.NewRequestWithContext\<close> for a GET without a body: parse, and drop an empty port.\<close>

definition new_get_request :: "(string \<Rightarrow> err + url) \<Rightarrow> ctx \<Rightarrow> string \<Rightarrow> err + request" where
  "new_get_request parse c target =
     (case parse target of
        Inl e \<Rightarrow> Inl e
      | Inr u \<Rightarrow> Inr \<lparr>req_Method = ''GET'',
          req_URL = u\<lparr>Host := (if has_suffix (Host u) '':'' then butlast (Host u) else Host u)\<rparr>,
          req_Header = [], req_Body = NilBody, req_Context = c\<rparr>)"

definition probe_headers :: "string \<Rightarrow> request \<Rightarrow> request" where
  "probe_headers token req =
     (let h = header_Set ''Accept'' ''application/vnd.github+json'' (req_Header req);
          h = (if token \<noteq> [] then header_Set ''Authorization'' (''Bearer '' @ token) h else h)
      in req\<lparr>req_Header := h\<rparr>)"

text \<open>The error a \<open>nil\<close> response without an error stands for: the code would dereference the
  nil pointer.  The RoundTripper contract rules it out; \<open>probe_never_nil\<close> below shows that the
  branch is never reached.\<close>

definition nil_dereference :: err where
  "nil_dereference = OtherError ''runtime error: invalid memory address or nil pointer dereference''"

definition probe :: "(string \<Rightarrow> err + url) \<Rightarrow> 'n clock \<Rightarrow> 'n rateProber \<Rightarrow> ctx \<Rightarrow> url option
    \<Rightarrow> 'n world \<Rightarrow> (err + RateLimitSnapshot) \<times> 'n world" where
  "probe parse clk p c base w =
     (case base of
        None \<Rightarrow> (Inl (Errorf ''githubkit: no base URL to probe: %w'' [] [ErrAPIUnavailable]), w)
      | Some b \<Rightarrow>
          if \<not> time_IsZero (w_lastAttempt w)
             \<and> time_Sub (clk_now clk w) (w_lastAttempt w) < probeCooldown
          then (case Get (w_cache w) of
                  (s, True) \<Rightarrow> (Inr s, w)
                | (_, False) \<Rightarrow>
                    (Inl (Errorf ''githubkit: rate-limit probe on cooldown (last attempt %s ago): %w''
                       [ArgDuration (duration_Round (time_Sub (clk_now clk w) (w_lastAttempt w)) second)] [ErrAPIUnavailable]), w))
          else
            let w = w\<lparr>w_lastAttempt := clk_now clk w\<rparr> in
            (case new_get_request parse c (url_String (probe_target b)) of
               Inl e \<Rightarrow> (Inl (Errorf ''githubkit: build rate-limit probe: %w'' [] [e]), w)
             | Inr req \<Rightarrow>
                 (case prober_next p (probe_headers (prober_token p) req) w of
                    ((resp, Some e), w) \<Rightarrow> (Inl (Errorf ''githubkit: rate-limit probe: %w'' [] [e]), w)
                  | ((None, None), w) \<Rightarrow> (Inl nil_dereference, w)
                  | ((Some r, None), w) \<Rightarrow>
                      if StatusCode r \<ge> StatusBadRequest
                      then (Inl (Errorf ''githubkit: rate-limit probe: status %d: %w''
                              [ArgInt (StatusCode r)] [ErrAPIUnavailable]), drainClose (Some r) w)
                      else (case Get (w_cache w) of
                              (s, True) \<Rightarrow> (Inr s, drainClose (Some r) w)
                            | (_, False) \<Rightarrow>
                                (Inl (Errorf ''githubkit: rate-limit probe returned no X-RateLimit headers: %w''
                                   [] [ErrAPIUnavailable]), drainClose (Some r) w)))))"

definition isRateLimitProbe :: "request \<Rightarrow> bool" where
  "isRateLimitProbe req \<longleftrightarrow> has_suffix (Path (req_URL req)) ''/rate_limit''"

section \<open>The gate\<close>

definition budget_decision :: "RateLimitOptions \<Rightarrow> 'n clock \<Rightarrow> request \<Rightarrow> RateLimitSnapshot
    \<Rightarrow> 'n world \<Rightarrow> err option \<times> 'n world" where
  "budget_decision opts clk req s w =
     (if Remaining s > MinRemaining opts then (None, w)
      else let wait = time_Sub (ResetAt s) (clk_now clk w) in
        if wait \<le> 0 then (None, w)
        else if wait > MaxWait opts then
          (Some (StatusError ErrRateLimited 0 (req_Method req) (url_String (req_URL req))
                   (ResetTooFarError wait (MaxWait opts) (ResetAt s))), w)
        else clk_sleep clk (req_Context req) wait w)"

definition awaitBudget :: "(string \<Rightarrow> err + url) \<Rightarrow> RateLimitOptions \<Rightarrow> 'n clock \<Rightarrow> 'n rateProber
    \<Rightarrow> url option \<Rightarrow> request \<Rightarrow> 'n world \<Rightarrow> err option \<times> 'n world" where
  "awaitBudget parse opts clk p base req w =
     (case Get (w_cache w) of
        (s, True) \<Rightarrow> budget_decision opts clk req s w
      | (_, False) \<Rightarrow>
          (case probe parse clk p (req_Context req) base w of
             (Inl _, w) \<Rightarrow> (None, w)
           | (Inr probed, w) \<Rightarrow> budget_decision opts clk req probed w))"

definition gateTransport_RoundTrip :: "(string \<Rightarrow> err + url) \<Rightarrow> RateLimitOptions \<Rightarrow> 'n clock
    \<Rightarrow> 'n rateProber \<Rightarrow> url option \<Rightarrow> 'n round_trip \<Rightarrow> 'n round_trip" where
  "gateTransport_RoundTrip parse opts clk p base nxt req w =
     (if \<not> rl_Enabled opts \<or> isRateLimitProbe req then nxt req w
      else case awaitBudget parse opts clk p base req w of
          (Some e, w) \<Rightarrow> ((None, Some e), w)
        | (None, w) \<Rightarrow> nxt req (w\<lparr>w_cache := Decrement 1 (w_cache w)\<rparr>))"

section \<open>The layers keep the RoundTripper contract\<close>

lemma cache_ok_feed [contract_intros]: "cache_ok c \<Longrightarrow> cache_ok (feed_response r c)"
  by (auto simp: feed_response_def split: option.splits intro: contract_intros ParseRateLimitHeaders_ok)

locale feed_stack = round_tripper nxt for nxt :: "'n round_trip"
begin

sublocale fed: round_tripper "feedTransport_RoundTrip nxt"
  by unfold_locales
    (use answers time_flows log_grows keeps_cache in
      \<open>fastforce simp: feedTransport_RoundTrip_def split: prod.splits intro: contract_intros\<close>)+

lemma fed_round_tripper: "round_tripper (feedTransport_RoundTrip nxt)"
  by (rule fed.round_tripper_axioms)

end

text \<open>How a call changes the world as far as the contract goes.\<close>

definition world_step :: "'n world \<Rightarrow> 'n world \<Rightarrow> bool" where
  "world_step w w' \<longleftrightarrow> w_now w \<le> w_now w' \<and> prefix (w_log w) (w_log w')
     \<and> (cache_ok (w_cache w) \<longrightarrow> cache_ok (w_cache w'))"

lemma world_step_refl [simp]: "world_step w w"
  by (simp add: world_step_def)

lemma world_step_trans: "world_step w w1 \<Longrightarrow> world_step w1 w2 \<Longrightarrow> world_step w w2"
  by (auto simp: world_step_def prefix_def)

lemma world_step_drainClose: "world_step w w' \<Longrightarrow> world_step w (drainClose r w')"
  by (auto simp: world_step_def prefix_def)

locale gate_stack = clock_laws clk + round_tripper nxt + pr: round_tripper "prober_next p"
  for clk :: "'n clock" and nxt :: "'n round_trip" and p :: "'n rateProber"
begin

lemma sleep_step: "clk_sleep clk c d w = (e, w') \<Longrightarrow> world_step w w'"
  using sleep_fields [of c d w e w'] by (simp add: world_step_def)

lemma next_step: "nxt req w = (r, w') \<Longrightarrow> world_step w w'"
  using time_flows log_grows keeps_cache by (simp add: world_step_def)

lemma probe_step:
  assumes "probe parse clk p c base w = (r, w')"
  shows "world_step w w'"
proof -
  have la: "world_step w1 w2" if "prober_next p req (w1\<lparr>w_lastAttempt := t\<rparr>) = (x, w2)" for req w1 t x w2
    using pr.time_flows [OF that] pr.log_grows [OF that] pr.keeps_cache [OF that]
    by (simp add: world_step_def)
  have la': "world_step w (w\<lparr>w_lastAttempt := t\<rparr>)" for t by (simp add: world_step_def)
  show ?thesis
    using assms
    by (auto simp: probe_def Let_def la' split: option.splits prod.splits bool.splits sum.splits if_splits
        intro: world_step_drainClose la)
qed

lemma probe_never_nil:
  assumes "probe parse clk p c base w = (r, w')"
  shows "r \<noteq> Inl nil_dereference"
  using assms pr.answers
  by (fastforce simp: probe_def Let_def nil_dereference_def
      split: option.splits prod.splits bool.splits sum.splits if_splits)

lemma budget_decision_step:
  "budget_decision opts clk req s w = (e, w') \<Longrightarrow> world_step w w'"
  by (auto simp: budget_decision_def Let_def split: if_splits intro: sleep_step)

lemma awaitBudget_step:
  assumes "awaitBudget parse opts clk p base req w = (e, w')"
  shows "world_step w w'"
  using assms
  by (auto simp: awaitBudget_def split: prod.splits bool.splits sum.splits
      dest: probe_step budget_decision_step intro: world_step_trans)

lemma gate_step:
  assumes "gateTransport_RoundTrip parse opts clk p base nxt req w = (r, w')"
  shows "world_step w w'" and "fst r \<noteq> None \<or> snd r \<noteq> None"
proof -
  have spend: "world_step w1 w2" if "nxt req (w1\<lparr>w_cache := Decrement 1 (w_cache w1)\<rparr>) = (x, w2)" for w1 x w2
    using next_step [OF that] cache_ok_Decrement [of "w_cache w1" 1]
    by (simp add: world_step_def in_int64_def)
  show "world_step w w'"
    using assms
    by (auto simp: gateTransport_RoundTrip_def split: if_splits prod.splits option.splits
        intro: next_step world_step_trans [OF awaitBudget_step] awaitBudget_step spend)
  show "fst r \<noteq> None \<or> snd r \<noteq> None"
    using assms answers
    by (cases r) (auto simp: gateTransport_RoundTrip_def split: if_splits prod.splits option.splits)
qed

sublocale gated: round_tripper "gateTransport_RoundTrip parse opts clk p base nxt" for parse opts base
  using gate_step by unfold_locales (fastforce simp: world_step_def)+

lemma gated_round_tripper: "round_tripper (gateTransport_RoundTrip parse opts clk p base nxt)"
  by (rule gated.round_tripper_axioms)

end

section \<open>What reaches the cache through a retried transport\<close>

text \<open>A transport that sends once and changes the cache by a function of its answer, under the
  retry layer.\<close>

locale retry_effect = clock_laws clk for clk :: "'n clock" +
  fixes nxt :: "'n round_trip" and eff :: "rt_result \<Rightarrow> RateLimitCache option \<Rightarrow> RateLimitCache option"
  assumes nxt_effect: "nxt req w = (r, w') \<Longrightarrow>
    w_log w' = w_log w @ [Sent req r] \<and> w_cache w' = eff r (w_cache w) \<and> w_lastAttempt w' = w_lastAttempt w"
begin

lemma retry_loop_effect:
  assumes "retry_loop opts clk nxt body attempt backoff req w = (res, w')"
  shows "\<exists>tr. w_log w' = w_log w @ tr \<and> w_cache w' = fold (\<lambda>(q, r). eff r) (sents tr) (w_cache w)
    \<and> w_lastAttempt w' = w_lastAttempt w"
  using assms
proof (induction rule: retry_loop_rounds)
  case (final attempt backoff req w resp e w')
  then show ?case using nxt_effect [OF final(1)] by auto
next
  case (interrupted attempt backoff req w resp e w1 x w')
  show ?case
    using nxt_effect [OF interrupted(1)] sleep_fields(1,2,4) [OF interrupted(4)] by auto
next
  case (again attempt backoff req w resp e w1 w2 res w')
  from again(5) obtain tr where tr: "w_log w' = w_log w2 @ tr"
    "w_cache w' = fold (\<lambda>(q, r). eff r) (sents tr) (w_cache w2)" "w_lastAttempt w' = w_lastAttempt w2"
    by auto
  show ?case
    using nxt_effect [OF again(1)] sleep_fields(1,2,4) [OF again(4)] tr by auto
qed

lemma retry_effect:
  assumes "retryTransport_RoundTrip opts clk nxt req w = (res, w')"
  shows "w_cache w' = fold (\<lambda>(q, r). eff r) (sents (new_events w w')) (w_cache w)"
    and "w_lastAttempt w' = w_lastAttempt w"
proof -
  have "\<exists>tr. w_log w' = w_log w @ tr \<and> w_cache w' = fold (\<lambda>(q, r). eff r) (sents tr) (w_cache w)
    \<and> w_lastAttempt w' = w_lastAttempt w"
  proof (cases "retry_Enabled opts")
    case True
    then show ?thesis
      using assms retry_loop_effect by (auto simp: retryTransport_RoundTrip_def split: sum.splits)
  next
    case False
    then show ?thesis
      using assms nxt_effect [of req w res w'] by (auto simp: retryTransport_RoundTrip_def)
  qed
  then show "w_cache w' = fold (\<lambda>(q, r). eff r) (sents (new_events w w')) (w_cache w)"
    "w_lastAttempt w' = w_lastAttempt w"
    using new_eventsI by auto
qed

end

interpretation main_effect: retry_effect wallClock "base_RoundTrip net" "\<lambda>r c. c" for net :: "'n network"
  by unfold_locales (use base.logs_once base.leaf_frame in blast)

interpretation probe_effect: retry_effect wallClock "feedTransport_RoundTrip (base_RoundTrip net)"
  "\<lambda>(resp, e). feed_response resp" for net :: "'n network"
  by unfold_locales
    (auto simp: feedTransport_RoundTrip_def base.logs_once base.leaf_frame split: prod.splits)

text \<open>The kernel's two stacks without the optional layers, and their contracts.\<close>

interpretation plain_fed: feed_stack "retryTransport_RoundTrip opts wallClock (base_RoundTrip net)"
  for opts and net :: "'n network"
  by unfold_locales

interpretation probe_fed: feed_stack "base_RoundTrip net" for net :: "'n network"
  by unfold_locales

interpretation probe_retried: retry_stack wallClock "feedTransport_RoundTrip (base_RoundTrip net)"
  for net :: "'n network"
  by unfold_locales

definition plain_prober :: "RetryOptions \<Rightarrow> 'n network \<Rightarrow> string \<Rightarrow> 'n rateProber" where
  "plain_prober opts net token =
     \<lparr>prober_next = retryTransport_RoundTrip opts wallClock (feedTransport_RoundTrip (base_RoundTrip net)),
      prober_token = token\<rparr>"

interpretation plain_gate: gate_stack wallClock
  "feedTransport_RoundTrip (retryTransport_RoundTrip opts wallClock (base_RoundTrip net))"
  "plain_prober opts net token" for opts and net :: "'n network" and token
  by (intro gate_stack.intro wall.clock_laws_axioms plain_fed.fed_round_tripper)
    (simp add: plain_prober_def probe_retried.retried_round_tripper)

lemma fold_no_effect: "fold (\<lambda>(q, r) c. c) xs c = c"
  by (induction xs) auto

section \<open>What the gate promises\<close>

text \<open>Failed attempts do not teach the gate.  In the kernel's order the feed sits outside the
  retry layer: after a call the cache is the old one updated by the headers of the final answer
  only.  The headers of retried answers, a 429's exhausted budget included, never reach it.\<close>

theorem feed_outside_retry_sees_final_answer_only:
  "case feedTransport_RoundTrip (retryTransport_RoundTrip opts wallClock (base_RoundTrip net)) req w of
     ((resp, e), w') \<Rightarrow> w_cache w' = feed_response resp (w_cache w)"
proof -
  obtain resp e w1 where r: "retryTransport_RoundTrip opts wallClock (base_RoundTrip net) req w = ((resp, e), w1)"
    by (metis prod.exhaust)
  from main_effect.retry_effect(1) [OF r] have "w_cache w1 = w_cache w" by (simp add: fold_no_effect)
  with r show ?thesis by (simp add: feedTransport_RoundTrip_def)
qed

text \<open>Every attempt of a probe teaches the cache.  In the prober's stack the feed sits inside the
  retry layer, so the cache goes through the answers of all attempts in order.\<close>

theorem feed_inside_retry_sees_every_attempt:
  "case retryTransport_RoundTrip opts wallClock (feedTransport_RoundTrip (base_RoundTrip net)) req w of
     (res, w') \<Rightarrow> w_cache w'
       = fold (\<lambda>(q, resp, e). feed_response resp) (sents (new_events w w')) (w_cache w)"
proof -
  obtain res w' where r: "retryTransport_RoundTrip opts wallClock
      (feedTransport_RoundTrip (base_RoundTrip net)) req w = (res, w')" by fastforce
  from probe_effect.retry_effect(1) [OF r] r show ?thesis by simp
qed

text \<open>A wait on the wall clock lasts at least to the end, or the context cuts it short.\<close>

lemma wall_wait_cases:
  assumes "clk_sleep wallClock ctx d w = (eo, w')" "0 < d"
  obtains (slept) "eo = None" "w_now w + d \<le> w_now w'" "punctual w \<longrightarrow> w_now w' = w_now w + d"
  | (cut) t cause where "ctx_done ctx = Some (t, cause)" "eo = Some (CtxError cause)"
proof (cases eo)
  case None
  with assms have "w_now w + d \<le> w_now w'" "punctual w \<longrightarrow> w_now w' = w_now w + d"
    using wall.sleep_full wall_sleep_punctual [of ctx d w w'] by fastforce+
  with None show ?thesis by (rule slept)
next
  case (Some e)
  with wall.sleep_interrupted [of ctx] assms(1) cut show ?thesis by blast
qed

text \<open>The gate's decision on a budget, over the wall clock.\<close>

lemma budget_decision_cases:
  assumes "budget_decision opts wallClock req s w = (eo, w')" "in_int64 (MaxWait opts)" "MaxWait opts < max_int64"
  obtains
    (pass) "eo = None" "w' = w" "MinRemaining opts < Remaining s \<or> ResetAt s \<le> w_now w"
  | (reject) wait where "Remaining s \<le> MinRemaining opts" "w_now w < ResetAt s"
      "MaxWait opts < ResetAt s - w_now w" "w' = w"
      "eo = Some (StatusError ErrRateLimited 0 (req_Method req) (url_String (req_URL req))
         (ResetTooFarError wait (MaxWait opts) (ResetAt s)))"
  | (waited) "Remaining s \<le> MinRemaining opts" "w_now w < ResetAt s" "ResetAt s - w_now w \<le> MaxWait opts"
      "eo = None" "ResetAt s \<le> w_now w'" "punctual w \<longrightarrow> w_now w' = ResetAt s"
      "w_log w' = w_log w @ [Slept (ResetAt s - w_now w)]"
      "w_cache w' = w_cache w"
  | (cancelled) t cause where "Remaining s \<le> MinRemaining opts" "w_now w < ResetAt s"
      "ResetAt s - w_now w \<le> MaxWait opts" "ctx_done (req_Context req) = Some (t, cause)"
      "eo = Some (CtxError cause)" "w_log w' = w_log w @ [Slept (ResetAt s - w_now w)]"
      "w_cache w' = w_cache w"
proof -
  let ?wait = "time_Sub (ResetAt s) (w_now w)"
  have now: "clk_now wallClock w = w_now w" by (rule wall.now_reads)
  note eq = assms(1) [unfolded budget_decision_def Let_def now]
  consider (a) "MinRemaining opts < Remaining s \<or> ResetAt s \<le> w_now w"
    | (b) "Remaining s \<le> MinRemaining opts" "w_now w < ResetAt s" "MaxWait opts < ?wait"
    | (c) "Remaining s \<le> MinRemaining opts" "w_now w < ResetAt s" "?wait \<le> MaxWait opts"
    by linarith
  then show ?thesis
  proof cases
    case a
    with eq show ?thesis by (intro pass) (auto split: if_splits)
  next
    case b
    then have "MaxWait opts < ResetAt s - w_now w"
      using clamp64_less_iff [OF assms(2,3)] by (simp add: time_Sub_def not_le [symmetric])
    with eq b show ?thesis by (intro reject [of ?wait]) auto
  next
    case c
    then have le: "ResetAt s - w_now w \<le> MaxWait opts"
      using clamp64_less_iff [OF assms(2,3)] by (simp add: time_Sub_def)
    then have w: "?wait = ResetAt s - w_now w"
      using c(2) assms(2) by (intro time_Sub_exact) (simp add: in_int64_def)
    have sl: "clk_sleep wallClock (req_Context req) (ResetAt s - w_now w) w = (eo, w')"
      using eq c w by simp
    note fields = wall.sleep_fields [OF sl]
    from c(2) have "0 < ResetAt s - w_now w" by simp
    with sl show ?thesis
      by (cases rule: wall_wait_cases) (use c le fields in \<open>auto intro: waited cancelled\<close>)
  qed
qed

text \<open>C15. The gate on a known budget.  An enabled gate does one of four things with a request that
  is not a probe.  It forwards at once when the budget is above the floor or the window has been
  reset.  It rejects with \<open>ErrRateLimited\<close>, touching nothing, exactly when the budget is at the
  floor and the reset further away than \<open>MaxWait\<close>.  Otherwise it waits until the reset, to the very
  moment if timer and goroutine are on time and never less, and then forwards, or gives the
  cancellation's cause.  Every forwarded request has been spent from the cache first.\<close>

theorem gate_on_known_budget:
  assumes "rl_Enabled opts" "\<not> isRateLimitProbe req" "in_int64 (MaxWait opts)" "MaxWait opts < max_int64"
    and known: "Get (w_cache w) = (s, True)"
    and run: "gateTransport_RoundTrip parse opts wallClock p base nxt req w = (r, w')"
  shows "(MinRemaining opts < Remaining s \<or> ResetAt s \<le> w_now w)
        \<and> (r, w') = nxt req (w\<lparr>w_cache := Decrement 1 (w_cache w)\<rparr>)
    \<or> Remaining s \<le> MinRemaining opts \<and> w_now w < ResetAt s \<and> MaxWait opts < ResetAt s - w_now w
        \<and> (\<exists>cause. r = (None, Some (StatusError ErrRateLimited 0 (req_Method req) (url_String (req_URL req)) cause)))
        \<and> w' = w
    \<or> Remaining s \<le> MinRemaining opts \<and> w_now w < ResetAt s \<and> ResetAt s - w_now w \<le> MaxWait opts
        \<and> (\<exists>w1. (r, w') = nxt req w1 \<and> ResetAt s \<le> w_now w1 \<and> (punctual w \<longrightarrow> w_now w1 = ResetAt s)
             \<and> w_cache w1 = Decrement 1 (w_cache w)
             \<and> new_events w w1 = [Slept (ResetAt s - w_now w)])
    \<or> Remaining s \<le> MinRemaining opts \<and> w_now w < ResetAt s \<and> ResetAt s - w_now w \<le> MaxWait opts
        \<and> (\<exists>t cause. ctx_done (req_Context req) = Some (t, cause) \<and> r = (None, Some (CtxError cause)))
        \<and> new_events w w' = [Slept (ResetAt s - w_now w)]"
proof -
  obtain eo w1 where d: "budget_decision opts wallClock req s w = (eo, w1)" by fastforce
  have eq: "(r, w') = (case eo of Some e \<Rightarrow> ((None, Some e), w1)
      | None \<Rightarrow> nxt req (w1\<lparr>w_cache := Decrement 1 (w_cache w1)\<rparr>))"
    using run assms(1,2) known d by (simp add: gateTransport_RoundTrip_def awaitBudget_def split: option.splits)
  from d assms(3,4) show ?thesis
  proof (cases rule: budget_decision_cases)
    case pass
    with eq show ?thesis by simp
  next
    case (reject wait)
    with eq show ?thesis by auto
  next
    case waited
    then have "(r, w') = nxt req (w1\<lparr>w_cache := Decrement 1 (w_cache w1)\<rparr>)" using eq by simp
    moreover have "new_events w (w1\<lparr>w_cache := c\<rparr>) = [Slept (ResetAt s - w_now w)]" for c
      using waited by (intro new_eventsI) simp
    ultimately show ?thesis using waited by fastforce
  next
    case (cancelled t cause)
    then have "new_events w w' = [Slept (ResetAt s - w_now w)]" "r = (None, Some (CtxError cause))"
      using eq by (auto intro: new_eventsI)
    with cancelled show ?thesis by blast
  qed
qed

definition example_rate_options :: RateLimitOptions where
  "example_rate_options = \<lparr>rl_Enabled = True, MinRemaining = 10, MaxWait = 15 * minute\<rparr>"

definition exhausted_world :: "nat world" where
  "exhausted_world = example_world\<lparr>w_cache := Some \<lparr>snapshot =
     \<lparr>Limit = 5000, Remaining = 5, ResetAt = 3600 * second\<rparr>, known = True\<rparr>\<rparr>"

text \<open>With five requests left and the reset an hour away, the default gate rejects and leaves the
  world as it is.\<close>

theorem gate_on_known_budget_witness:
  "snd (gateTransport_RoundTrip (\<lambda>s. Inl (OtherError s)) example_rate_options wallClock
      (plain_prober default_retry (always 200 []) []) None (base_RoundTrip (always 200 []))
      (example_request ''GET'') exhausted_world) = exhausted_world"
proof -
  let ?run = "gateTransport_RoundTrip (\<lambda>s. Inl (OtherError s)) example_rate_options wallClock
      (plain_prober default_retry (always 200 []) []) None (base_RoundTrip (always 200 []))
      (example_request ''GET'') exhausted_world"
  have notprobe: "\<not> isRateLimitProbe (example_request ''GET'')"
    by code_simp
  have "?run = (fst ?run, snd ?run)" by simp
  note th = gate_on_known_budget [OF _ notprobe _ _ _ this, of "\<lparr>Limit = 5000, Remaining = 5, ResetAt = 3600 * second\<rparr>"]
  show ?thesis
    using th by (simp add: example_rate_options_def exhausted_world_def example_world_def Get_def in_int64_def)
qed

text \<open>C14. The gate never blocks blindly.  If an enabled gate answers a request itself instead of
  forwarding it, then it knew a budget, from the cache or from a probe that succeeded, and that
  budget was at the floor with its reset still ahead.  An unknown budget and a failed probe let the
  request through.\<close>

theorem gate_blocks_only_on_budget:
  assumes "in_int64 (MaxWait opts)" "MaxWait opts < max_int64"
    and run: "gateTransport_RoundTrip parse opts wallClock p base nxt req w = (r, w')"
    and blocked: "\<not> (\<exists>w1. (r, w') = nxt req w1)"
  shows "\<exists>s w1. (Get (w_cache w) = (s, True) \<and> w1 = w
      \<or> (\<exists>s0. Get (w_cache w) = (s0, False)
            \<and> probe parse wallClock p (req_Context req) base w = (Inr s, w1)))
    \<and> Remaining s \<le> MinRemaining opts \<and> w_now w1 < ResetAt s
    \<and> fst r = None \<and> (\<exists>e. snd r = Some e)"
proof -
  have on: "rl_Enabled opts" "\<not> isRateLimitProbe req"
    using run blocked unfolding gateTransport_RoundTrip_def by metis+
  obtain eo w2 where aw: "awaitBudget parse opts wallClock p base req w = (eo, w2)" by fastforce
  with run on blocked obtain e where e: "eo = Some e" "r = (None, Some e)"
    by (cases eo) (auto simp: gateTransport_RoundTrip_def dest: sym)
  have held: "Remaining s \<le> MinRemaining opts \<and> w_now w1 < ResetAt s"
    if "budget_decision opts wallClock req s w1 = (Some e, w2)" for s w1
    using that assms(1,2) by (cases rule: budget_decision_cases) auto
  obtain s k where g: "Get (w_cache w) = (s, k)" by fastforce
  show ?thesis
  proof (cases k)
    case True
    with g aw e have "budget_decision opts wallClock req s w = (Some e, w2)" by (simp add: awaitBudget_def)
    with held [OF this] g True e show ?thesis by auto
  next
    case False
    obtain pr w1 where pr: "probe parse wallClock p (req_Context req) base w = (pr, w1)" by fastforce
    with g aw e False obtain s1 where s1: "pr = Inr s1" "budget_decision opts wallClock req s1 w1 = (Some e, w2)"
      by (cases pr) (auto simp: awaitBudget_def)
    with held [OF s1(2)] g False pr e show ?thesis by auto
  qed
qed

theorem gate_blocks_only_on_budget_witness:
  "\<exists>s. Get (w_cache exhausted_world) = (s, True) \<and> Remaining s \<le> 10 \<and> w_now exhausted_world < ResetAt s"
proof -
  let ?nxt = "\<lambda>req w. ((Some (example_response 200 []), None), w) :: rt_result \<times> nat world"
  let ?p = "plain_prober default_retry (always 200 []) [] :: nat rateProber"
  let ?run = "gateTransport_RoundTrip (\<lambda>s. Inl (OtherError s)) example_rate_options wallClock ?p None ?nxt
      (example_request ''GET'') exhausted_world"
  have notprobe: "\<not> isRateLimitProbe (example_request ''GET'')" by code_simp
  have fst: "fst (fst ?run) = None"
    using notprobe
    by (simp add: gateTransport_RoundTrip_def awaitBudget_def budget_decision_def Get_def time_Sub_def
        clamp64_def exhausted_world_def example_world_def example_rate_options_def wall.now_reads)
  have eq: "?run = (fst ?run, snd ?run)" by simp
  have nb: "\<not> (\<exists>w1. (fst ?run, snd ?run) = ?nxt (example_request ''GET'') w1)"
    using fst by (metis fst_conv option.distinct(1) prod.inject)
  note th = gate_blocks_only_on_budget [OF _ _ eq nb]
  show ?thesis
    using th by (auto simp: Get_def exhausted_world_def example_rate_options_def in_int64_def)
qed

lemma probe_spacing_run:
  assumes run: "probe parse wallClock (plain_prober opts net token) c base w = (r, w')"
  shows "w' = w \<and> (base = None \<or> w_lastAttempt w \<noteq> zero_time \<and> w_now w - w_lastAttempt w < probeCooldown)
    \<or> w_lastAttempt w' = w_now w
      \<and> (w_lastAttempt w = zero_time \<or> probeCooldown \<le> w_now w - w_lastAttempt w)"
proof (cases base)
  case None
  with run show ?thesis by (simp add: probe_def)
next
  case (Some b)
  have now: "clk_now wallClock w = w_now w" by (rule wall.now_reads)
  have cool: "time_Sub (w_now w) (w_lastAttempt w) < probeCooldown \<longleftrightarrow> w_now w - w_lastAttempt w < probeCooldown"
    by (auto simp: time_Sub_def clamp64_def probeCooldown_def)
  show ?thesis
  proof (cases "\<not> time_IsZero (w_lastAttempt w) \<and> time_Sub (w_now w) (w_lastAttempt w) < probeCooldown")
    case True
    with run Some cool show ?thesis
      by (auto simp: probe_def now time_IsZero_def split: prod.splits bool.splits)
  next
    case False
    have kept: "w_lastAttempt w2 = w_now w"
      if "prober_next (plain_prober opts net token) req (w\<lparr>w_lastAttempt := w_now w\<rparr>) = (x, w2)" for req x w2
      using probe_effect.retry_effect(2) that by (fastforce simp: plain_prober_def)
    have "w_lastAttempt w' = w_now w"
      using run Some False
      by (auto simp: probe_def now Let_def kept split: sum.splits prod.splits option.splits bool.splits if_splits)
    with False cool show ?thesis by (auto simp: time_IsZero_def)
  qed
qed

text \<open>Probes keep their distance.  With the kernel's prober, a call either leaves the whole
  world alone and was within the cooldown of the last attempt or had no base URL, or it records
  itself as the new last attempt, being the first one or at least thirty seconds after the last.\<close>

theorem probe_spacing:
  "case probe parse wallClock (plain_prober opts net token) c base w of (r, w') \<Rightarrow>
     w' = w \<and> (base = None \<or> w_lastAttempt w \<noteq> zero_time \<and> w_now w - w_lastAttempt w < probeCooldown)
     \<or> w_lastAttempt w' = w_now w
       \<and> (w_lastAttempt w = zero_time \<or> probeCooldown \<le> w_now w - w_lastAttempt w)"
  using probe_spacing_run by fastforce

text \<open>The probe never dereferences a missing response.  The kernel's prober reads the status of
  the response without checking it for nil; its transport always answers with a response or an
  error, so the dereference never fails.\<close>

theorem probe_response_present:
  "fst (probe parse wallClock (plain_prober opts net token) c base w) \<noteq> Inl nil_dereference"
  using plain_gate.probe_never_nil by (metis prod.collapse)

end
