(* ===== verification/Pacing.thy ===== *)
theory Pacing
  imports Gate
begin

text \<open>
  The pacing layer of \<open>src/secondary.go\<close>.  The slot is reserved inside the mutex and waited
  out outside it, so with concurrent requests the reservations are a sequence of atomic steps, one
  per request, in the order the mutex grants them; \<open>reserve_slots\<close> runs such a sequence over
  the clock readings the requests make.
\<close>

section \<open>The layer\<close>

text \<open>The critical section: read the clock, grant the later of now and the reserved slot, and
  reserve the one after it.\<close>

definition reserve_slot :: "duration \<Rightarrow> time \<Rightarrow> time \<Rightarrow> time \<times> time" where
  "reserve_slot interval now reserved =
     (let start = (if time_Before reserved now then now else reserved)
      in (start, time_Add start interval))"

definition pacingTransport_RoundTrip :: "duration \<Rightarrow> 'n clock \<Rightarrow> 'n round_trip \<Rightarrow> 'n round_trip" where
  "pacingTransport_RoundTrip interval clk nxt req w =
     (if interval \<le> 0 then nxt req w
      else
        let now = clk_now clk w;
            (start, reserved) = reserve_slot interval now (w_reserved w);
            w = w\<lparr>w_reserved := reserved\<rparr>;
            wait = time_Sub start now
        in case (if wait > 0 then clk_sleep clk (req_Context req) wait w else (None, w)) of
             (Some e, w) \<Rightarrow> ((None, Some (Errorf ''pacing: wait for slot: %w'' [] [e])), w)
           | (None, w) \<Rightarrow>
               (case nxt req w of
                  ((resp, Some e), w) \<Rightarrow> ((None, Some (Errorf ''pacing: round trip: %w'' [] [e])), w)
                | ((resp, None), w) \<Rightarrow> ((resp, None), w)))"

locale pacing_stack = clock_laws clk + round_tripper nxt
  for clk :: "'n clock" and nxt :: "'n round_trip"
begin

lemma pacing_contract:
  assumes "pacingTransport_RoundTrip interval clk nxt req w = (r, w')"
  shows "world_step w w'" "fst r \<noteq> None \<or> snd r \<noteq> None"
proof -
  have nx: "world_step w1 w2" if "nxt q w1 = (x, w2)" for q w1 x w2
    using time_flows [OF that] log_grows [OF that] keeps_cache [OF that] by (simp add: world_step_def)
  have sl: "world_step w1 w2" if "clk_sleep clk c d (w1\<lparr>w_reserved := t\<rparr>) = (x, w2)" for c d w1 t x w2
    using sleep_fields [OF that] by (simp add: world_step_def)
  have rs: "world_step w1 w2" if "nxt q (w1\<lparr>w_reserved := t\<rparr>) = (x, w2)" for q w1 t x w2
    using time_flows [OF that] log_grows [OF that] keeps_cache [OF that] by (simp add: world_step_def)
  have st: "world_step w (w\<lparr>w_reserved := t\<rparr>)" for t by (simp add: world_step_def)
  show "world_step w w'"
    using assms
    by (auto simp: pacingTransport_RoundTrip_def Let_def
        split: if_splits prod.splits option.splits
        intro: nx rs sl st world_step_trans [OF sl nx])
  show "fst r \<noteq> None \<or> snd r \<noteq> None"
    using assms
    by (cases r) (auto simp: pacingTransport_RoundTrip_def Let_def
        split: if_splits prod.splits option.splits dest!: answers)
qed

sublocale paced: round_tripper "pacingTransport_RoundTrip interval clk nxt" for interval
  using pacing_contract by unfold_locales (fastforce simp: world_step_def)+

lemma paced_round_tripper: "round_tripper (pacingTransport_RoundTrip interval clk nxt)"
  by (rule paced.round_tripper_axioms)

end

interpretation pacing: pacing_stack wallClock "base_RoundTrip net" for net :: "'n network"
  by unfold_locales

section \<open>Reservations\<close>

fun reserve_slots :: "duration \<Rightarrow> time list \<Rightarrow> time \<Rightarrow> time list \<times> time" where
  "reserve_slots interval [] reserved = ([], reserved)"
| "reserve_slots interval (now # nows) reserved =
     (case reserve_slot interval now reserved of (start, reserved) \<Rightarrow>
        (case reserve_slots interval nows reserved of (starts, reserved) \<Rightarrow> (start # starts, reserved)))"

definition spaced :: "duration \<Rightarrow> time list \<Rightarrow> bool" where
  "spaced interval ts \<longleftrightarrow> sorted_wrt (\<lambda>s t. s + interval \<le> t) ts"

lemma reserve_slot_bounds:
  assumes "reserve_slot interval now reserved = (start, reserved')" "0 \<le> interval"
  shows "now \<le> start" "reserved \<le> start" "reserved' = start + interval"
    "start = max now reserved"
  using assms by (auto simp: reserve_slot_def Let_def time_Before_def time_Add_def max_def split: if_splits)

lemma reserve_slots_after:
  assumes "reserve_slots interval nows reserved = (starts, r)" "0 \<le> interval"
  shows "list_all (\<lambda>t. reserved \<le> t) starts" "reserved \<le> r"
  using assms
proof (induction interval nows reserved arbitrary: starts r rule: reserve_slots.induct)
  case (2 interval now nows reserved)
  obtain start res where s: "reserve_slot interval now reserved = (start, res)" by fastforce
  obtain starts' r' where ss: "reserve_slots interval nows res = (starts', r')" by fastforce
  note b = reserve_slot_bounds [OF s]
  {
    case 1
    have "list_all (\<lambda>t. res \<le> t) starts'" using 2(1) [OF s [symmetric] ss] 1 by simp
    then have "list_all (\<lambda>t. reserved \<le> t) starts'"
      by (rule list.pred_mono_strong) (use b 1 in linarith)
    with 1 s ss b show ?case by auto
  next
    case 2
    have "res \<le> r'" using "2.IH"(2) [OF s [symmetric] ss] 2 by simp
    with 2 s ss b show ?case by auto
  }
qed auto

lemma reserve_slots_spaced:
  assumes "reserve_slots interval nows reserved = (starts, r)" "0 \<le> interval"
  shows "spaced interval starts \<and> list_all2 (\<le>) nows starts"
  using assms
proof (induction interval nows reserved arbitrary: starts r rule: reserve_slots.induct)
  case (2 interval now nows reserved)
  obtain start res where s: "reserve_slot interval now reserved = (start, res)" by fastforce
  obtain starts' r' where ss: "reserve_slots interval nows res = (starts', r')" by fastforce
  note b = reserve_slot_bounds [OF s "2.prems"(2)]
  have "spaced interval starts' \<and> list_all2 (\<le>) nows starts'"
    using "2.IH" [OF s [symmetric] ss] "2.prems"(2) by simp
  moreover have "list_all (\<lambda>t. start + interval \<le> t) starts'"
    using reserve_slots_after(1) [OF ss "2.prems"(2)] b(3) by simp
  ultimately show ?case
    using "2.prems"(1) s ss b(1) by (auto simp: spaced_def list_all_iff)
qed (simp add: spaced_def)

text \<open>Slots are also as early as possible: the reservation never runs ahead of the latest clock
  reading by more than one interval per request granted since.\<close>

lemma reserve_slots_prompt:
  assumes "reserve_slots interval nows reserved = (starts, r)" "0 \<le> interval"
    and "list_all (\<lambda>now. now \<le> late) nows" "reserved \<le> late"
  shows "\<forall>k < length starts. starts ! k \<le> late + int k * interval"
  using assms
proof (induction interval nows reserved arbitrary: starts r late rule: reserve_slots.induct)
  case (2 interval now nows reserved)
  obtain start res where s: "reserve_slot interval now reserved = (start, res)" by fastforce
  obtain starts' r' where ss: "reserve_slots interval nows res = (starts', r')" by fastforce
  note b = reserve_slot_bounds [OF s "2.prems"(2)]
  have le: "start \<le> late" using b(4) "2.prems"(3,4) by simp
  have "list_all (\<lambda>now. now \<le> late + interval) nows"
    using "2.prems"(2,3) by (auto simp: list_all_iff)
  then have "\<forall>k < length starts'. starts' ! k \<le> (late + interval) + int k * interval"
    using "2.prems"(2) b(3) le by (intro "2.IH" [OF s [symmetric] ss]) simp_all
  then show ?case
    using "2.prems"(1) s ss le by (auto simp: nth_Cons algebra_simps split: nat.splits)
qed simp

text \<open>Requests start at least an interval apart.  However many requests reserve slots at
  whatever clock readings, concurrent ones included, consecutive granted starts, and so any two,
  are at least the interval apart in the order of the reservations, and no start lies before the
  clock reading it was reserved at.\<close>

theorem pacing_starts_spaced:
  assumes "0 < interval"
  shows "case reserve_slots interval nows reserved of (starts, reserved') \<Rightarrow>
    sorted_wrt (\<lambda>s t. s + interval \<le> t) starts \<and> list_all2 (\<le>) nows starts"
  using reserve_slots_spaced [of interval nows reserved] assms by (auto simp: spaced_def)

theorem pacing_starts_spaced_witness:
  "case reserve_slots second [7, 5, 3000000000, 3000000001] 0 of (starts, reserved') \<Rightarrow>
     starts = [7, 1000000007, 3000000000, 4000000000] \<and> sorted_wrt (\<lambda>s t. s + second \<le> t) starts"
  using pacing_starts_spaced [of second "[7, 5, 3000000000, 3000000001]" 0]
  by (simp add: reserve_slot_def time_Before_def time_Add_def)

text \<open>A paced request leaves at its slot.  With pacing on, a call over the wall clock reserves
  the later of now and the slot reserved before, and either the round trip is made at this slot or
  later, exactly at it if the wait is on time, or the wait was cut short by the context and the error wraps its cause;
  the slot stays spent in both cases.\<close>

theorem pacing_waits_for_slot:
  assumes "0 < interval" "in_int64 (w_reserved w - w_now w)"
    and "pacingTransport_RoundTrip interval wallClock nxt req w = (r, w')"
    and frame: "\<And>q w r w'. nxt q w = (r, w') \<Longrightarrow> w_reserved w' = w_reserved w"
  shows "w_reserved w' = max (w_now w) (w_reserved w) + interval
    \<and> ((\<exists>w1 res w2. nxt req w1 = (res, w2) \<and> w' = w2 \<and> max (w_now w) (w_reserved w) \<le> w_now w1
           \<and> (punctual w \<longrightarrow> w_now w1 = max (w_now w) (w_reserved w))
           \<and> (case res of (resp, None) \<Rightarrow> r = (resp, None)
                | (resp, Some e) \<Rightarrow> r = (None, Some (Errorf ''pacing: round trip: %w'' [] [e]))))
       \<or> (\<exists>t cause. ctx_done (req_Context req) = Some (t, cause)
           \<and> r = (None, Some (Errorf ''pacing: wait for slot: %w'' [] [CtxError cause]))))"
proof -
  obtain start where start: "start = max (w_now w) (w_reserved w)" by simp
  have now: "clk_now wallClock w = w_now w" by (rule wall.now_reads)
  have slot: "reserve_slot interval (w_now w) (w_reserved w) = (start, start + interval)"
    by (simp add: start reserve_slot_def time_Before_def time_Add_def Let_def max_def)
  have wait: "time_Sub start (w_now w) = start - w_now w"
    using assms(2) by (intro time_Sub_exact) (auto simp: start max_def in_int64_def)
  obtain eo w1 where sl: "(if start - w_now w > 0
      then clk_sleep wallClock (req_Context req) (start - w_now w) (w\<lparr>w_reserved := start + interval\<rparr>)
      else (None, w\<lparr>w_reserved := start + interval\<rparr>)) = (eo, w1)"
    by fastforce
  have fr: "w_reserved w1 = start + interval"
    using sl wall.sleep_fields(3) by (fastforce split: if_splits)
  note eq = assms(3) [unfolded pacingTransport_RoundTrip_def Let_def now slot prod.case wait sl]
  show ?thesis
  proof (cases eo)
    case None
    have t1: "start \<le> w_now w1" "punctual w \<longrightarrow> w_now w1 = start"
      using sl None wall.sleep_full wall_sleep_punctual by (fastforce simp: start punctual_def split: if_splits)+
    obtain resp e w2 where n: "nxt req w1 = ((resp, e), w2)" by (metis prod.exhaust)
    with eq assms(1) None have "w' = w2" "r = (case e of None \<Rightarrow> (resp, None)
        | Some x \<Rightarrow> (None, Some (Errorf ''pacing: round trip: %w'' [] [x])))"
      by (auto split: option.splits)
    with n t1 fr frame [OF n] start show ?thesis by (auto split: option.splits)
  next
    case (Some e)
    then have sl': "clk_sleep wallClock (req_Context req) (start - w_now w)
        (w\<lparr>w_reserved := start + interval\<rparr>) = (Some e, w1)"
      using sl by (auto split: if_splits)
    from wall.sleep_interrupted [OF sl'] obtain t cause where
      "ctx_done (req_Context req) = Some (t, cause)" "e = CtxError cause" by blast
    with eq assms(1) Some fr start show ?thesis by auto
  qed
qed

theorem pacing_waits_for_slot_witness:
  "w_reserved (snd (pacingTransport_RoundTrip second wallClock (base_RoundTrip (always 200 []))
     (example_request ''GET'') (example_world\<lparr>w_reserved := 5000\<rparr>))) = 5000 + second"
proof -
  let ?w = "example_world\<lparr>w_reserved := 5000\<rparr>"
  let ?run = "pacingTransport_RoundTrip second wallClock (base_RoundTrip (always 200 []))
     (example_request ''GET'') ?w"
  have eq: "?run = (fst ?run, snd ?run)" by simp
  note th = pacing_waits_for_slot [OF _ _ eq]
  show ?thesis
    using th base.leaf_frame by (fastforce simp: example_world_def in_int64_def)
qed

end
