(* ===== verification/Sha256.thy ===== *)
theory Sha256
  imports Prelude "HOL-Library.Word"
begin

text \<open>
  SHA-256 (FIPS 180-4) as the standard library's \<open>crypto/sha256\<close> computes it, on byte
  strings, and \<open>hex.EncodeToString\<close>.  The ETag policy fingerprints credentials with it.
\<close>

unbundle bit_operations_syntax

type_synonym word32 = "32 word"
type_synonym hash_state = "word32 \<times> word32 \<times> word32 \<times> word32 \<times> word32 \<times> word32 \<times> word32 \<times> word32"

definition round_constants :: "word32 list" where
  "round_constants = [
     0x428a2f98, 0x71374491, 0xb5c0fbcf, 0xe9b5dba5, 0x3956c25b, 0x59f111f1, 0x923f82a4, 0xab1c5ed5,
     0xd807aa98, 0x12835b01, 0x243185be, 0x550c7dc3, 0x72be5d74, 0x80deb1fe, 0x9bdc06a7, 0xc19bf174,
     0xe49b69c1, 0xefbe4786, 0x0fc19dc6, 0x240ca1cc, 0x2de92c6f, 0x4a7484aa, 0x5cb0a9dc, 0x76f988da,
     0x983e5152, 0xa831c66d, 0xb00327c8, 0xbf597fc7, 0xc6e00bf3, 0xd5a79147, 0x06ca6351, 0x14292967,
     0x27b70a85, 0x2e1b2138, 0x4d2c6dfc, 0x53380d13, 0x650a7354, 0x766a0abb, 0x81c2c92e, 0x92722c85,
     0xa2bfe8a1, 0xa81a664b, 0xc24b8b70, 0xc76c51a3, 0xd192e819, 0xd6990624, 0xf40e3585, 0x106aa070,
     0x19a4c116, 0x1e376c08, 0x2748774c, 0x34b0bcb5, 0x391c0cb3, 0x4ed8aa4a, 0x5b9cca4f, 0x682e6ff3,
     0x748f82ee, 0x78a5636f, 0x84c87814, 0x8cc70208, 0x90befffa, 0xa4506ceb, 0xbef9a3f7, 0xc67178f2]"

definition initial_hash :: hash_state where
  "initial_hash = (0x6a09e667, 0xbb67ae85, 0x3c6ef372, 0xa54ff53a, 0x510e527f, 0x9b05688c, 0x1f83d9ab, 0x5be0cd19)"

definition rotr :: "nat \<Rightarrow> word32 \<Rightarrow> word32" where
  "rotr n x = drop_bit n x OR push_bit (32 - n) x"

definition big_sigma0 :: "word32 \<Rightarrow> word32" where
  "big_sigma0 x = rotr 2 x XOR rotr 13 x XOR rotr 22 x"

definition big_sigma1 :: "word32 \<Rightarrow> word32" where
  "big_sigma1 x = rotr 6 x XOR rotr 11 x XOR rotr 25 x"

definition small_sigma0 :: "word32 \<Rightarrow> word32" where
  "small_sigma0 x = rotr 7 x XOR rotr 18 x XOR drop_bit 3 x"

definition small_sigma1 :: "word32 \<Rightarrow> word32" where
  "small_sigma1 x = rotr 17 x XOR rotr 19 x XOR drop_bit 10 x"

text \<open>The message schedule, newest word first.\<close>

fun extend_schedule :: "nat \<Rightarrow> word32 list \<Rightarrow> word32 list" where
  "extend_schedule 0 ws = ws"
| "extend_schedule (Suc n) ws =
     extend_schedule n
       ((small_sigma1 (ws ! 1) + ws ! 6 + small_sigma0 (ws ! 14) + ws ! 15) # ws)"

definition hash_round :: "word32 \<times> word32 \<Rightarrow> hash_state \<Rightarrow> hash_state" where
  "hash_round kw st =
     (case (kw, st) of ((k, w), (a, b, c, d, e, f, g, h)) \<Rightarrow>
        let t1 = h + big_sigma1 e + ((e AND f) XOR (NOT e AND g)) + k + w;
            t2 = big_sigma0 a + ((a AND b) XOR (a AND c) XOR (b AND c))
        in (t1 + t2, a, b, c, d + t1, e, f, g))"

definition compress :: "word32 list \<Rightarrow> hash_state \<Rightarrow> hash_state" where
  "compress block st =
     (case (st, fold hash_round (zip round_constants (rev (extend_schedule 48 (rev block)))) st) of
        ((a, b, c, d, e, f, g, h), (a', b', c', d', e', f', g', h')) \<Rightarrow>
          (a + a', b + b', c + c', d + d', e + e', f + f', g + g', h + h'))"

fun blocks :: "nat \<Rightarrow> word32 list \<Rightarrow> word32 list list" where
  "blocks 0 ws = []"
| "blocks (Suc n) ws = take 16 ws # blocks n (drop 16 ws)"

type_synonym byte = "8 word"

fun words_of_bytes :: "byte list \<Rightarrow> word32 list" where
  "words_of_bytes (a # b # c # d # bs) =
     (push_bit 24 (ucast a) OR push_bit 16 (ucast b) OR push_bit 8 (ucast c) OR ucast d) # words_of_bytes bs"
| "words_of_bytes _ = []"

definition bytes_of_word :: "word32 \<Rightarrow> byte list" where
  "bytes_of_word w = map (\<lambda>s. ucast (drop_bit s w)) [24, 16, 8, 0]"

definition length_bytes :: "nat \<Rightarrow> byte list" where
  "length_bytes n = (let bits = of_nat (8 * n) :: 64 word
     in map (\<lambda>s. ucast (drop_bit s bits)) [56, 48, 40, 32, 24, 16, 8, 0])"

definition pad_message :: "byte list \<Rightarrow> byte list" where
  "pad_message bs =
     bs @ [128] @ replicate ((119 - length bs mod 64) mod 64) 0 @ length_bytes (length bs)"

definition sha256 :: "string \<Rightarrow> byte list" where
  "sha256 s =
     (let ws = words_of_bytes (pad_message (map of_char s))
      in case fold compress (blocks (length ws div 16) ws) initial_hash of
           (a, b, c, d, e, f, g, h) \<Rightarrow> concat (map bytes_of_word [a, b, c, d, e, f, g, h]))"

definition hex_digit :: "nat \<Rightarrow> char" where
  "hex_digit d = (if d < 10 then char_of (48 + d) else char_of (87 + d))"

definition hex_encode :: "byte list \<Rightarrow> string" where
  "hex_encode bs = concat (map (\<lambda>b. [hex_digit (unat (drop_bit 4 b)), hex_digit (unat (b AND 15))]) bs)"

lemma length_sha256 [simp]: "length (sha256 s) = 32"
  by (simp add: sha256_def Let_def bytes_of_word_def split: prod.splits)

lemma length_hex_encode [simp]: "length (hex_encode bs) = 2 * length bs"
  by (induction bs) (simp_all add: hex_encode_def)

lemma hex_digit_not_bar: "d < 16 \<Longrightarrow> hex_digit d \<noteq> CHR ''|''"
proof
  assume d: "d < 16" and "hex_digit d = CHR ''|''"
  then have "(of_char (hex_digit d) :: nat) = 124" by simp
  with d show False by (auto simp: hex_digit_def split: if_splits)
qed

lemma nibbles_less: "unat (drop_bit 4 (b :: byte)) < 16" "unat (b AND 15) < 16"
proof -
  have "unat b < 2 ^ LENGTH(8)" by (rule unsigned_less)
  then show "unat (drop_bit 4 b) < 16" by (simp add: drop_bit_eq_div unat_div)
  have "unat (b AND 15) \<le> unat (15 :: byte)"
    using word_and_le1 [of b 15] by (simp only: word_le_nat_alt)
  then show "unat (b AND 15) < 16" by simp
qed

lemma hex_encode_not_bar: "CHR ''|'' \<notin> set (hex_encode bs)"
  using hex_digit_not_bar nibbles_less by (fastforce simp: hex_encode_def)

text \<open>The digits determine the bytes.\<close>

lemma hex_digit_inj:
  assumes "hex_digit d = hex_digit e" "d < 16" "e < 16"
  shows "d = e"
proof -
  have "(of_char (hex_digit d) :: nat) = of_char (hex_digit e)" using assms(1) by simp
  with assms(2,3) show ?thesis by (auto simp: hex_digit_def split: if_splits)
qed

lemma nibbles: "unat (drop_bit 4 (b :: byte)) = unat b div 16" "unat (b AND 15) = unat b mod 16"
proof -
  show "unat (drop_bit 4 b) = unat b div 16" by (simp add: drop_bit_eq_div unat_div)
  have "b AND 15 = take_bit 4 b" by (simp add: take_bit_eq_mask mask_eq_exp_minus_1)
  then show "unat (b AND 15) = unat b mod 16" by (simp add: take_bit_eq_mod unat_mod)
qed

lemma byte_eq_by_nibbles:
  assumes "hex_digit (unat (drop_bit 4 (a :: byte))) = hex_digit (unat (drop_bit 4 b))"
    and "hex_digit (unat (a AND 15)) = hex_digit (unat (b AND 15))"
  shows "a = b"
proof -
  have "unat a div 16 = unat b div 16" "unat a mod 16 = unat b mod 16"
    using assms hex_digit_inj nibbles_less by (simp_all flip: nibbles)
  then have "unat a = unat b" by (metis div_mult_mod_eq)
  then show ?thesis by (rule word_unat_eq_iff [THEN iffD2])
qed

lemma hex_encode_inj: "hex_encode as = hex_encode bs \<longleftrightarrow> as = bs"
proof
  show "hex_encode as = hex_encode bs \<Longrightarrow> as = bs"
  proof (induction as arbitrary: bs)
    case Nil
    then show ?case by (cases bs) (simp_all add: hex_encode_def)
  next
    case (Cons a as)
    then obtain b bs' where "bs = b # bs'" by (cases bs) (simp_all add: hex_encode_def)
    with Cons byte_eq_by_nibbles [of a b] show ?case by (simp add: hex_encode_def)
  qed
qed simp

end
