(* ===== verification/ETag.thy ===== *)
theory ETag
  imports Pacing Sha256
begin

text \<open>
  \<open>src/etag.go\<close> and \<open>authKey\<close> of \<open>src/client.go\<close>: the GitHub policy the kit puts on
  the conditional GET cache of \<open>github.com/larsartmann/go-etag/client\<close>.  That package is not
  part of the repository: its constructor \<open>NewTransport\<close> is a parameter, given the options the
  kit builds.
\<close>

section \<open>Policy\<close>

record ETagOptions =
  MaxEntries :: int
  MaxBodyBytes :: int

definition DefaultETagEntries :: int where
  "DefaultETagEntries = 256"

definition defaultETagMaxBodyBytes :: int where
  "defaultETagMaxBodyBytes = 8388608"

definition headerRateLimitUsed :: string where
  "headerRateLimitUsed = ''X-RateLimit-Used''"

definition headerRateLimitResource :: string where
  "headerRateLimitResource = ''X-RateLimit-Resource''"

definition headerFromCache :: string where
  "headerFromCache = ''X-Github-Kit-From-Cache''"

text \<open>The options of the etag client, and its statistics.\<close>

record etagclient_Options =
  ec_KeyFunc :: "request \<Rightarrow> string"
  ec_MaxEntries :: int
  ec_MaxBodyBytes :: int
  ec_FreshenFields :: "string list"
  ec_FromCacheHeader :: string

record ETagStats =
  Hits :: int
  Stored :: int
  Entries :: int

type_synonym 'n etag_NewTransport = "'n round_trip \<Rightarrow> etagclient_Options \<Rightarrow> 'n round_trip"

definition authKey :: "header \<Rightarrow> string" where
  "authKey h =
     (let value = header_Get h ''Authorization''
      in if value = [] then [] else hex_encode (take 8 (sha256 value)))"

definition etag_key :: "request \<Rightarrow> string" where
  "etag_key req = authKey (req_Header req) @ ''|'' @ url_String (req_URL req)"

definition etag_policy :: "ETagOptions \<Rightarrow> etagclient_Options" where
  "etag_policy opts =
     (let maxBodyBytes = (if MaxBodyBytes opts \<le> 0 then defaultETagMaxBodyBytes else MaxBodyBytes opts)
      in \<lparr>ec_KeyFunc = etag_key,
          ec_MaxEntries = MaxEntries opts,
          ec_MaxBodyBytes = maxBodyBytes,
          ec_FreshenFields = [headerRateLimitLimit, headerRateLimitRemaining, headerRateLimitReset,
            headerRateLimitUsed, headerRateLimitResource, ''Retry-After'', ''Date''],
          ec_FromCacheHeader = headerFromCache\<rparr>)"

definition newETagTransport :: "'n etag_NewTransport \<Rightarrow> 'n round_trip \<Rightarrow> ETagOptions \<Rightarrow> 'n round_trip" where
  "newETagTransport NewTransport nxt opts = NewTransport nxt (etag_policy opts)"

text \<open>\<open>*ETagCache\<close> holds its options and, once wrapped, the transport; \<open>Stats\<close> asks the
  wrapped transport, whose counters are \<open>stats\<close>.\<close>

record 'n ETagCache =
  cache_opts :: ETagOptions
  transport :: "'n round_trip option"

definition NewETagCache :: "ETagOptions \<Rightarrow> 'n ETagCache" where
  "NewETagCache opts = \<lparr>cache_opts = opts, transport = None\<rparr>"

definition ETagCache_wrap :: "'n etag_NewTransport \<Rightarrow> 'n round_trip \<Rightarrow> 'n ETagCache \<Rightarrow> 'n round_trip \<times> 'n ETagCache" where
  "ETagCache_wrap NewTransport nxt c =
     (let t = newETagTransport NewTransport nxt (cache_opts c) in (t, c\<lparr>transport := Some t\<rparr>))"

definition ETagCache_Stats :: "('n round_trip \<Rightarrow> ETagStats) \<Rightarrow> 'n ETagCache \<Rightarrow> ETagStats" where
  "ETagCache_Stats stats c =
     (case transport c of None \<Rightarrow> \<lparr>Hits = 0, Stored = 0, Entries = 0\<rparr> | Some t \<Rightarrow> stats t)"

section \<open>Keys separate credentials\<close>

lemma authKey_not_bar: "CHR ''|'' \<notin> set (authKey h)"
  by (simp add: authKey_def Let_def hex_encode_not_bar)

lemma authKey_length: "authKey h = [] \<or> length (authKey h) = 16"
  by (simp add: authKey_def Let_def)

lemma authKey_empty: "authKey h = [] \<longleftrightarrow> header_Get h ''Authorization'' = []"
proof -
  have "length (hex_encode (take 8 (sha256 v))) = 16" for v by simp
  then have "hex_encode (take 8 (sha256 v)) \<noteq> []" for v by (metis list.size(3) zero_neq_numeral)
  then show ?thesis by (simp add: authKey_def Let_def)
qed

lemma split_at_bar:
  assumes "a @ CHR ''|'' # x = b @ CHR ''|'' # y" "CHR ''|'' \<notin> set a" "CHR ''|'' \<notin> set b"
  shows "a = b \<and> x = y"
  using assms
proof (induction a arbitrary: b)
  case Nil
  then show ?case by (cases b) auto
next
  case (Cons c a)
  then show ?case by (cases b) auto
qed

lemma etag_key_eq_iff:
  "etag_key r1 = etag_key r2 \<longleftrightarrow>
     authKey (req_Header r1) = authKey (req_Header r2) \<and> url_String (req_URL r1) = url_String (req_URL r2)"
proof
  assume "etag_key r1 = etag_key r2"
  then have "authKey (req_Header r1) @ CHR ''|'' # url_String (req_URL r1)
      = authKey (req_Header r2) @ CHR ''|'' # url_String (req_URL r2)"
    by (simp add: etag_key_def)
  then show "authKey (req_Header r1) = authKey (req_Header r2) \<and> url_String (req_URL r1) = url_String (req_URL r2)"
    by (rule split_at_bar) (rule authKey_not_bar)+
qed (simp add: etag_key_def)

text \<open>The fingerprint of a request's credentials tells them apart as far as 64 bits of SHA-256 do.\<close>

lemma authKey_eq_iff:
  "authKey h1 = authKey h2 \<longleftrightarrow>
     (let a1 = header_Get h1 ''Authorization''; a2 = header_Get h2 ''Authorization''
      in if a1 = [] \<or> a2 = [] then a1 = a2 else take 8 (sha256 a1) = take 8 (sha256 a2))"
proof (cases "header_Get h1 ''Authorization'' = [] \<or> header_Get h2 ''Authorization'' = []")
  case True
  with authKey_empty [of h1] authKey_empty [of h2] show ?thesis by (auto simp: Let_def)
next
  case False
  then show ?thesis by (simp add: authKey_def Let_def hex_encode_inj)
qed

text \<open>C40. Cache keys never mix credentials or URLs.  Two requests share a key of the ETag cache
  exactly if their URLs print the same and their Authorization values have the same first 64 bits of
  SHA-256, or neither request has one.  So requests with different credentials share a key only if
  those 64 bits collide, and a request without credentials never shares one with a request that has
  some.\<close>

theorem etag_key_separates:
  "etag_key r1 = etag_key r2 \<longleftrightarrow>
     url_String (req_URL r1) = url_String (req_URL r2)
     \<and> (let a1 = header_Get (req_Header r1) ''Authorization''; a2 = header_Get (req_Header r2) ''Authorization''
        in if a1 = [] \<or> a2 = [] then a1 = a2 else take 8 (sha256 a1) = take 8 (sha256 a2))"
  unfolding etag_key_eq_iff authKey_eq_iff by blast

end
