(* ===== verification/Config.thy ===== *)
theory Config
  imports ETag
begin

text \<open>
  \<open>src/options.go\<close> and the resolution functions of \<open>src/client.go\<close>: the defaults, the
  functional options, and how \<open>New\<close> resolves them into a token, a base URL, a timeout and an
  innermost transport.  The environment (\<open>os.Getenv\<close>), \<open>strconv.Quote\<close>,
  \<open>url.Parse\<close> and the construction of an \<open>http.Transport\<close> are arguments.
\<close>

section \<open>Defaults\<close>

definition DefaultTokenEnvGITHUB :: string where
  "DefaultTokenEnvGITHUB = ''GITHUB_TOKEN''"

definition DefaultTokenEnvGH :: string where
  "DefaultTokenEnvGH = ''GH_TOKEN''"

definition defaultMinRemaining :: int where "defaultMinRemaining = 10"
definition defaultMaxWait :: duration where "defaultMaxWait = 15 * minute"
definition defaultMaxRetries :: int where "defaultMaxRetries = 3"
definition defaultInitialBackoff :: duration where "defaultInitialBackoff = 1 * second"
definition defaultMaxBackoff :: duration where "defaultMaxBackoff = 30 * second"

lemmas default_values = defaultMinRemaining_def defaultMaxWait_def defaultMaxRetries_def
  defaultInitialBackoff_def defaultMaxBackoff_def

definition DefaultRateLimitOptions :: RateLimitOptions where
  "DefaultRateLimitOptions =
     \<lparr>rl_Enabled = True, MinRemaining = defaultMinRemaining, MaxWait = defaultMaxWait\<rparr>"

definition DefaultRetryOptions :: RetryOptions where
  "DefaultRetryOptions =
     \<lparr>retry_Enabled = True, MaxRetries = defaultMaxRetries, InitialBackoff = defaultInitialBackoff,
      MaxBackoff = defaultMaxBackoff\<rparr>"

definition DefaultRequestTimeout :: duration where
  "DefaultRequestTimeout = 30 * second"

section \<open>Options\<close>

text \<open>The fields of an \<open>http.Client\<close> the kit reads.\<close>

record 'n http_Client =
  client_Transport :: "'n round_trip option"
  client_Timeout :: duration

record 'n Options =
  Token :: string
  TokenEnvVars :: "string list"
  BaseURL :: string
  HTTPClient :: "'n http_Client option"
  UserAgent :: string
  RequestTimeout :: duration
  RateLimit_opts :: RateLimitOptions
  SecondaryPacing :: duration
  Retry_opts :: RetryOptions
  ETag_opts :: "ETagOptions option"
  clock_opt :: "'n clock option"

type_synonym 'n Option = "'n Options \<Rightarrow> 'n Options"

definition WithPAT :: "string \<Rightarrow> 'n Option" where
  "WithPAT token o' = o'\<lparr>Token := token\<rparr>"

definition WithAuthTokenFromEnv :: "string list \<Rightarrow> 'n Option" where
  "WithAuthTokenFromEnv vars o' =
     o'\<lparr>TokenEnvVars := (if length vars = 0 then [DefaultTokenEnvGITHUB, DefaultTokenEnvGH] else vars)\<rparr>"

definition WithBaseURL :: "string \<Rightarrow> 'n Option" where
  "WithBaseURL rawURL o' = o'\<lparr>BaseURL := rawURL\<rparr>"

definition WithHTTPClient :: "'n http_Client option \<Rightarrow> 'n Option" where
  "WithHTTPClient client o' = o'\<lparr>HTTPClient := client\<rparr>"

definition WithUserAgent :: "string \<Rightarrow> 'n Option" where
  "WithUserAgent userAgent o' = o'\<lparr>UserAgent := userAgent\<rparr>"

definition WithTimeout :: "duration \<Rightarrow> 'n Option" where
  "WithTimeout d o' = o'\<lparr>RequestTimeout := d\<rparr>"

definition WithRateLimitOptions :: "RateLimitOptions \<Rightarrow> 'n Option" where
  "WithRateLimitOptions opts o' =
     (let merged = DefaultRateLimitOptions;
          merged = (if MinRemaining opts > 0 then merged\<lparr>MinRemaining := MinRemaining opts\<rparr> else merged);
          merged = (if MaxWait opts > 0 then merged\<lparr>MaxWait := MaxWait opts\<rparr> else merged)
      in o'\<lparr>RateLimit_opts := merged\<rparr>)"

definition WithoutRateLimit :: "'n Option" where
  "WithoutRateLimit o' = o'\<lparr>RateLimit_opts := \<lparr>rl_Enabled = False, MinRemaining = 0, MaxWait = 0\<rparr>\<rparr>"

definition WithSecondaryPacing :: "duration \<Rightarrow> 'n Option" where
  "WithSecondaryPacing minDelay o' = o'\<lparr>SecondaryPacing := (if minDelay < 0 then 0 else minDelay)\<rparr>"

definition WithRetryOptions :: "RetryOptions \<Rightarrow> 'n Option" where
  "WithRetryOptions opts o' =
     (let merged = DefaultRetryOptions;
          merged = (if MaxRetries opts > 0 then merged\<lparr>MaxRetries := MaxRetries opts\<rparr> else merged);
          merged = (if InitialBackoff opts > 0 then merged\<lparr>InitialBackoff := InitialBackoff opts\<rparr> else merged);
          merged = (if MaxBackoff opts > 0 then merged\<lparr>MaxBackoff := MaxBackoff opts\<rparr> else merged)
      in o'\<lparr>Retry_opts := merged\<rparr>)"

definition WithoutRetry :: "'n Option" where
  "WithoutRetry o' =
     o'\<lparr>Retry_opts := \<lparr>retry_Enabled = False, MaxRetries = 0, InitialBackoff = 0, MaxBackoff = 0\<rparr>\<rparr>"

definition WithETagCache :: "ETagOptions option \<Rightarrow> 'n Option" where
  "WithETagCache opts o' =
     o'\<lparr>ETag_opts := (case opts of None \<Rightarrow> Some \<lparr>MaxEntries = 0, MaxBodyBytes = 0\<rparr> | Some x \<Rightarrow> Some x)\<rparr>"

definition withClock :: "'n clock option \<Rightarrow> 'n Option" where
  "withClock c o' = o'\<lparr>clock_opt := c\<rparr>"

text \<open>\<open>resolveDefaults\<close> runs the options that are not \<open>nil\<close> over the defaults.\<close>

definition start_options :: "'n Options" where
  "start_options =
     \<lparr>Token = [], TokenEnvVars = [], BaseURL = [], HTTPClient = None, UserAgent = [],
      RequestTimeout = DefaultRequestTimeout, RateLimit_opts = DefaultRateLimitOptions,
      SecondaryPacing = 0, Retry_opts = DefaultRetryOptions, ETag_opts = None,
      clock_opt = Some wallClock\<rparr>"

definition resolveDefaults :: "'n Option option list \<Rightarrow> 'n Options" where
  "resolveDefaults opts =
     (let options = foldl (\<lambda>o' opt. case opt of None \<Rightarrow> o' | Some f \<Rightarrow> f o') start_options opts
      in if clock_opt options = None then options\<lparr>clock_opt := Some wallClock\<rparr> else options)"

section \<open>Resolution\<close>

fun joinQuoted_from :: "(string \<Rightarrow> string) \<Rightarrow> nat \<Rightarrow> string list \<Rightarrow> string" where
  "joinQuoted_from quote i [] = []"
| "joinQuoted_from quote i (v # vs) =
     (if i > 0 then '', '' else []) @ quote v @ joinQuoted_from quote (Suc i) vs"

definition joinQuoted :: "(string \<Rightarrow> string) \<Rightarrow> string list \<Rightarrow> string" where
  "joinQuoted quote vs = joinQuoted_from quote 0 vs"

fun first_set :: "(string \<Rightarrow> string) \<Rightarrow> string list \<Rightarrow> string option" where
  "first_set Getenv [] = None"
| "first_set Getenv (name # names) = (if Getenv name \<noteq> [] then Some (Getenv name) else first_set Getenv names)"

definition resolveToken :: "(string \<Rightarrow> string) \<Rightarrow> (string \<Rightarrow> string) \<Rightarrow> 'n Options \<Rightarrow> err + string" where
  "resolveToken quote Getenv options =
     (if Token options \<noteq> [] then Inr (Token options)
      else if length (TokenEnvVars options) = 0 then Inr []
      else case first_set Getenv (TokenEnvVars options) of
          Some value \<Rightarrow> Inr value
        | None \<Rightarrow> Inl (Errorf ''githubkit: none of the token environment variables is set (%s): %w''
            [ArgStr (joinQuoted quote (TokenEnvVars options))] [ErrAuthRequired]))"

definition ResolveBaseURL :: "(string \<Rightarrow> err + url) \<Rightarrow> string \<Rightarrow> err + url" where
  "ResolveBaseURL parse raw =
     (if raw = [] then
        (case parse ''https://api.github.com/'' of
           Inl e \<Rightarrow> Inl (Errorf ''githubkit: parse default base URL: %w'' [] [e])
         | Inr parsed \<Rightarrow> Inr parsed)
      else case parse raw of
          Inl e \<Rightarrow> Inl (Errorf ''githubkit: parse base URL %q: %w'' [ArgStr raw] [e])
        | Inr parsed \<Rightarrow>
            if Hostname parsed = [] then Inl (Errorf ''%w (%q)'' [ArgStr raw] [ErrBaseURLNoHost])
            else if \<not> has_suffix (Path parsed) ''/'' then Inr (parsed\<lparr>Path := Path parsed @ ''/''\<rparr>)
            else Inr parsed)"

definition resolveTimeout :: "'n Options \<Rightarrow> duration" where
  "resolveTimeout options =
     (if RequestTimeout options \<noteq> 0 \<and> RequestTimeout options \<noteq> DefaultRequestTimeout
      then RequestTimeout options
      else case HTTPClient options of
          Some c \<Rightarrow> if client_Timeout c > 0 then client_Timeout c else DefaultRequestTimeout
        | None \<Rightarrow> DefaultRequestTimeout)"

record transport_tuning =
  MaxIdleConns :: int
  MaxIdleConnsPerHost :: int
  IdleConnTimeout :: duration
  TLSHandshakeTimeout :: duration
  ExpectContinueTimeout :: duration

definition default_tuning :: transport_tuning where
  "default_tuning = \<lparr>MaxIdleConns = 100, MaxIdleConnsPerHost = 10, IdleConnTimeout = 90 * second,
     TLSHandshakeTimeout = 10 * second, ExpectContinueTimeout = 1 * second\<rparr>"

definition baseTransport :: "(transport_tuning \<Rightarrow> 'n round_trip) \<Rightarrow> 'n Options \<Rightarrow> 'n round_trip" where
  "baseTransport http_Transport options =
     (case HTTPClient options of
        Some c \<Rightarrow> (case client_Transport c of Some t \<Rightarrow> t | None \<Rightarrow> http_Transport default_tuning)
      | None \<Rightarrow> http_Transport default_tuning)"

section \<open>What the resolution promises\<close>

text \<open>The module's own options, with any arguments.\<close>

inductive kit_option :: "'n Option \<Rightarrow> bool" where
  "kit_option (WithPAT token)"
| "kit_option (WithAuthTokenFromEnv vars)"
| "kit_option (WithBaseURL rawURL)"
| "kit_option (WithHTTPClient client)"
| "kit_option (WithUserAgent userAgent)"
| "kit_option (WithTimeout d)"
| "kit_option (WithRateLimitOptions rl)"
| "kit_option WithoutRateLimit"
| "kit_option (WithSecondaryPacing minDelay)"
| "kit_option (WithRetryOptions retry)"
| "kit_option WithoutRetry"
| "kit_option (WithETagCache etag)"
| "kit_option (withClock c)"

lemmas option_defs = WithPAT_def WithAuthTokenFromEnv_def WithBaseURL_def WithHTTPClient_def
  WithUserAgent_def WithTimeout_def WithRateLimitOptions_def WithoutRateLimit_def
  WithSecondaryPacing_def WithRetryOptions_def WithoutRetry_def WithETagCache_def withClock_def

definition sane :: "'n Options \<Rightarrow> bool" where
  "sane o' \<longleftrightarrow>
     (rl_Enabled (RateLimit_opts o') \<longrightarrow> 0 < MinRemaining (RateLimit_opts o') \<and> 0 < MaxWait (RateLimit_opts o'))
   \<and> (retry_Enabled (Retry_opts o') \<longrightarrow>
        0 < MaxRetries (Retry_opts o') \<and> 0 < InitialBackoff (Retry_opts o') \<and> 0 < MaxBackoff (Retry_opts o'))
   \<and> 0 \<le> SecondaryPacing o'"

lemma kit_option_sane: "kit_option opt \<Longrightarrow> sane o' \<Longrightarrow> sane (opt o')"
  by (induction rule: kit_option.induct)
    (auto simp: option_defs sane_def Let_def DefaultRateLimitOptions_def DefaultRetryOptions_def default_values)

lemma foldl_sane:
  "list_all (\<lambda>opt. case opt of None \<Rightarrow> True | Some f \<Rightarrow> kit_option f) opts \<Longrightarrow> sane o' \<Longrightarrow>
   sane (foldl (\<lambda>o' opt. case opt of None \<Rightarrow> o' | Some f \<Rightarrow> f o') o' opts)"
  by (induction opts arbitrary: o') (auto split: option.splits intro: kit_option_sane)

text \<open>C34. Any combination resolves to a sane configuration.  Whatever options of the kit are given,
  in whatever order and with whatever arguments, partial, zero or negative ones included, an
  enabled gate has a positive floor and maximum wait, an enabled retry layer has positive retries
  and backoffs, the pacing interval is not negative and a clock is set.\<close>

theorem resolveDefaults_sane:
  assumes "list_all (\<lambda>opt. case opt of None \<Rightarrow> True | Some f \<Rightarrow> kit_option f) opts"
  shows "sane (resolveDefaults opts) \<and> (\<exists>c. clock_opt (resolveDefaults opts) = Some c)"
proof -
  have "sane start_options"
    by (simp add: sane_def start_options_def DefaultRateLimitOptions_def DefaultRetryOptions_def default_values)
  from foldl_sane [OF assms this] show ?thesis
    by (auto simp: resolveDefaults_def Let_def sane_def)
qed

theorem resolveDefaults_sane_witness:
  "sane (resolveDefaults [Some (WithRetryOptions \<lparr>retry_Enabled = False, MaxRetries = -4,
       InitialBackoff = 0, MaxBackoff = 7\<rparr>), None, Some (WithSecondaryPacing (-1))] :: nat Options)"
  using resolveDefaults_sane [of "[Some (WithRetryOptions \<lparr>retry_Enabled = False, MaxRetries = -4,
       InitialBackoff = 0, MaxBackoff = 7\<rparr>), None, Some (WithSecondaryPacing (-1))] :: nat Option option list"]
  by (simp add: kit_option.intros)

lemma first_set_Some:
  "first_set Getenv vars = Some v \<Longrightarrow>
   \<exists>k < length vars. v = Getenv (vars ! k) \<and> v \<noteq> [] \<and> list_all (\<lambda>n. Getenv n = []) (take k vars)"
proof (induction vars)
  case (Cons a vars)
  show ?case
  proof (cases "Getenv a = []")
    case True
    with Cons obtain k where "k < length vars" "v = Getenv (vars ! k)" "v \<noteq> []"
      "list_all (\<lambda>n. Getenv n = []) (take k vars)" by auto
    with True show ?thesis by (intro exI [of _ "Suc k"]) simp
  next
    case False
    with Cons.prems show ?thesis by (intro exI [of _ 0]) simp
  qed
qed simp

lemma first_set_None: "first_set Getenv vars = None \<longleftrightarrow> list_all (\<lambda>n. Getenv n = []) vars"
  by (induction vars) auto

text \<open>Token resolution.  An explicit token wins; otherwise the value of the first listed variable
  that is set and not empty; without any variables the client is anonymous; and the only error is
  \<open>ErrAuthRequired\<close>, exactly when variables are listed and none of them holds a value.\<close>

theorem resolveToken_spec:
  "case resolveToken quote Getenv o' of
     Inr token \<Rightarrow>
       (if Token o' \<noteq> [] then token = Token o'
        else if TokenEnvVars o' = [] then token = []
        else \<exists>k < length (TokenEnvVars o'). token = Getenv (TokenEnvVars o' ! k) \<and> token \<noteq> []
               \<and> list_all (\<lambda>n. Getenv n = []) (take k (TokenEnvVars o')))
   | Inl e \<Rightarrow> Token o' = [] \<and> TokenEnvVars o' \<noteq> [] \<and> list_all (\<lambda>n. Getenv n = []) (TokenEnvVars o')
       \<and> errors_Is e ErrAuthRequired"
proof (cases "first_set Getenv (TokenEnvVars o')")
  case None
  then have "list_all (\<lambda>n. Getenv n = []) (TokenEnvVars o')" using first_set_None by blast
  with None show ?thesis by (simp add: resolveToken_def errors_Is_def)
next
  case (Some v)
  from Some first_set_Some [OF Some] show ?thesis by (auto simp: resolveToken_def)
qed

text \<open>A base URL that resolves is usable: it is the parsed input, its path ends in a slash, as
  go-github's relative URLs need, and, but for the default of an empty input, it has a host; the
  path changes by at most that slash.\<close>

theorem ResolveBaseURL_usable:
  assumes "ResolveBaseURL parse raw = Inr u" "raw \<noteq> []"
  shows "Hostname u \<noteq> [] \<and> has_suffix (Path u) ''/''
    \<and> (\<exists>p. parse raw = Inr p \<and> u = p\<lparr>Path := Path u\<rparr> \<and> Path u \<in> {Path p, Path p @ ''/''})"
proof -
  have host: "Hostname (p\<lparr>Path := x\<rparr>) = Hostname p" for p x by (simp add: Hostname_def)
  show ?thesis
    using assms by (auto simp: ResolveBaseURL_def host split: sum.splits if_splits)
qed

theorem ResolveBaseURL_usable_witness:
  "has_suffix (Path (example_url\<lparr>Path := ''/user/''\<rparr>)) ''/''"
proof -
  have h: "Hostname example_url = ''api.github.com''" by code_simp
  have p: "\<not> has_suffix (Path example_url) ''/''" by code_simp
  have "ResolveBaseURL (\<lambda>s. Inr example_url) ''https://api.github.com/user'' = Inr (example_url\<lparr>Path := ''/user/''\<rparr>)"
    using h p by (simp add: ResolveBaseURL_def example_url_def)
  from ResolveBaseURL_usable [OF this] show ?thesis by simp
qed

text \<open>An explicit timeout of thirty seconds is not honoured.  \<open>WithTimeout\<close> with any other
  non-zero duration wins over the timeout of a custom HTTP client, whichever option comes first; but
  with exactly \<open>DefaultRequestTimeout\<close> the client's timeout, if positive, is taken instead.\<close>

theorem resolveTimeout_default_lost:
  "resolveTimeout (resolveDefaults [Some (WithHTTPClient (Some c)), Some (WithTimeout d)]) =
     (if d \<noteq> 0 \<and> d \<noteq> 30 * second then d
      else if client_Timeout c > 0 then client_Timeout c else 30 * second)"
  by (simp add: resolveTimeout_def resolveDefaults_def start_options_def option_defs DefaultRequestTimeout_def)

text \<open>An escaped slash in a base URL is lost.  Appending the slash leaves \<open>RawPath\<close> behind, so
  \<open>URL.String\<close> no longer trusts it and prints the decoded path: \<open>https://ghe/a%2Fb\<close> becomes
  \<open>https://ghe/a/b/\<close>, another path.\<close>

definition escaped_url :: url where
  "escaped_url = example_url\<lparr>Host := ''ghe'', Path := ''/a/b'', RawPath := ''/a%2Fb''\<rparr>"

theorem ResolveBaseURL_drops_escapes:
  "url_String escaped_url = ''https://ghe/a%2Fb''
    \<and> (case ResolveBaseURL (\<lambda>s. Inr escaped_url) ''https://ghe/a%2Fb'' of
         Inr u \<Rightarrow> url_String u = ''https://ghe/a/b/'' | Inl e \<Rightarrow> False)"
  by code_simp

end
