(* ===== verification/KernelStack.thy ===== *)
theory KernelStack
  imports Config
begin

text \<open>
  \<open>New\<close> and \<open>Kernel\<close> of \<open>src/client.go\<close>: the transport stack put together in the code's
  order, the prober's own stack beside it, and the accessors.  go-github's \<open>Client\<close> is a
  third-party type: the kernel records what it is configured with (token, base URL, user agent,
  HTTP timeout and transport).  \<open>std\<close> bundles the standard-library and third-party functions
  that \<open>New\<close> calls.
\<close>

section \<open>Construction\<close>

record 'n externals =
  Getenv :: "string \<Rightarrow> string"
  Quote :: "string \<Rightarrow> string"
  url_Parse :: "string \<Rightarrow> err + url"
  http_Transport :: "transport_tuning \<Rightarrow> 'n round_trip"
  etag_NewTransport :: "'n etag_NewTransport"

record 'n Kernel =
  client_token :: string
  client_BaseURL :: url
  client_UserAgent :: "string option"
  client_HTTP_Timeout :: duration
  client_HTTP_Transport :: "'n round_trip"
  etagCache :: "'n ETagCache option"
  prober :: "'n rateProber"
  kernel_rateLimit :: RateLimitOptions
  kernel_clock :: "'n clock"

definition the_clock :: "'n Options \<Rightarrow> 'n clock" where
  "the_clock options = (case clock_opt options of Some c \<Rightarrow> c | None \<Rightarrow> wallClock)"

definition paced_base :: "'n externals \<Rightarrow> 'n Options \<Rightarrow> 'n round_trip" where
  "paced_base std options =
     (let base = baseTransport (http_Transport std) options
      in if SecondaryPacing options > 0
         then pacingTransport_RoundTrip (SecondaryPacing options) (the_clock options) base
         else base)"

definition New_prober :: "'n Options \<Rightarrow> string \<Rightarrow> 'n round_trip \<Rightarrow> 'n rateProber" where
  "New_prober options token base =
     (let probeStack = feedTransport_RoundTrip base;
          probeStack = retryTransport_RoundTrip (Retry_opts options) (the_clock options) probeStack
      in \<lparr>prober_next = probeStack, prober_token = token\<rparr>)"

definition New_stack :: "'n externals \<Rightarrow> 'n Options \<Rightarrow> url \<Rightarrow> 'n rateProber \<Rightarrow> 'n round_trip
    \<Rightarrow> 'n round_trip \<times> 'n ETagCache option" where
  "New_stack std options baseURL pr base =
     (let (stack, cache) =
        (case ETag_opts options of
           None \<Rightarrow> (base, None)
         | Some e \<Rightarrow> (case ETagCache_wrap (etag_NewTransport std) base (NewETagCache e) of
              (t, c) \<Rightarrow> (t, Some c)));
          stack = retryTransport_RoundTrip (Retry_opts options) (the_clock options) stack;
          stack = feedTransport_RoundTrip stack;
          stack = gateTransport_RoundTrip (url_Parse std) (RateLimit_opts options) (the_clock options)
                    pr (Some baseURL) stack
      in (stack, cache))"

definition New :: "'n externals \<Rightarrow> 'n Option option list \<Rightarrow> err + 'n Kernel" where
  "New std opts =
     (let options = resolveDefaults opts in
      case resolveToken (Quote std) (Getenv std) options of
        Inl e \<Rightarrow> Inl e
      | Inr token \<Rightarrow>
          (case ResolveBaseURL (url_Parse std) (BaseURL options) of
             Inl e \<Rightarrow> Inl e
           | Inr baseURL \<Rightarrow>
               let base = paced_base std options;
                   pr = New_prober options token base;
                   (stack, cache) = New_stack std options baseURL pr base
               in Inr \<lparr>client_token = token, client_BaseURL = baseURL,
                    client_UserAgent = (if UserAgent options \<noteq> [] then Some (UserAgent options) else None),
                    client_HTTP_Timeout = resolveTimeout options,
                    client_HTTP_Transport = stack, etagCache = cache, prober = pr,
                    kernel_rateLimit = RateLimit_opts options, kernel_clock = the_clock options\<rparr>))"

text \<open>The accessors; the shared rate cache and the prober's state are in the world.\<close>

definition Kernel_RateLimitSnapshot :: "'n Kernel \<Rightarrow> 'n world \<Rightarrow> RateLimitSnapshot \<times> bool" where
  "Kernel_RateLimitSnapshot k w = Get (w_cache w)"

definition Kernel_RefreshRateLimit :: "'n externals \<Rightarrow> 'n Kernel \<Rightarrow> ctx \<Rightarrow> 'n world
    \<Rightarrow> (err + RateLimitSnapshot) \<times> 'n world" where
  "Kernel_RefreshRateLimit std k c w =
     probe (url_Parse std) (kernel_clock k) (prober k) c (Some (client_BaseURL k)) w"

definition Kernel_ETagStats :: "('n round_trip \<Rightarrow> ETagStats) \<Rightarrow> 'n Kernel \<Rightarrow> ETagStats \<times> bool" where
  "Kernel_ETagStats stats k =
     (case etagCache k of None \<Rightarrow> (\<lparr>Hits = 0, Stored = 0, Entries = 0\<rparr>, False)
      | Some c \<Rightarrow> (ETagCache_Stats stats c, True))"

section \<open>The assembled stack keeps the contract\<close>

text \<open>The kernel's layers over any base transport and any clock that keep their contracts, with
  an ETag layer that preserves the RoundTripper contract.\<close>

locale kernel_stack = clock_laws clk + round_tripper base
  for clk :: "'n clock" and base :: "'n round_trip" +
  fixes etag :: "'n round_trip \<Rightarrow> 'n round_trip"
  assumes etag_keeps: "round_tripper rt \<Longrightarrow> round_tripper (etag rt)"
begin

definition assembled_base :: "duration \<Rightarrow> 'n round_trip" where
  "assembled_base interval = (if interval > 0 then pacingTransport_RoundTrip interval clk base else base)"

lemma base_contract: "round_tripper (assembled_base interval)"
  using pacing_stack.paced_round_tripper [OF pacing_stack.intro [OF clock_laws_axioms round_tripper_axioms]]
    round_tripper_axioms
  by (simp add: assembled_base_def)

lemma fed_contract: "round_tripper rt \<Longrightarrow> round_tripper (feedTransport_RoundTrip rt)"
  by (rule feed_stack.fed_round_tripper) (rule feed_stack.intro)

lemma retried_contract: "round_tripper rt \<Longrightarrow> round_tripper (retryTransport_RoundTrip opts clk rt)"
  by (rule retry_stack.retried_round_tripper) (rule retry_stack.intro [OF clock_laws_axioms])

lemma prober_contract:
  "round_tripper (retryTransport_RoundTrip opts clk (feedTransport_RoundTrip (assembled_base interval)))"
  by (intro retried_contract fed_contract base_contract)

lemma stack_contract:
  assumes "round_tripper (prober_next p)" "round_tripper inner"
  shows "round_tripper (gateTransport_RoundTrip parse rl clk p url
    (feedTransport_RoundTrip (retryTransport_RoundTrip opts clk inner)))"
  using assms
  by (intro gate_stack.gated_round_tripper gate_stack.intro clock_laws_axioms fed_contract retried_contract)

lemma etag_contract: "round_tripper (etag (assembled_base interval))"
  by (intro etag_keeps base_contract)

end

interpretation default_stack: kernel_stack wallClock "base_RoundTrip net" "\<lambda>rt. rt" for net :: "'n network"
  by (intro kernel_stack.intro kernel_stack_axioms.intro wall.clock_laws_axioms base.round_tripper_axioms)

section \<open>A small kernel\<close>

text \<open>Environment without variables, a \<open>url.Parse\<close> that always answers the API root, a network
  that always answers 200 and an ETag layer that does nothing.\<close>

definition plain_externals :: "nat externals" where
  "plain_externals = \<lparr>Getenv = (\<lambda>v. []), Quote = (\<lambda>s. s), url_Parse = (\<lambda>s. Inr example_url),
     http_Transport = (\<lambda>t. base_RoundTrip (always 200 [])), etag_NewTransport = (\<lambda>rt e. rt)\<rparr>"

lemma plain_options:
  "resolveDefaults [Some (WithPAT t)] = start_options\<lparr>Token := t\<rparr>"
  by (simp add: resolveDefaults_def Let_def WithPAT_def start_options_def)

lemma start_options_fields [simp]:
  "clock_opt start_options = Some wallClock" "HTTPClient start_options = None"
  "Retry_opts start_options = DefaultRetryOptions" "RateLimit_opts start_options = DefaultRateLimitOptions"
  "ETag_opts start_options = None" "SecondaryPacing start_options = 0" "BaseURL start_options = []"
  by (simp_all add: start_options_def)

lemma plain_kernel: "t \<noteq> [] \<Longrightarrow> \<exists>k. New plain_externals [Some (WithPAT t)] = Inr k"
  by (simp add: New_def plain_options resolveToken_def ResolveBaseURL_def plain_externals_def Let_def
      split: prod.splits)

section \<open>What a kernel promises\<close>

lemma paced_base_assembled:
  assumes "kernel_stack (the_clock options) (baseTransport (http_Transport std) options) etag"
  shows "paced_base std options = kernel_stack.assembled_base (the_clock options)
    (baseTransport (http_Transport std) options) (SecondaryPacing options)"
  by (simp add: paced_base_def Let_def kernel_stack.assembled_base_def [OF assms])

lemma New_fields:
  assumes "New std opts = Inr k"
  defines "o' \<equiv> resolveDefaults opts"
  shows "prober k = New_prober o' (client_token k) (paced_base std o')"
    "(client_HTTP_Transport k, etagCache k)
      = New_stack std o' (client_BaseURL k) (prober k) (paced_base std o')"
    "client_HTTP_Timeout k = resolveTimeout o'"
  using assms by (auto simp: New_def Let_def split: sum.splits prod.splits)

text \<open>The ETag layer a kernel has, or none.\<close>

definition etag_layer :: "'n externals \<Rightarrow> 'n Options \<Rightarrow> 'n round_trip \<Rightarrow> 'n round_trip" where
  "etag_layer std o' rt = (case ETag_opts o' of None \<Rightarrow> rt
     | Some e \<Rightarrow> etag_NewTransport std rt (etag_policy e))"

lemma New_transport:
  assumes "New std opts = Inr k"
  defines "o' \<equiv> resolveDefaults opts"
  shows "client_HTTP_Transport k = gateTransport_RoundTrip (url_Parse std) (RateLimit_opts o') (the_clock o')
      (prober k) (Some (client_BaseURL k))
      (feedTransport_RoundTrip (retryTransport_RoundTrip (Retry_opts o') (the_clock o')
        (etag_layer std o' (paced_base std o'))))"
    and "prober_next (prober k) = retryTransport_RoundTrip (Retry_opts o') (the_clock o')
      (feedTransport_RoundTrip (paced_base std o'))"
proof -
  have "client_HTTP_Transport k = fst (New_stack std o' (client_BaseURL k) (prober k) (paced_base std o'))"
    using New_fields(2) [OF assms(1)] by (metis fst_conv o'_def)
  then show "client_HTTP_Transport k = gateTransport_RoundTrip (url_Parse std) (RateLimit_opts o') (the_clock o')
      (prober k) (Some (client_BaseURL k))
      (feedTransport_RoundTrip (retryTransport_RoundTrip (Retry_opts o') (the_clock o')
        (etag_layer std o' (paced_base std o'))))"
    by (simp add: New_stack_def Let_def etag_layer_def ETagCache_wrap_def NewETagCache_def
        newETagTransport_def split: option.splits)
  show "prober_next (prober k) = retryTransport_RoundTrip (Retry_opts o') (the_clock o')
      (feedTransport_RoundTrip (paced_base std o'))"
    using New_fields(1) [OF assms(1)] by (simp add: New_prober_def o'_def)
qed

text \<open>C8. A kernel's transport is a RoundTripper that keeps the shared state well-formed.  For every
  configuration \<open>New\<close> accepts, over a base transport and a clock that keep their contracts and
  an ETag layer that preserves them, the whole stack and the prober's stack answer every request
  with a response or an error, never run time backwards, only add to the log, and keep the cached
  budget in range.\<close>

theorem kernel_keeps_contract:
  assumes "New std opts = Inr k"
    and "clock_laws (the_clock (resolveDefaults opts))"
    and "round_tripper (baseTransport (http_Transport std) (resolveDefaults opts))"
    and "\<And>rt e. round_tripper rt \<Longrightarrow> round_tripper (etag_NewTransport std rt (etag_policy e))"
  shows "round_tripper (client_HTTP_Transport k) \<and> round_tripper (prober_next (prober k))"
proof -
  let ?o = "resolveDefaults opts"
  have ks: "kernel_stack (the_clock ?o) (baseTransport (http_Transport std) ?o) (etag_layer std ?o)"
    using assms(2-4)
    by (intro kernel_stack.intro kernel_stack_axioms.intro) (auto simp: etag_layer_def split: option.splits)
  note pb = paced_base_assembled [OF ks]
  have "round_tripper (prober_next (prober k))"
    unfolding New_transport(2) [OF assms(1)] pb by (rule kernel_stack.prober_contract [OF ks])
  moreover have "round_tripper (client_HTTP_Transport k)"
    unfolding New_transport(1) [OF assms(1)] pb
    by (rule kernel_stack.stack_contract [OF ks \<open>round_tripper (prober_next (prober k))\<close>
          kernel_stack.etag_contract [OF ks]])
  ultimately show ?thesis by simp
qed

theorem kernel_keeps_contract_witness:
  "\<exists>k. New plain_externals [Some (WithPAT ''t'')] = Inr k
    \<and> round_tripper (client_HTTP_Transport k) \<and> round_tripper (prober_next (prober k))"
proof -
  obtain k where k: "New plain_externals [Some (WithPAT ''t'')] = Inr k"
    using plain_kernel by blast
  have clk: "clock_laws (the_clock (resolveDefaults [Some (WithPAT ''t'')] :: nat Options))"
    by (simp add: plain_options the_clock_def wall.clock_laws_axioms)
  have base: "round_tripper (baseTransport (http_Transport plain_externals) (resolveDefaults [Some (WithPAT ''t'')]))"
    by (simp add: plain_options plain_externals_def baseTransport_def base.round_tripper_axioms)
  have "round_tripper (client_HTTP_Transport k) \<and> round_tripper (prober_next (prober k))"
    by (rule kernel_keeps_contract [OF k clk base]) (simp add: plain_externals_def)
  with k show ?thesis by blast
qed

section \<open>A call the layers have no reason to touch\<close>

lemma pacing_free_slot:
  assumes "clock_laws clk" "0 < d" "w_reserved w \<le> w_now w"
    and "nxt req (w\<lparr>w_reserved := w_now w + d\<rparr>) = ((resp, None), w1)"
  shows "pacingTransport_RoundTrip d clk nxt req w = ((resp, None), w1)"
  using assms clock_laws.now_reads [OF assms(1), of w]
  by (simp add: pacingTransport_RoundTrip_def reserve_slot_def time_Before_def time_Add_def time_Sub_def
      clamp64_def Let_def)

lemma retry_first_answer:
  assumes "retry_Enabled opts \<Longrightarrow> \<exists>body. readBody (req_Body req) = Inr body"
    and "nxt req w = ((resp, e), w1)" "\<not> shouldRetry req resp e"
  shows "retryTransport_RoundTrip opts clk nxt req w = ((resp, e), w1)"
proof (cases "retry_Enabled opts")
  case True
  then obtain body where body: "readBody (req_Body req) = Inr body" using assms(1) by blast
  then show ?thesis
    using True assms(2,3) replay_readBody(1) [OF body]
    by (simp add: retryTransport_RoundTrip_def retry_loop.simps [of _ _ _ _ 0] Let_def)
qed (use assms(2) in \<open>simp add: retryTransport_RoundTrip_def\<close>)

lemma gate_above_floor:
  assumes "Get (w_cache w) = (snap, True)" "MinRemaining opts < Remaining snap" "rl_Enabled opts" "\<not> isRateLimitProbe req"
  shows "gateTransport_RoundTrip parse opts clk p base nxt req w = nxt req (w\<lparr>w_cache := Decrement 1 (w_cache w)\<rparr>)"
  using assms by (simp add: gateTransport_RoundTrip_def awaitBudget_def budget_decision_def)

text \<open>C33. A call in good order goes straight through.  In every kernel without an ETag cache, whatever
  other layers its options switch on: if the gate is off, or the request a probe, or the known budget
  above the floor; if pacing is off or the next slot free; and if the body can be read and the first
  answer is no reason to retry, then a call is one round trip of the base transport with the
  request as it is, made at once.  All the kernel adds is one request spent from the cached budget, the
  slot reserved, and what the answer's headers tell the cache.\<close>

theorem call_in_good_order_transparent:
  assumes "New std opts = Inr k" and o': "o' = resolveDefaults opts" and "clock_laws (the_clock o')" "ETag_opts o' = None"
    and gate: "gated = (rl_Enabled (RateLimit_opts o') \<and> \<not> isRateLimitProbe req)"
      "gated \<Longrightarrow> Get (w_cache w) = (snap, True) \<and> MinRemaining (RateLimit_opts o') < Remaining snap"
    and pace: "0 < SecondaryPacing o' \<Longrightarrow> w_reserved w \<le> w_now w"
    and body: "retry_Enabled (Retry_opts o') \<Longrightarrow> \<exists>body. readBody (req_Body req) = Inr body"
    and answer: "baseTransport (http_Transport std) o' req
      (w\<lparr>w_cache := (if gated then Decrement 1 (w_cache w) else w_cache w),
         w_reserved := (if 0 < SecondaryPacing o' then w_now w + SecondaryPacing o' else w_reserved w)\<rparr>)
      = ((Some resp, None), w1)"
      "StatusCode resp < 500" "StatusCode resp \<noteq> 429"
  shows "client_HTTP_Transport k req w
    = ((Some resp, None), w1\<lparr>w_cache := feed_response (Some resp) (w_cache w1)\<rparr>)"
proof -
  let ?w = "w\<lparr>w_cache := (if gated then Decrement 1 (w_cache w) else w_cache w)\<rparr>"
  have "paced_base std o' req ?w = ((Some resp, None), w1)"
  proof (cases "0 < SecondaryPacing o'")
    case True
    with answer(1) pacing_free_slot [OF assms(3) True, of ?w] pace show ?thesis
      by (simp add: paced_base_def)
  next
    case False
    with answer(1) show ?thesis by (simp add: paced_base_def)
  qed
  moreover have "\<not> shouldRetry req (Some resp) None" using answer(2,3) by (simp add: shouldRetry_def)
  ultimately have "retryTransport_RoundTrip (Retry_opts o') (the_clock o') (paced_base std o') req ?w = ((Some resp, None), w1)"
    using body by (intro retry_first_answer)
  then have fed: "feedTransport_RoundTrip (retryTransport_RoundTrip (Retry_opts o') (the_clock o') (paced_base std o')) req ?w
      = ((Some resp, None), w1\<lparr>w_cache := feed_response (Some resp) (w_cache w1)\<rparr>)"
    by (simp add: feedTransport_RoundTrip_def)
  have layer: "etag_layer std o' rt = rt" for rt using assms(4) by (simp add: etag_layer_def)
  show ?thesis
    unfolding New_transport(1) [OF assms(1), folded o'] layer
  proof (cases gated)
    case True
    with gate fed show "gateTransport_RoundTrip (url_Parse std) (RateLimit_opts o') (the_clock o') (prober k)
        (Some (client_BaseURL k)) (feedTransport_RoundTrip (retryTransport_RoundTrip (Retry_opts o') (the_clock o')
          (paced_base std o'))) req w
      = ((Some resp, None), w1\<lparr>w_cache := feed_response (Some resp) (w_cache w1)\<rparr>)"
      by (simp add: gate_above_floor)
  next
    case False
    with gate(1) fed show "gateTransport_RoundTrip (url_Parse std) (RateLimit_opts o') (the_clock o') (prober k)
        (Some (client_BaseURL k)) (feedTransport_RoundTrip (retryTransport_RoundTrip (Retry_opts o') (the_clock o')
          (paced_base std o'))) req w
      = ((Some resp, None), w1\<lparr>w_cache := feed_response (Some resp) (w_cache w1)\<rparr>)"
      by (auto simp: gateTransport_RoundTrip_def)
  qed
qed

definition fresh_world :: "nat world" where
  "fresh_world = example_world\<lparr>w_cache := Some \<lparr>snapshot =
     \<lparr>Limit = 5000, Remaining = 40, ResetAt = 3600 * second\<rparr>, known = True\<rparr>\<rparr>"

text \<open>The default kernel, gate and retry layer on, with forty requests left.\<close>

theorem call_in_good_order_transparent_witness:
  "\<exists>k w1. New plain_externals [Some (WithPAT ''t'')] = Inr k
    \<and> client_HTTP_Transport k (example_request ''POST'') fresh_world
      = ((Some (example_response 200 []), None), w1)
    \<and> sents (w_log w1) = [(example_request ''POST'', Some (example_response 200 []), None)]
    \<and> slepts (w_log w1) = [] \<and> Remaining (fst (Get (w_cache w1))) = 39"
proof -
  let ?o = "resolveDefaults [Some (WithPAT ''t'')] :: nat Options"
  let ?w0 = "fresh_world\<lparr>w_cache := Decrement 1 (w_cache fresh_world)\<rparr>"
  obtain k where k: "New plain_externals [Some (WithPAT ''t'')] = Inr k" using plain_kernel by blast
  obtain w1 where w1: "base_RoundTrip (always 200 []) (example_request ''POST'') ?w0 = ((Some (example_response 200 []), None), w1)"
    by (simp add: base_RoundTrip_def always_def Let_def)
  have log: "w_log w1 = [Sent (example_request ''POST'') (Some (example_response 200 []), None)]"
    using base.logs_once [OF w1] by (simp add: fresh_world_def example_world_def)
  have np: "\<not> isRateLimitProbe (example_request ''POST'')" by code_simp
  have o': "the_clock ?o = wallClock" "ETag_opts ?o = None" "SecondaryPacing ?o = 0"
    "RateLimit_opts ?o = DefaultRateLimitOptions" "baseTransport (http_Transport plain_externals) ?o = base_RoundTrip (always 200 [])"
    by (simp_all add: plain_options the_clock_def baseTransport_def plain_externals_def)
  have rl: "rl_Enabled DefaultRateLimitOptions" "MinRemaining DefaultRateLimitOptions < 40"
    by (simp_all add: DefaultRateLimitOptions_def defaultMinRemaining_def)
  have budget: "Get (w_cache fresh_world) = (\<lparr>Limit = 5000, Remaining = 40, ResetAt = 3600 * second\<rparr>, True)"
    by (simp add: fresh_world_def Get_def)
  have body: "\<exists>body. readBody (req_Body (example_request ''POST'')) = Inr body"
    by (intro exI [of _ "(''hello'', True)"]) (simp add: example_request_def readBody_def)
  have "client_HTTP_Transport k (example_request ''POST'') fresh_world = ((Some (example_response 200 []), None),
      w1\<lparr>w_cache := feed_response (Some (example_response 200 [])) (w_cache w1)\<rparr>)"
    by (rule call_in_good_order_transparent [OF k refl _ _ refl,
          where snap = "\<lparr>Limit = 5000, Remaining = 40, ResetAt = 3600 * second\<rparr>"])
      (use w1 np budget body in \<open>simp_all add: o' rl wall.clock_laws_axioms example_response_def\<close>)
  moreover have "Remaining (fst (Get (feed_response (Some (example_response 200 [])) (w_cache w1)))) = 39"
  proof -
    have "w_cache w1 = w_cache ?w0" using base.leaf_frame [OF w1] by simp
    moreover have "Remaining (fst (Get (feed_response (Some (example_response 200 [])) (w_cache ?w0)))) = 39" by code_simp
    ultimately show ?thesis by simp
  qed
  ultimately show ?thesis using k log by (intro exI conjI) auto
qed

end
