(* ===== verification/KernelCosts.thy ===== *)
theory KernelCosts
  imports KernelStack
begin

text \<open>
  What one API call through a kernel of \<open>src/client.go\<close> costs at most: one law about any cost of
  requests and waits, carried through every layer, and its two readings, the number of requests on
  the wire and the time spent waiting.
\<close>

section \<open>What one call costs\<close>

text \<open>A transport whose calls put requests on the wire and wait at a total cost of at most \<open>n\<close>.\<close>

locale call_bound =
  fixes rt :: "'n round_trip" and cost :: "request \<times> rt_result \<Rightarrow> nat" and pause :: "duration \<Rightarrow> nat" and n :: nat
  assumes bounded: "rt req w = (r, w') \<Longrightarrow> \<exists>tr. w_log w' = w_log w @ tr \<and> weight cost pause tr \<le> n"
begin

lemma feed_bound: "call_bound (feedTransport_RoundTrip rt) cost pause n"
  by unfold_locales (use bounded in \<open>fastforce simp: feedTransport_RoundTrip_def split: prod.splits\<close>)

lemma bounded_step:
  assumes "rt req w1 = (r, w')" "w_log w1 = w_log w @ tr1"
  shows "\<exists>tr. w_log w' = w_log w @ tr \<and> weight cost pause tr \<le> weight cost pause tr1 + n"
  using bounded [OF assms(1)] assms(2) by fastforce

end

locale timed_call_bound = call_bound rt cost pause n + clock_laws clk
  for rt :: "'n round_trip" and cost :: "request \<times> rt_result \<Rightarrow> nat" and pause :: "duration \<Rightarrow> nat" and n :: nat and clk :: "'n clock"
begin

lemma pacing_bound:
  assumes "\<And>d. pause d = 0"
  shows "call_bound (pacingTransport_RoundTrip interval clk rt) cost pause n"
proof
  fix req w r w'
  assume run: "pacingTransport_RoundTrip interval clk rt req w = (r, w')"
  have sl: "w_log w2 = w_log w1 @ [Slept d]" if "clk_sleep clk c d (w1\<lparr>w_reserved := t\<rparr>) = (x, w2)" for c d w1 t x w2
    using sleep_fields(4) [OF that] by simp
  have rs: "\<exists>tr. w_log w2 = w_log w1 @ tr \<and> weight cost pause tr \<le> n"
    if "rt q (w1\<lparr>w_reserved := t\<rparr>) = (x, w2)" for q w1 t x w2
    using bounded [OF that] by simp
  have sr: "\<exists>tr. w_log w3 = w_log w1 @ tr \<and> weight cost pause tr \<le> n"
    if "clk_sleep clk c d (w1\<lparr>w_reserved := t\<rparr>) = (x, w2)" "rt q w2 = (y, w3)" for c d w1 t x w2 q y w3
    using bounded_step [OF that(2) sl [OF that(1)]] assms by simp
  have s0: "\<exists>tr. w_log w2 = w_log w1 @ tr \<and> weight cost pause tr \<le> n"
    if "clk_sleep clk c d (w1\<lparr>w_reserved := t\<rparr>) = (x, w2)" for c d w1 t x w2
    using sl [OF that] assms by simp
  show "\<exists>tr. w_log w' = w_log w @ tr \<and> weight cost pause tr \<le> n"
    using run
    by (auto simp: pacingTransport_RoundTrip_def Let_def split: if_splits prod.splits option.splits
        intro: bounded rs sr s0)
qed

lemma retry_loop_bound:
  assumes "retry_loop opts clk rt body attempt backoff req w = (res, w')"
    and waits: "\<And>d. d \<le> MaxBackoff opts \<Longrightarrow> pause d \<le> c"
  shows "\<exists>tr. w_log w' = w_log w @ tr
    \<and> weight cost pause tr \<le> (1 + nat (MaxRetries opts - attempt)) * n + nat (MaxRetries opts - attempt) * c"
  using assms(1)
proof (induction rule: retry_loop_rounds)
  case (final attempt backoff req w resp e w')
  obtain tr where "w_log w' = w_log w @ tr" "weight cost pause tr \<le> n" using bounded [OF final(1)] by blast
  then show ?case by (intro exI [of _ tr]) simp
next
  case (interrupted attempt backoff req w resp e w1 x w')
  obtain tr where "w_log w1 = w_log w @ tr" "weight cost pause tr \<le> n" using bounded [OF interrupted(1)] by blast
  moreover have "pause (retry_delay opts backoff resp) \<le> c" by (rule waits) (rule retry_delay_le)
  moreover obtain m where "nat (MaxRetries opts - attempt) = Suc m"
    using interrupted(2) by (metis Suc_pred diff_gt_0_iff_gt not_le zero_less_nat_eq)
  ultimately show ?case
    using sleep_fields(4) [OF interrupted(4)]
    by (intro exI [of _ "tr @ closing resp @ [Slept (retry_delay opts backoff resp)]"]) simp
next
  case (again attempt backoff req w resp e w1 w2 res w')
  obtain tr where tr: "w_log w1 = w_log w @ tr" "weight cost pause tr \<le> n" using bounded [OF again(1)] by blast
  obtain tr2 where tr2: "w_log w' = w_log w2 @ tr2"
    "weight cost pause tr2 \<le> (1 + nat (MaxRetries opts - (attempt + 1))) * n + nat (MaxRetries opts - (attempt + 1)) * c"
    using again(5) by blast
  have "nat (MaxRetries opts - attempt) = Suc (nat (MaxRetries opts - (attempt + 1)))" using again(2) by simp
  moreover have "pause (retry_delay opts backoff resp) \<le> c" by (rule waits) (rule retry_delay_le)
  ultimately show ?case
    using tr tr2 sleep_fields(4) [OF again(4)]
    by (intro exI [of _ "tr @ closing resp @ Slept (retry_delay opts backoff resp) # tr2"]) simp
qed

lemma retry_bound:
  assumes "\<And>d. d \<le> MaxBackoff opts \<Longrightarrow> pause d \<le> c"
  shows "call_bound (retryTransport_RoundTrip opts clk rt) cost pause
    ((1 + nat (MaxRetries opts)) * n + nat (MaxRetries opts) * c)"
proof
  fix req w r w'
  assume run: "retryTransport_RoundTrip opts clk rt req w = (r, w')"
  show "\<exists>tr. w_log w' = w_log w @ tr
    \<and> weight cost pause tr \<le> (1 + nat (MaxRetries opts)) * n + nat (MaxRetries opts) * c"
  proof (cases "retry_Enabled opts")
    case True
    then show ?thesis
      using run retry_loop_bound [of opts _ 0, OF _ assms]
      by (auto simp: retryTransport_RoundTrip_def split: sum.splits)
  next
    case False
    then obtain tr where "w_log w' = w_log w @ tr" "weight cost pause tr \<le> n"
      using run bounded [of req w r w'] by (auto simp: retryTransport_RoundTrip_def)
    then show ?thesis by (intro exI [of _ tr]) simp
  qed
qed

lemma probe_bound:
  assumes "prober_next p = rt" "probe parse clk p c b w = (r, w')"
  shows "\<exists>tr. w_log w' = w_log w @ tr \<and> weight cost pause tr \<le> n"
proof -
  have la: "\<exists>tr. w_log w2 = w_log w1 @ tr \<and> weight cost pause tr \<le> n"
    if "rt q (w1\<lparr>w_lastAttempt := t\<rparr>) = (x, w2)" for q w1 t x w2
    using bounded [OF that] by simp
  have dc: "\<exists>tr. w_log (drainClose o' w2) = w_log w1 @ tr \<and> weight cost pause tr \<le> n"
    if "rt q (w1\<lparr>w_lastAttempt := t\<rparr>) = (x, w2)" for q w1 t x w2 o'
    using la [OF that] by fastforce
  show ?thesis
    using assms
    by (auto simp: probe_def Let_def split: option.splits prod.splits bool.splits sum.splits if_splits
        intro: la dc)
qed

end

lemma budget_decision_log:
  assumes "clock_laws clk" "budget_decision opts clk req s w = (e, w')"
    and "\<And>d. d \<le> MaxWait opts \<Longrightarrow> pause d \<le> g"
  shows "\<exists>tr. w_log w' = w_log w @ tr \<and> weight cost pause tr \<le> g"
  using assms(2,3)
  by (auto simp: budget_decision_def Let_def clock_laws.sleep_fields(4) [OF assms(1)] split: if_splits)

lemma gate_bound:
  assumes clk: "clock_laws clk" and p: "call_bound (prober_next p) cost pause n" and nxt: "call_bound nxt cost pause m"
    and waits: "\<And>d. d \<le> MaxWait opts \<Longrightarrow> pause d \<le> g"
  shows "call_bound (gateTransport_RoundTrip parse opts clk p base nxt) cost pause (n + g + m)"
proof
  fix req w r w'
  assume run: "gateTransport_RoundTrip parse opts clk p base nxt req w = (r, w')"
  have await: "\<exists>tr. w_log w1 = w_log w @ tr \<and> weight cost pause tr \<le> n + g"
    if aw: "awaitBudget parse opts clk p base req w = (e, w1)" for e w1
  proof -
    obtain pr w2 where pr: "probe parse clk p (req_Context req) base w = (pr, w2)" by fastforce
    obtain tr where tr: "w_log w2 = w_log w @ tr" "weight cost pause tr \<le> n"
      using timed_call_bound.probe_bound [OF timed_call_bound.intro [OF p clk] refl pr] by blast
    have bd: "\<exists>t. w_log w1 = w_log w @ t \<and> weight cost pause t \<le> n + g"
      if "budget_decision opts clk req s w3 = (e, w1)" "w_log w3 = w_log w @ t3" "weight cost pause t3 \<le> n" for s w3 t3
      using budget_decision_log [OF clk that(1) waits, where cost = cost] that(2,3) by fastforce
    show ?thesis
      using aw pr tr
      by (auto simp: awaitBudget_def split: prod.splits bool.splits sum.splits
          intro: bd [of _ w2 tr] bd [of _ w "[]"])
  qed
  have nx: "\<exists>tr. w_log w' = w_log w1 @ tr \<and> weight cost pause tr \<le> m"
    if "nxt req (w1\<lparr>w_cache := c\<rparr>) = (r, w')" for w1 c
    using call_bound.bounded [OF nxt that] by simp
  show "\<exists>tr. w_log w' = w_log w @ tr \<and> weight cost pause tr \<le> n + g + m"
  proof (cases "\<not> rl_Enabled opts \<or> isRateLimitProbe req")
    case True
    with run call_bound.bounded [OF nxt, of req w r w'] show ?thesis
      by (fastforce simp: gateTransport_RoundTrip_def)
  next
    case False
    obtain e w1 where aw: "awaitBudget parse opts clk p base req w = (e, w1)" by fastforce
    obtain tr1 where tr1: "w_log w1 = w_log w @ tr1" "weight cost pause tr1 \<le> n + g" using await [OF aw] by blast
    show ?thesis
    proof (cases e)
      case None
      with False aw run have "nxt req (w1\<lparr>w_cache := Decrement 1 (w_cache w1)\<rparr>) = (r, w')"
        by (simp add: gateTransport_RoundTrip_def)
      from nx [OF this] tr1 show ?thesis by fastforce
    next
      case (Some x)
      with False aw run tr1 show ?thesis by (intro exI [of _ tr1]) (auto simp: gateTransport_RoundTrip_def)
    qed
  qed
qed

interpretation wire_base: timed_call_bound "base_RoundTrip net" "\<lambda>s. 1" "\<lambda>d. 0" 1 wallClock for net :: "'n network"
proof
  fix req w r w'
  assume "base_RoundTrip net req w = (r, w')"
  then show "\<exists>tr. w_log w' = w_log w @ tr \<and> weight (\<lambda>s. 1) (\<lambda>d. 0) tr \<le> 1"
    using base.logs_once by fastforce
qed

text \<open>The base transport itself never waits.\<close>

interpretation wait_base: timed_call_bound "base_RoundTrip net" "\<lambda>s. 0" nat 0 wallClock for net :: "'n network"
proof
  fix req w r w'
  assume "base_RoundTrip net req w = (r, w')"
  then show "\<exists>tr. w_log w' = w_log w @ tr \<and> weight (\<lambda>s. 0) nat tr \<le> 0"
    using base.logs_once by fastforce
qed

lemma paced_call_bound:
  assumes "clock_laws (the_clock o')" "call_bound (baseTransport (http_Transport std) o') cost pause n"
    and "pause = (\<lambda>d. 0)"
  shows "call_bound (paced_base std o') cost pause n"
  using assms(2,3) timed_call_bound.pacing_bound [OF timed_call_bound.intro [OF assms(2,1)]]
  by (simp add: paced_base_def Let_def)

lemma New_prober_bound:
  assumes k: "New std opts = Inr k" and clk: "clock_laws (the_clock (resolveDefaults opts))"
    and base: "call_bound (paced_base std (resolveDefaults opts)) cost pause n"
    and waits: "\<And>d. d \<le> MaxBackoff (Retry_opts (resolveDefaults opts)) \<Longrightarrow> pause d \<le> c"
  shows "call_bound (prober_next (prober k)) cost pause
    ((1 + nat (MaxRetries (Retry_opts (resolveDefaults opts)))) * n
      + nat (MaxRetries (Retry_opts (resolveDefaults opts))) * c)"
  unfolding New_transport(2) [OF k]
  by (intro timed_call_bound.retry_bound timed_call_bound.intro call_bound.feed_bound clk base waits)

lemma New_call_bound:
  assumes k: "New std opts = Inr k" and clk: "clock_laws (the_clock (resolveDefaults opts))"
    and base: "call_bound (paced_base std (resolveDefaults opts)) cost pause n"
    and etag: "\<And>rt n e. call_bound rt cost pause n \<Longrightarrow>
      call_bound (etag_NewTransport std rt (etag_policy e)) cost pause n"
    and backoff: "\<And>d. d \<le> MaxBackoff (Retry_opts (resolveDefaults opts)) \<Longrightarrow> pause d \<le> c"
    and reset: "\<And>d. d \<le> MaxWait (RateLimit_opts (resolveDefaults opts)) \<Longrightarrow> pause d \<le> g"
  defines "m \<equiv> nat (MaxRetries (Retry_opts (resolveDefaults opts)))"
  shows "call_bound (client_HTTP_Transport k) cost pause (2 * ((1 + m) * n + m * c) + g)"
proof -
  let ?o = "resolveDefaults opts"
  note timed = timed_call_bound.intro [OF _ clk]
  have layer: "call_bound (etag_layer std ?o (paced_base std ?o)) cost pause n"
    using etag base by (simp add: etag_layer_def split: option.splits)
  have main: "call_bound (feedTransport_RoundTrip (retryTransport_RoundTrip (Retry_opts ?o) (the_clock ?o)
      (etag_layer std ?o (paced_base std ?o)))) cost pause ((1 + m) * n + m * c)"
    unfolding m_def by (intro call_bound.feed_bound timed_call_bound.retry_bound timed layer backoff)
  note gate = gate_bound [OF clk New_prober_bound [OF k clk base backoff, folded m_def] main reset]
  have twice: "2 * ((1 + m) * n + m * c) + g = (1 + m) * n + m * c + g + ((1 + m) * n + m * c)" by simp
  show ?thesis
    unfolding New_transport(1) [OF k] twice by (rule gate)
qed

text \<open>C6. One API call has a bounded request budget.  Over a base transport that sends one request
  per round trip, one call through a kernel's stack puts at most \<open>2 (1 + MaxRetries)\<close> requests on
  the wire, the lazy probe of the gate and its retries included.\<close>

theorem kernel_request_budget:
  assumes "New std opts = Inr k"
    and "clock_laws (the_clock (resolveDefaults opts))"
    and "call_bound (baseTransport (http_Transport std) (resolveDefaults opts)) (\<lambda>s. 1) (\<lambda>d. 0) 1"
    and "\<And>rt n e. call_bound rt (\<lambda>s. 1) (\<lambda>d. 0) n \<Longrightarrow>
      call_bound (etag_NewTransport std rt (etag_policy e)) (\<lambda>s. 1) (\<lambda>d. 0) n"
  shows "case client_HTTP_Transport k req w of (r, w') \<Rightarrow>
    length (sents (new_events w w')) \<le> 2 * (1 + nat (MaxRetries (Retry_opts (resolveDefaults opts))))"
  using call_bound.bounded [OF New_call_bound [OF assms(1,2) paced_call_bound [OF assms(2,3) refl] assms(4), of 0 0]]
  unfolding weight_one by (fastforce dest: new_eventsI)

theorem kernel_request_budget_witness:
  "\<exists>k. New plain_externals [Some (WithPAT ''t'')] = Inr k
    \<and> length (sents (new_events example_world
        (snd (client_HTTP_Transport k (example_request ''GET'') example_world)))) \<le> 8"
proof -
  obtain k where k: "New plain_externals [Some (WithPAT ''t'')] = Inr k"
    using plain_kernel by blast
  have clk: "clock_laws (the_clock (resolveDefaults [Some (WithPAT ''t'')] :: nat Options))"
    by (simp add: plain_options the_clock_def wall.clock_laws_axioms)
  have base: "call_bound (baseTransport (http_Transport plain_externals) (resolveDefaults [Some (WithPAT ''t'')]))
      (\<lambda>s. 1) (\<lambda>d. 0) 1"
    by (simp add: plain_options plain_externals_def baseTransport_def wire_base.call_bound_axioms del: One_nat_def)
  have "case client_HTTP_Transport k (example_request ''GET'') example_world of (r, w') \<Rightarrow>
    length (sents (new_events example_world w'))
      \<le> 2 * (1 + nat (MaxRetries (Retry_opts (resolveDefaults [Some (WithPAT ''t'')] :: nat Options))))"
    by (rule kernel_request_budget [OF k clk base]) (simp add: plain_externals_def)
  with k show ?thesis
    by (auto simp: plain_options DefaultRetryOptions_def defaultMaxRetries_def split: prod.splits)
qed

text \<open>C7. One API call is held up for a bounded time.  If a round trip of the base transport, paced
  or not, waits at most \<open>p\<close> nanoseconds, all waits of one call through a kernel, for the gate, the
  retries and the probe's retries, add up to at most \<open>MaxWait\<close>, twice \<open>MaxRetries\<close> times
  \<open>MaxBackoff\<close> and \<open>p\<close> for every attempt, whatever budget and \<open>Retry-After\<close> the server
  announces.\<close>

theorem kernel_waits_bounded:
  assumes "New std opts = Inr k"
    and "clock_laws (the_clock (resolveDefaults opts))"
    and "call_bound (paced_base std (resolveDefaults opts)) (\<lambda>s. 0) nat p"
    and "\<And>rt n e. call_bound rt (\<lambda>s. 0) nat n \<Longrightarrow>
      call_bound (etag_NewTransport std rt (etag_policy e)) (\<lambda>s. 0) nat n"
  shows "case (client_HTTP_Transport k req w, RateLimit_opts (resolveDefaults opts), Retry_opts (resolveDefaults opts)) of
    ((r, w'), gate, retry) \<Rightarrow> sum_list (map nat (slepts (new_events w w')))
      \<le> nat (MaxWait gate) + 2 * (nat (MaxRetries retry) * nat (MaxBackoff retry) + (1 + nat (MaxRetries retry)) * p)"
proof -
  let ?o = "resolveDefaults opts"
  have "d \<le> b \<Longrightarrow> nat d \<le> nat b" for d b :: int by simp
  from call_bound.bounded [OF New_call_bound [OF assms this this]]
  show ?thesis unfolding weight_waits by (fastforce dest: new_eventsI simp: algebra_simps)
qed

text \<open>A kernel with the default options holds a call up for at most eighteen minutes.\<close>

theorem kernel_waits_bounded_witness:
  "\<exists>k. New plain_externals [Some (WithPAT ''t'')] = Inr k
    \<and> sum_list (map nat (slepts (new_events example_world
        (snd (client_HTTP_Transport k (example_request ''GET'') example_world))))) \<le> nat (18 * minute)"
proof -
  obtain k where k: "New plain_externals [Some (WithPAT ''t'')] = Inr k"
    using plain_kernel by blast
  have clk: "clock_laws (the_clock (resolveDefaults [Some (WithPAT ''t'')] :: nat Options))"
    by (simp add: plain_options the_clock_def wall.clock_laws_axioms)
  have base: "call_bound (paced_base plain_externals (resolveDefaults [Some (WithPAT ''t'')])) (\<lambda>s. 0) nat 0"
    by (simp add: plain_options plain_externals_def paced_base_def baseTransport_def wait_base.call_bound_axioms)
  from kernel_waits_bounded [OF k clk base, where req = "example_request ''GET''" and w = example_world] k show ?thesis
    by (auto simp: plain_options plain_externals_def DefaultRetryOptions_def DefaultRateLimitOptions_def
        defaultMaxRetries_def defaultMaxBackoff_def defaultMaxWait_def split: prod.splits)
qed

end
