(* ===== verification/Jwt.thy ===== *)
theory Jwt
  imports Config "HOL-Library.Multiset"
begin

text \<open>
  \<open>src/appauth/jwt.go\<close>: GitHub App JWTs, with the standard library's unpadded base64url and the
  part of \<open>encoding/json\<close> that \<open>Sign\<close> uses (objects of ASCII keys with integer or string
  values).  RSA keys and signatures, PEM and X.509 parsing are the fields of \<open>crypto\<close>, and so is
  the order in which \<open>json.Marshal\<close> visits a map, which Go leaves open.  A byte string is a
  \<open>string\<close>.
\<close>

section \<open>Base64\<close>

text \<open>\<open>base64.RawURLEncoding\<close>: three bytes make four sextets, without padding.\<close>

fun sextets :: "nat list \<Rightarrow> nat list" where
  "sextets (a # b # c # bs) =
     [a div 4, (a mod 4) * 16 + b div 16, (b mod 16) * 4 + c div 64, c mod 64] @ sextets bs"
| "sextets [a, b] = [a div 4, (a mod 4) * 16 + b div 16, (b mod 16) * 4]"
| "sextets [a] = [a div 4, (a mod 4) * 16]"
| "sextets [] = []"

definition base64_alphabet :: string where
  "base64_alphabet = ''ABCDEFGHIJKLMNOPQRSTUVWXYZabcdefghijklmnopqrstuvwxyz0123456789-_''"

definition base64_encode :: "string \<Rightarrow> string" where
  "base64_encode s = map (\<lambda>d. base64_alphabet ! d) (sextets (map of_char s))"

text \<open>The decoder a reader of a JWT applies.\<close>

fun octets :: "nat list \<Rightarrow> nat list option" where
  "octets (w # x # y # z # ds) =
     map_option ((@) [w * 4 + x div 16, (x mod 16) * 16 + y div 4, (y mod 4) * 64 + z]) (octets ds)"
| "octets [w, x, y] = Some [w * 4 + x div 16, (x mod 16) * 16 + y div 4]"
| "octets [w, x] = Some [w * 4 + x div 16]"
| "octets [w] = None"
| "octets [] = Some []"

fun index_of :: "char \<Rightarrow> string \<Rightarrow> nat option" where
  "index_of c [] = None"
| "index_of c (d # ds) = (if c = d then Some 0 else map_option Suc (index_of c ds))"

fun base64_digits :: "string \<Rightarrow> nat list option" where
  "base64_digits [] = Some []"
| "base64_digits (c # cs) =
     (case index_of c base64_alphabet of None \<Rightarrow> None
      | Some d \<Rightarrow> map_option ((#) d) (base64_digits cs))"

definition base64_decode :: "string \<Rightarrow> string option" where
  "base64_decode s =
     (case base64_digits s of None \<Rightarrow> None | Some ds \<Rightarrow> map_option (map char_of) (octets ds))"

lemma octets_sextets: "list_all (\<lambda>b. b < 256) bs \<Longrightarrow> octets (sextets bs) = Some bs"
proof (induction bs rule: sextets.induct)
  case (1 a b c bs)
  then have "a < 256" "b < 256" "c < 256" "octets (sextets bs) = Some bs" by auto
  moreover have "(a mod 4 * 16 + b div 16) div 16 = a mod 4" "(a mod 4 * 16 + b div 16) mod 16 = b div 16"
    "(b mod 16 * 4 + c div 64) div 4 = b mod 16" "(b mod 16 * 4 + c div 64) mod 4 = c div 64"
    using calculation by auto
  ultimately show ?case by simp
next
  case (2 a b)
  then have "(a mod 4 * 16 + b div 16) div 16 = a mod 4" "(a mod 4 * 16 + b div 16) mod 16 = b div 16" by auto
  then show ?case by simp
qed auto

lemma sextets_small: "list_all (\<lambda>b. b < 256) bs \<Longrightarrow> list_all (\<lambda>d. d < 64) (sextets bs)"
proof (induction bs rule: sextets.induct)
  case (1 a b c bs)
  then have "a div 4 < 64" "b div 16 < 16" "c div 64 < 4" "list_all (\<lambda>d. d < 64) (sextets bs)" by auto
  moreover have "a mod 4 < 4" "b mod 16 < 16" "c mod 64 < 64" by auto
  ultimately have "a mod 4 * 16 + b div 16 < 64" "b mod 16 * 4 + c div 64 < 64" by linarith+
  with \<open>a div 4 < 64\<close> \<open>list_all (\<lambda>d. d < 64) (sextets bs)\<close> show ?case by simp
next
  case (2 a b)
  then have "a div 4 < 64" "b div 16 < 16" by auto
  moreover have "a mod 4 < 4" "b mod 16 < 16" by auto
  ultimately have "a mod 4 * 16 + b div 16 < 64" "b mod 16 * 4 < 64" by linarith+
  with \<open>a div 4 < 64\<close> show ?case by simp
qed auto

lemma index_of_nth: "distinct cs \<Longrightarrow> i < length cs \<Longrightarrow> index_of (cs ! i) cs = Some i"
  by (induction cs arbitrary: i) (auto simp: nth_Cons split: nat.splits)

lemma alphabet_facts: "distinct base64_alphabet" "length base64_alphabet = 64" "CHR ''.'' \<notin> set base64_alphabet"
  by (simp_all add: base64_alphabet_def)

lemma base64_digits_nth:
  "list_all (\<lambda>d. d < 64) ds \<Longrightarrow> base64_digits (map (\<lambda>d. base64_alphabet ! d) ds) = Some ds"
  by (induction ds) (simp_all add: index_of_nth alphabet_facts)

lemma bytes_small: "list_all (\<lambda>b. b < 256) (map (of_char :: char \<Rightarrow> nat) s)"
  by (simp add: list_all_iff)

text \<open>What is base64-encoded decodes to the same bytes.\<close>

theorem base64_roundtrip: "base64_decode (base64_encode s) = Some s"
  by (simp add: base64_decode_def base64_encode_def base64_digits_nth sextets_small bytes_small octets_sextets
      comp_def)

lemma base64_no_dot: "CHR ''.'' \<notin> set (base64_encode s)"
proof -
  have "list_all (\<lambda>d. d < 64) (sextets (map of_char s))" by (rule sextets_small [OF bytes_small])
  then have "set (base64_encode s) \<subseteq> set base64_alphabet"
    by (auto simp: base64_encode_def list_all_iff alphabet_facts(2))
  with alphabet_facts(3) show ?thesis by blast
qed

section \<open>JSON objects\<close>

text \<open>\<open>json.Marshal\<close> of a map with ASCII keys: fields with their encoded values, in the order
  they are visited.\<close>

definition json_string :: "string \<Rightarrow> string" where
  "json_string s = [CHR 0x22] @ s @ [CHR 0x22]"

fun json_fields :: "(string \<times> string) list \<Rightarrow> string" where
  "json_fields [] = []"
| "json_fields [(k, v)] = json_string k @ '':'' @ v"
| "json_fields ((k, v) # f # fs) = json_string k @ '':'' @ v @ '','' @ json_fields (f # fs)"

definition json_object :: "(string \<times> string) list \<Rightarrow> string" where
  "json_object fs = ''{'' @ json_fields fs @ ''}''"

section \<open>Signing\<close>

definition jwtTTL :: duration where "jwtTTL = 10 * minute"
definition jwtBackdate :: duration where "jwtBackdate = 60 * second"
definition tokenRefreshLead :: duration where "tokenRefreshLead = minute"

text \<open>\<open>Time.Unix\<close>.\<close>

definition Unix :: "time \<Rightarrow> int" where
  "Unix t = t div second - 62135596800"

definition ErrAppIDRequired :: err where "ErrAppIDRequired = OtherError ''appauth: app id is required''"
definition ErrInvalidPEM :: err where "ErrInvalidPEM = OtherError ''appauth: private key is not valid PEM''"

record 'key AppAuth =
  appID :: int
  privateKey :: 'key

text \<open>A PKCS#8 key is an RSA key or one of another type, known by its name.\<close>

record 'key crypto =
  pem_Decode :: "string \<Rightarrow> string option"
  ParsePKCS1PrivateKey :: "string \<Rightarrow> err + 'key"
  ParsePKCS8PrivateKey :: "string \<Rightarrow> err + ('key + string)"
  SignPKCS1v15 :: "'key \<Rightarrow> byte list \<Rightarrow> err + string"
  json_order :: "(string \<times> string) list \<Rightarrow> (string \<times> string) list"

definition NewAppAuth :: "'key crypto \<Rightarrow> int \<Rightarrow> string \<Rightarrow> err + 'key AppAuth" where
  "NewAppAuth cr app_id pemKey =
     (if app_id \<le> 0 then Inl ErrAppIDRequired
      else case pem_Decode cr pemKey of
        None \<Rightarrow> Inl ErrInvalidPEM
      | Some block \<Rightarrow>
          (case ParsePKCS1PrivateKey cr block of
             Inr key \<Rightarrow> Inr \<lparr>appID = app_id, privateKey = key\<rparr>
           | Inl _ \<Rightarrow>
               (case ParsePKCS8PrivateKey cr block of
                  Inr (Inl rsaKey) \<Rightarrow> Inr \<lparr>appID = app_id, privateKey = rsaKey\<rparr>
                | Inr (Inr type_name) \<Rightarrow>
                    Inl (Errorf ''%w: PKCS#8 key is %T, want RSA'' [ArgStr type_name] [ErrInvalidPEM])
                | Inl e \<Rightarrow> Inl (Errorf ''appauth: parse private key: %w'' [] [e]))))"

definition jwt_claims :: "'key AppAuth \<Rightarrow> time \<Rightarrow> (string \<times> int) list" where
  "jwt_claims a now =
     [(''iat'', Unix (time_Add now (- jwtBackdate))), (''exp'', Unix (time_Add now jwtTTL)), (''iss'', appID a)]"

definition jwt_header :: "(string \<times> string) list" where
  "jwt_header = [(''alg'', json_string ''RS256''), (''typ'', json_string ''JWT'')]"

text \<open>Marshalling these maps cannot fail, so the code's first two error branches are not
  reachable.\<close>

definition Sign :: "'key crypto \<Rightarrow> 'key AppAuth \<Rightarrow> time \<Rightarrow> err + string" where
  "Sign cr a now =
     (let claims = json_object (json_order cr (map (\<lambda>(k, v). (k, format_d v)) (jwt_claims a now)));
          header = json_object (json_order cr jwt_header);
          signingInput = base64_encode header @ ''.'' @ base64_encode claims;
          digest = sha256 signingInput
      in case SignPKCS1v15 cr (privateKey a) digest of
           Inl e \<Rightarrow> Inl (Errorf ''appauth: sign: %w'' [] [e])
         | Inr signature \<Rightarrow> Inr (signingInput @ ''.'' @ base64_encode signature))"

definition jwtValidUntil :: "time \<Rightarrow> time" where
  "jwtValidUntil now = time_Add now (jwtTTL - jwtBackdate - tokenRefreshLead)"

lemma jwtValidUntil_eq: "jwtValidUntil now = now + 480000000000"
  by (simp add: jwtValidUntil_def time_Add_def jwtTTL_def jwtBackdate_def tokenRefreshLead_def)

text \<open>What a reader does: cut at the dots and decode the parts.\<close>

fun split_dots :: "string \<Rightarrow> string list" where
  "split_dots [] = [[]]"
| "split_dots (c # cs) =
     (if c = CHR ''.'' then [] # split_dots cs
      else case split_dots cs of [] \<Rightarrow> [[c]] | s # ss \<Rightarrow> (c # s) # ss)"

lemma split_dots_append: "CHR ''.'' \<notin> set s \<Longrightarrow> split_dots (s @ CHR ''.'' # t) = s # split_dots t"
  by (induction s) auto

lemma split_dots_none: "CHR ''.'' \<notin> set s \<Longrightarrow> split_dots s = [s]"
  by (induction s) auto

lemma mset_eq_map: "mset es = mset (map f xs) \<Longrightarrow> \<exists>cs. es = map f cs \<and> mset cs = mset xs"
proof (induction es arbitrary: xs)
  case (Cons e es)
  then have "e \<in># mset (map f xs)" by (metis list.set_intros(1) set_mset_mset)
  then obtain x where x: "x \<in> set xs" "e = f x" by auto
  then have "mset (map f xs) = add_mset e (mset (map f (remove1 x xs)))"
    by (simp add: image_mset_Diff)
  with Cons.prems have "mset es = mset (map f (remove1 x xs))" by simp
  from Cons.IH [OF this] obtain cs where "es = map f cs" "mset cs = mset (remove1 x xs)" by blast
  with x show ?case by (intro exI [of _ "x # cs"]) simp
qed simp

text \<open>C27. A signed JWT reads back.  It has three parts that decode to a JSON header naming RS256, the
  JSON claims, each in an order of the fields, and the RSA signature of the SHA-256 digest of the
  first two parts as they stand in the token; the claims span eleven minutes around the time of
  signing and are issued by the app.\<close>

theorem Sign_reads_back:
  assumes "\<And>fs. mset (json_order cr fs) = mset fs" and "Sign cr a now = Inr token"
  shows "\<exists>hs cs sig. map base64_decode (split_dots token)
      = [Some (json_object hs), Some (json_object (map (\<lambda>(k, v). (k, format_d v)) cs)), Some sig]
    \<and> mset hs = mset jwt_header
    \<and> mset cs = {#(''iat'', Unix now - 60), (''exp'', Unix now + 600), (''iss'', appID a)#}
    \<and> SignPKCS1v15 cr (privateKey a) (sha256 (base64_encode (json_object hs) @ ''.''
        @ base64_encode (json_object (map (\<lambda>(k, v). (k, format_d v)) cs)))) = Inr sig"
proof -
  let ?enc = "\<lambda>(k :: string, v). (k, format_d v)"
  define hs where "hs = json_order cr jwt_header"
  define es where "es = json_order cr (map ?enc (jwt_claims a now))"
  obtain cs where cs: "es = map ?enc cs" "mset cs = mset (jwt_claims a now)"
  proof -
    have "mset es = mset (map ?enc (jwt_claims a now))" using assms(1) by (simp add: es_def)
    from mset_eq_map [OF this] that show ?thesis by blast
  qed
  obtain sig where sig: "SignPKCS1v15 cr (privateKey a) (sha256 (base64_encode (json_object hs) @ ''.''
      @ base64_encode (json_object es))) = Inr sig"
    and token: "token = base64_encode (json_object hs) @ ''.'' @ base64_encode (json_object es) @ ''.'' @ base64_encode sig"
    using assms(2) by (auto simp: Sign_def Let_def hs_def es_def split: sum.splits)
  have "split_dots token = [base64_encode (json_object hs), base64_encode (json_object es), base64_encode sig]"
    by (simp add: token split_dots_append split_dots_none base64_no_dot)
  moreover have "mset (jwt_claims a now)
      = {#(''iat'', Unix now - 60), (''exp'', Unix now + 600), (''iss'', appID a)#}"
  proof -
    have "(now - 60000000000) div 1000000000 = now div 1000000000 - 60"
      "(now + 600000000000) div 1000000000 = now div 1000000000 + 600"
      using div_mult_self1 [of "1000000000 :: int" now "- 60"] div_mult_self1 [of "1000000000 :: int" now 600]
      by simp_all
    then show ?thesis
      by (simp add: jwt_claims_def Unix_def time_Add_def jwtBackdate_def jwtTTL_def)
  qed
  moreover have "mset hs = mset jwt_header" using assms(1) by (simp add: hs_def)
  ultimately show ?thesis
    using sig cs
    by (intro exI [of _ hs] exI [of _ cs] exI [of _ sig] conjI) (simp_all add: base64_roundtrip)
qed

text \<open>A key that is its own name, and a signature that shows key and digest length.\<close>

definition example_crypto :: "string crypto" where
  "example_crypto = \<lparr>pem_Decode = Some, ParsePKCS1PrivateKey = Inr, ParsePKCS8PrivateKey = (\<lambda>s. Inl (OtherError s)),
     SignPKCS1v15 = (\<lambda>key digest. Inr key), json_order = rev\<rparr>"

definition example_app :: "string AppAuth" where
  "example_app = \<lparr>appID = 7, privateKey = ''key''\<rparr>"

theorem Sign_reads_back_witness:
  "\<exists>token. Sign example_crypto example_app 0 = Inr token \<and> length (split_dots token) = 3"
proof -
  have perm: "mset (json_order example_crypto fs) = mset fs" for fs by (simp add: example_crypto_def)
  obtain token where t: "Sign example_crypto example_app 0 = Inr token"
    by (simp add: Sign_def Let_def example_crypto_def)
  from Sign_reads_back [OF perm t] have "length (split_dots token) = 3"
    by (metis length_map list.size(3) length_Cons numeral_3_eq_3)
  with t show ?thesis by blast
qed

end
