(* ===== verification/AppAuthTransports.thy ===== *)
theory AppAuthTransports
  imports Jwt
begin

text \<open>
  \<open>src/appauth/transport.go\<close>: the JWT transport of the Apps API, the installation token source
  and its transport.  Each keeps a cached credential under a mutex that is held for the whole
  refresh, so calls are atomic and concurrent ones are a sequence.  A transport's credential lives
  beside the network's state in \<open>w_net\<close>.  Minting goes through go-github's \<open>AppsService\<close>,
  the argument \<open>mint\<close>; constructors take \<open>None\<close> for a nil argument.
\<close>

section \<open>Errors\<close>

definition ErrAppAuthRequired :: err where "ErrAppAuthRequired = OtherError ''appauth: app auth is required''"
definition ErrInstallationIDRequired :: err where
  "ErrInstallationIDRequired = OtherError ''appauth: installation id is required''"
definition ErrAppsServiceRequired :: err where "ErrAppsServiceRequired = OtherError ''appauth: apps service is required''"
definition ErrEmptyToken :: err where "ErrEmptyToken = OtherError ''appauth: minted token is empty''"
definition ErrTokenSourceRequired :: err where "ErrTokenSourceRequired = OtherError ''appauth: token source is required''"

section \<open>The app's JWT\<close>

record jwt_state =
  jwt :: string
  jwtGood :: time

record ('key, 'n) AppAuthTransport =
  at_app :: "'key AppAuth"
  at_base :: "'n round_trip"

definition fresh_jwt :: jwt_state where
  "fresh_jwt = \<lparr>jwt = [], jwtGood = zero_time\<rparr>"

definition NewAppAuthTransport :: "'n round_trip \<Rightarrow> 'key AppAuth option \<Rightarrow> 'n round_trip option
    \<Rightarrow> err + ('key, 'n) AppAuthTransport \<times> jwt_state" where
  "NewAppAuthTransport http_DefaultTransport app base =
     (case app of
        None \<Rightarrow> Inl ErrAppAuthRequired
      | Some a \<Rightarrow>
          let base = (case base of None \<Rightarrow> http_DefaultTransport | Some b \<Rightarrow> b)
          in Inr (\<lparr>at_app = a, at_base = base\<rparr>, fresh_jwt))"

definition currentJWT :: "'key crypto \<Rightarrow> 'key AppAuth \<Rightarrow> time \<Rightarrow> jwt_state \<Rightarrow> (err + string) \<times> jwt_state" where
  "currentJWT cr app now s =
     (if jwt s \<noteq> [] \<and> time_Before now (jwtGood s) then (Inr (jwt s), s)
      else case Sign cr app now of
          Inl e \<Rightarrow> (Inl e, s)
        | Inr tok \<Rightarrow> (Inr tok, \<lparr>jwt = tok, jwtGood = jwtValidUntil now\<rparr>))"

definition set_bearer :: "string \<Rightarrow> request \<Rightarrow> request" where
  "set_bearer token req = req\<lparr>req_Header := header_Set ''Authorization'' (''Bearer '' @ token) (req_Header req)\<rparr>"

definition AppAuthTransport_RoundTrip :: "'key crypto \<Rightarrow> ('key, jwt_state \<times> 'm) AppAuthTransport
    \<Rightarrow> (jwt_state \<times> 'm) round_trip" where
  "AppAuthTransport_RoundTrip cr t req w =
     (case currentJWT cr (at_app t) (w_now w) (fst (w_net w)) of (tok, s) \<Rightarrow>
        let w = w\<lparr>w_net := (s, snd (w_net w))\<rparr>
        in case tok of
             Inl e \<Rightarrow> ((None, Some (Errorf ''appauth: sign app jwt: %w'' [] [e])), w)
           | Inr token \<Rightarrow>
               (case at_base t (set_bearer token req) w of
                  ((resp, Some e), w) \<Rightarrow> ((None, Some (Errorf ''appauth: round trip as app: %w'' [] [e])), w)
                | ((resp, None), w) \<Rightarrow> ((resp, None), w)))"

text \<open>The go-github client of \<open>NewAppsClient\<close>: its transport, and its base URL where one is given.\<close>

definition NewAppsClient :: "(string \<Rightarrow> err + url) \<Rightarrow> 'n round_trip \<Rightarrow> 'key AppAuth option \<Rightarrow> string
    \<Rightarrow> err + (('key, 'n) AppAuthTransport \<times> jwt_state) \<times> url option" where
  "NewAppsClient parse http_DefaultTransport app baseURL =
     (case NewAppAuthTransport http_DefaultTransport app None of
        Inl e \<Rightarrow> Inl e
      | Inr tr \<Rightarrow>
          if baseURL \<noteq> [] then
            (case ResolveBaseURL parse baseURL of
               Inl e \<Rightarrow> Inl (Errorf ''appauth: resolve base URL %q: %w'' [ArgStr baseURL] [e])
             | Inr parsed \<Rightarrow> Inr (tr, Some parsed))
          else Inr (tr, None))"

section \<open>Installation tokens\<close>

record token_state =
  token :: string
  good :: time

text \<open>go-github's \<open>InstallationToken\<close> through its getters: an absent token is empty, an absent
  expiry the zero time.\<close>

record minted =
  GetToken :: string
  GetExpiresAt :: time

type_synonym 'n mint = "ctx \<Rightarrow> int \<Rightarrow> 'n world \<Rightarrow> (err + minted) \<times> 'n world"

record 'n InstallationTokenSource =
  installationID :: int
  apps :: "'n mint"

definition fresh_token :: token_state where
  "fresh_token = \<lparr>token = [], good = zero_time\<rparr>"

definition NewInstallationTokenSource :: "int \<Rightarrow> 'n mint option \<Rightarrow> err + 'n InstallationTokenSource \<times> token_state" where
  "NewInstallationTokenSource installation_id service =
     (if installation_id \<le> 0 then Inl ErrInstallationIDRequired
      else case service of
          None \<Rightarrow> Inl ErrAppsServiceRequired
        | Some m \<Rightarrow> Inr (\<lparr>installationID = installation_id, apps = m\<rparr>, fresh_token))"

definition mint_token :: "(token_state \<times> 'm) InstallationTokenSource \<Rightarrow> ctx
    \<Rightarrow> (token_state \<times> 'm) world \<Rightarrow> (err + string) \<times> (token_state \<times> 'm) world" where
  "mint_token src c w =
     (case apps src c (installationID src) w of
        (Inl e, w) \<Rightarrow>
          (Inl (Errorf ''appauth: mint token for installation %d: %w'' [ArgInt (installationID src)] [e]), w)
      | (Inr m, w) \<Rightarrow>
          if GetToken m = [] then (Inl ErrEmptyToken, w)
          else
            let good' = time_Add (GetExpiresAt m) (- tokenRefreshLead);
                good' = (if \<not> time_Before (w_now w) good' then w_now w else good')
            in (Inr (GetToken m),
                w\<lparr>w_net := (\<lparr>token = GetToken m, good = good'\<rparr>, snd (w_net w))\<rparr>))"

definition InstallationTokenSource_Token :: "(token_state \<times> 'm) InstallationTokenSource \<Rightarrow> ctx
    \<Rightarrow> (token_state \<times> 'm) world \<Rightarrow> (err + string) \<times> (token_state \<times> 'm) world" where
  "InstallationTokenSource_Token src c w =
     (let s = fst (w_net w)
      in if token s \<noteq> [] \<and> time_Before (w_now w) (good s) then (Inr (token s), w)
         else mint_token src c w)"

record 'n InstallationTokenTransport =
  it_src :: "'n InstallationTokenSource"
  it_base :: "'n round_trip"

definition NewInstallationTokenTransport :: "'n round_trip \<Rightarrow> 'n InstallationTokenSource option
    \<Rightarrow> 'n round_trip option \<Rightarrow> err + 'n InstallationTokenTransport" where
  "NewInstallationTokenTransport http_DefaultTransport src base =
     (case src of
        None \<Rightarrow> Inl ErrTokenSourceRequired
      | Some s \<Rightarrow>
          let base = (case base of None \<Rightarrow> http_DefaultTransport | Some b \<Rightarrow> b)
          in Inr \<lparr>it_src = s, it_base = base\<rparr>)"

definition InstallationTokenTransport_RoundTrip :: "(token_state \<times> 'm) InstallationTokenTransport
    \<Rightarrow> (token_state \<times> 'm) round_trip" where
  "InstallationTokenTransport_RoundTrip t req w =
     (case InstallationTokenSource_Token (it_src t) (req_Context req) w of
        (Inl e, w) \<Rightarrow> ((None, Some (Errorf ''appauth: installation token: %w'' [] [e])), w)
      | (Inr tok, w) \<Rightarrow>
          (case it_base t (set_bearer tok req) w of
             ((resp, Some e), w) \<Rightarrow> ((None, Some (Errorf ''appauth: round trip as installation: %w'' [] [e])), w)
           | ((resp, None), w) \<Rightarrow> ((resp, None), w)))"

section \<open>The transports keep the RoundTripper contract\<close>

lemma world_step_net [simp]: "world_step w (w\<lparr>w_net := n\<rparr>)"
  by (simp add: world_step_def)

locale app_transport = round_tripper base for base :: "(jwt_state \<times> 'm) round_trip"
begin

sublocale authenticated: round_tripper "AppAuthTransport_RoundTrip cr \<lparr>at_app = app, at_base = base\<rparr>" for cr app
proof
  fix req :: request and w w' :: "(jwt_state \<times> 'm) world" and r
  assume run: "AppAuthTransport_RoundTrip cr \<lparr>at_app = app, at_base = base\<rparr> req w = (r, w')"
  have nx: "world_step w1 w2" if "base q (w1\<lparr>w_net := n\<rparr>) = (x, w2)" for q w1 n x w2
    using time_flows [OF that] log_grows [OF that] keeps_cache [OF that] by (simp add: world_step_def)
  have step: "world_step w w'"
    using run by (auto simp: AppAuthTransport_RoundTrip_def Let_def split: prod.splits sum.splits option.splits
        intro: nx)
  then show "w_now w \<le> w_now w'" "prefix (w_log w) (w_log w')" "cache_ok (w_cache w) \<Longrightarrow> cache_ok (w_cache w')"
    by (simp_all add: world_step_def)
next
  fix req :: request and w w' :: "(jwt_state \<times> 'm) world" and resp eo
  assume run: "AppAuthTransport_RoundTrip cr \<lparr>at_app = app, at_base = base\<rparr> req w = ((resp, eo), w')"
  show "resp \<noteq> None \<or> eo \<noteq> None"
    using run by (auto simp: AppAuthTransport_RoundTrip_def Let_def
        split: prod.splits sum.splits option.splits dest: answers)
qed

end

interpretation app_over_base: app_transport "base_RoundTrip net" for net :: "(jwt_state \<times> 'm) network"
  by unfold_locales

lemma installation_round_tripper:
  assumes base: "round_tripper (base :: (token_state \<times> 'm) round_trip)"
    and mint: "\<And>c i w r w'. mint c i w = (r, w') \<Longrightarrow> world_step w w'"
  shows "round_tripper (InstallationTokenTransport_RoundTrip
    \<lparr>it_src = \<lparr>installationID = i, apps = mint\<rparr>, it_base = base\<rparr>)"
proof -
  have nx: "world_step w w'" if "base q w = (x, w')" for q w x w'
    using round_tripper.time_flows [OF base that] round_tripper.log_grows [OF base that]
      round_tripper.keeps_cache [OF base that] by (simp add: world_step_def)
  have net: "world_step w (w1\<lparr>w_net := n\<rparr>) \<longleftrightarrow> world_step w w1" for w w1 :: "(token_state \<times> 'm) world" and n
    by (simp add: world_step_def)
  have tok: "world_step w w'"
    if "InstallationTokenSource_Token \<lparr>installationID = i, apps = mint\<rparr> c w = (r, w')" for c w r w'
    using that by (auto simp: InstallationTokenSource_Token_def mint_token_def Let_def net
        split: if_splits prod.splits sum.splits intro: mint)
  show ?thesis
  proof
    fix req :: request and w w' :: "(token_state \<times> 'm) world" and r
    assume run: "InstallationTokenTransport_RoundTrip
      \<lparr>it_src = \<lparr>installationID = i, apps = mint\<rparr>, it_base = base\<rparr> req w = (r, w')"
    have "world_step w w'"
      using run by (auto simp: InstallationTokenTransport_RoundTrip_def split: prod.splits sum.splits option.splits
          intro: tok world_step_trans [OF tok nx])
    then show "w_now w \<le> w_now w'" "prefix (w_log w) (w_log w')" "cache_ok (w_cache w) \<Longrightarrow> cache_ok (w_cache w')"
      by (simp_all add: world_step_def)
  next
    fix req :: request and w w' :: "(token_state \<times> 'm) world" and resp eo
    assume run: "InstallationTokenTransport_RoundTrip
      \<lparr>it_src = \<lparr>installationID = i, apps = mint\<rparr>, it_base = base\<rparr> req w = ((resp, eo), w')"
    show "resp \<noteq> None \<or> eo \<noteq> None"
      using run by (auto simp: InstallationTokenTransport_RoundTrip_def
          split: prod.splits sum.splits option.splits dest: round_tripper.answers [OF base])
  qed
qed

section \<open>Histories of calls\<close>

text \<open>The calls of \<open>currentJWT\<close> in the order the mutex grants them, by the times they read, and the
  times at which they sign.\<close>

fun currentJWTs :: "'key crypto \<Rightarrow> 'key AppAuth \<Rightarrow> time list \<Rightarrow> jwt_state \<Rightarrow> (err + string) list" where
  "currentJWTs cr app [] s = []"
| "currentJWTs cr app (t # ts) s =
     (case currentJWT cr app t s of (r, s') \<Rightarrow> r # currentJWTs cr app ts s')"

fun jwt_signings :: "'key crypto \<Rightarrow> 'key AppAuth \<Rightarrow> time list \<Rightarrow> jwt_state \<Rightarrow> time list" where
  "jwt_signings cr app [] s = []"
| "jwt_signings cr app (t # ts) s =
     (if jwt s \<noteq> [] \<and> time_Before t (jwtGood s) then [] else [t])
       @ jwt_signings cr app ts (snd (currentJWT cr app t s))"

definition jwt_cached :: "'key crypto \<Rightarrow> 'key AppAuth \<Rightarrow> time \<Rightarrow> jwt_state \<Rightarrow> bool" where
  "jwt_cached cr app now s \<longleftrightarrow> jwt s = []
     \<or> (\<exists>t0. t0 \<le> now \<and> Sign cr app t0 = Inr (jwt s) \<and> jwtGood s = t0 + 480000000000)"

lemma Sign_nonempty: "Sign cr app t = Inr tok \<Longrightarrow> tok \<noteq> []"
  by (auto simp: Sign_def Let_def split: sum.splits)

lemma currentJWT_cached:
  assumes "jwt_cached cr app now s" "currentJWT cr app now s = (r, s')"
  shows "jwt_cached cr app now s'"
  using assms by (auto simp: currentJWT_def jwt_cached_def jwtValidUntil_eq split: if_splits sum.splits)

lemma jwt_cached_later: "jwt_cached cr app t s \<Longrightarrow> t \<le> u \<Longrightarrow> jwt_cached cr app u s"
  by (auto simp: jwt_cached_def intro: order_trans)

lemma currentJWT_result:
  assumes "jwt_cached cr app t s" "currentJWT cr app t s = (r, s')"
  shows "case r of Inl e \<Rightarrow> Sign cr app t = Inl e
    | Inr tok \<Rightarrow> \<exists>t0. Sign cr app t0 = Inr tok \<and> t0 \<le> t \<and> t + 2 * minute < t0 + jwtTTL"
  using assms
  by (fastforce simp: currentJWT_def jwt_cached_def jwtTTL_def time_Before_def split: if_splits sum.splits)

lemma currentJWTs_fresh:
  assumes "sorted (now # ts)" "jwt_cached cr app now s"
  shows "list_all2 (\<lambda>t r. case r of Inl e \<Rightarrow> Sign cr app t = Inl e
    | Inr tok \<Rightarrow> \<exists>t0. Sign cr app t0 = Inr tok \<and> t0 \<le> t \<and> t + 2 * minute < t0 + jwtTTL) ts (currentJWTs cr app ts s)"
  using assms
proof (induction ts arbitrary: now s)
  case (Cons t ts)
  obtain r s' where c: "currentJWT cr app t s = (r, s')" by fastforce
  have ok: "jwt_cached cr app t s" using Cons.prems jwt_cached_later by auto
  have "sorted (t # ts)" using Cons.prems by simp
  from Cons.IH [OF this currentJWT_cached [OF ok c]] currentJWT_result [OF ok c] c show ?case
    by (cases r) simp_all
qed simp

text \<open>C26. A JWT is never used close to its expiry.  In any history of requests, each one either
  fails with the error of signing at its own time, or carries a token signed by the app at an
  earlier or equal time, with more than two of its ten minutes left.\<close>

theorem app_jwts_always_fresh:
  assumes "sorted ts"
  shows "list_all2 (\<lambda>t r. case r of Inl e \<Rightarrow> Sign cr app t = Inl e
      | Inr tok \<Rightarrow> \<exists>t0. Sign cr app t0 = Inr tok \<and> t0 \<le> t \<and> t + 2 * minute < t0 + jwtTTL)
    ts (currentJWTs cr app ts fresh_jwt)"
proof (cases ts)
  case (Cons t ts')
  then have "sorted (t # ts)" using assms by simp
  moreover have "jwt_cached cr app t fresh_jwt" by (simp add: jwt_cached_def fresh_jwt_def)
  ultimately show ?thesis by (rule currentJWTs_fresh)
qed simp

theorem app_jwts_always_fresh_witness:
  "length (currentJWTs example_crypto example_app [0, 5 * minute, 9 * minute] fresh_jwt) = 3"
  using list_all2_lengthD [OF app_jwts_always_fresh [of "[0, 5 * minute, 9 * minute]" example_crypto example_app]]
  by simp

lemma jwt_signings_spaced:
  assumes "sorted (now # ts)" "jwt_cached cr app now s" "\<And>t. \<exists>tok. Sign cr app t = Inr tok"
  shows "spaced (8 * minute) (jwt_signings cr app ts s)
    \<and> (jwt s = [] \<or> list_all (\<lambda>t. jwtGood s \<le> t) (jwt_signings cr app ts s))"
  using assms(1,2)
proof (induction ts arbitrary: now s)
  case (Cons t ts)
  obtain r s' where c: "currentJWT cr app t s = (r, s')" by fastforce
  have ok: "jwt_cached cr app t s" using Cons.prems jwt_cached_later by auto
  have srt: "sorted (t # ts)" using Cons.prems by simp
  note ih = Cons.IH [OF srt currentJWT_cached [OF ok c]]
  show ?case
  proof (cases "jwt s \<noteq> [] \<and> time_Before t (jwtGood s)")
    case True
    with c have "s' = s" by (simp add: currentJWT_def)
    with ih True c show ?thesis by simp
  next
    case False
    obtain tok where tok: "Sign cr app t = Inr tok" using assms(3) by blast
    have s': "s' = \<lparr>jwt = tok, jwtGood = t + 480000000000\<rparr>"
      using c False tok by (auto simp: currentJWT_def jwtValidUntil_eq)
    have later: "list_all (\<lambda>u. t + 480000000000 \<le> u) (jwt_signings cr app ts s')"
      using ih s' Sign_nonempty [OF tok] by simp
    have "jwt s = [] \<or> jwtGood s \<le> t" using False by (auto simp: time_Before_def)
    moreover have "spaced (8 * minute) (t # jwt_signings cr app ts s')"
      using ih later by (cases "jwt_signings cr app ts s'") (auto simp: spaced_def)
    moreover have "list_all (\<lambda>u. jwtGood s \<le> u) (jwt_signings cr app ts s')" if "jwtGood s \<le> t"
      using later that by (auto simp: list_all_iff)
    ultimately show ?thesis using False c by auto
  qed
qed (simp add: spaced_def)

text \<open>The app signs sparingly.  As long as signing succeeds, two signings in any history of
  requests are at least eight minutes apart.\<close>

theorem app_signs_sparingly:
  assumes "sorted ts" and "\<And>t. \<exists>tok. Sign cr app t = Inr tok"
  shows "spaced (8 * minute) (jwt_signings cr app ts fresh_jwt)"
proof (cases ts)
  case (Cons t ts')
  then have "sorted (t # ts)" using assms by simp
  moreover have "jwt_cached cr app t fresh_jwt" by (simp add: jwt_cached_def fresh_jwt_def)
  ultimately show ?thesis using jwt_signings_spaced assms(2) by blast
qed (simp add: spaced_def)

theorem app_signs_sparingly_witness:
  "spaced (8 * minute) (jwt_signings example_crypto example_app [0, 5 * minute, 9 * minute] fresh_jwt)"
  by (rule app_signs_sparingly) (simp_all add: Sign_def Let_def example_crypto_def)

section \<open>The installation token's window\<close>

text \<open>The calls of \<open>Token\<close> in the order the mutex grants them, each no earlier than its time.\<close>

definition advance :: "time \<Rightarrow> 'n world \<Rightarrow> 'n world" where
  "advance t w = w\<lparr>w_now := max (w_now w) t\<rparr>"

fun token_calls :: "(token_state \<times> 'm) InstallationTokenSource \<Rightarrow> (ctx \<times> time) list
    \<Rightarrow> (token_state \<times> 'm) world \<Rightarrow> (err + string) list \<times> (token_state \<times> 'm) world" where
  "token_calls src [] w = ([], w)"
| "token_calls src ((c, t) # cs) w =
     (case InstallationTokenSource_Token src c (advance t w) of (r, w1) \<Rightarrow>
        case token_calls src cs w1 of (rs, w2) \<Rightarrow> (r # rs, w2))"

text \<open>C24. A cached installation token is used exactly while it has more than a minute left.  After
  a mint, a later call returns the same token without contacting GitHub if its own time is more
  than a minute before the expiry GitHub gave, however far away that is, and mints again
  otherwise.\<close>

theorem installation_token_window:
  assumes "mint_token src c w = (Inr tok, w1)" and "apps src c (installationID src) w = (Inr m, w0)"
    and "fst (w_net w2) = fst (w_net w1)" and "w_now w1 \<le> w_now w2"
  shows "tok = GetToken m \<and> tok \<noteq> []
    \<and> InstallationTokenSource_Token src c' w2
      = (if w_now w2 + minute < GetExpiresAt m then (Inr tok, w2) else mint_token src c' w2)"
proof -
  have w1: "GetToken m \<noteq> []" "tok = GetToken m" "w_now w1 = w_now w0"
    "fst (w_net w1) = \<lparr>token = tok, good = max (GetExpiresAt m - minute) (w_now w0)\<rparr>"
    using assms(1,2)
    by (auto simp: mint_token_def Let_def time_Before_def time_Add_def tokenRefreshLead_def split: if_splits)
  with assms(3,4) show ?thesis
    by (auto simp: InstallationTokenSource_Token_def Let_def time_Before_def)
qed

text \<open>A token GitHub is said to have given 48 hours, reused after 47.\<close>

definition two_day_source :: "(token_state \<times> nat) InstallationTokenSource" where
  "two_day_source = \<lparr>installationID = 9,
     apps = (\<lambda>c i w. (Inr \<lparr>GetToken = ''ghs'', GetExpiresAt = w_now w + 2880 * minute\<rparr>, w))\<rparr>"

definition app_world :: "(token_state \<times> nat) world" where
  "app_world = \<lparr>w_now = 0, w_cache = None, w_lastAttempt = 0, w_reserved = 0, w_log = [], w_chance = on_time,
     w_net = (fresh_token, 0)\<rparr>"

theorem installation_token_window_witness:
  "\<exists>w1. mint_token two_day_source Background app_world = (Inr ''ghs'', w1)
    \<and> fst (InstallationTokenSource_Token two_day_source Background (advance (2820 * minute) w1)) = Inr ''ghs''"
proof -
  obtain w1 where m: "mint_token two_day_source Background app_world = (Inr ''ghs'', w1)" and now: "w_now w1 = 0"
    by (simp add: mint_token_def two_day_source_def Let_def app_world_def)
  have a: "apps two_day_source Background (installationID two_day_source) app_world
      = (Inr \<lparr>GetToken = ''ghs'', GetExpiresAt = 2880 * minute\<rparr>, app_world)"
    by (simp add: two_day_source_def app_world_def)
  have "fst (w_net (advance (2820 * minute) w1)) = fst (w_net w1)" "w_now w1 \<le> w_now (advance (2820 * minute) w1)"
    by (simp_all add: advance_def)
  from installation_token_window [OF m a this, of Background] m now show ?thesis
    by (simp add: advance_def)
qed

text \<open>C25. Callers share a mint.  However many calls follow while the token is good, in whatever order
  the mutex lets them through, all return the same token, and nothing happens but time passing: no
  second mint.\<close>

theorem installation_token_shared:
  assumes "mint_token src c w = (Inr tok, w1)" and "list_all (\<lambda>(c, t). t < good (fst (w_net w1))) cs"
    and "w_now w1 < good (fst (w_net w1))"
  shows "\<exists>t. token_calls src cs w1 = (replicate (length cs) (Inr tok), advance t w1)"
proof -
  have tok: "token (fst (w_net w1)) = tok" "tok \<noteq> []"
    using assms(1) by (auto simp: mint_token_def Let_def split: prod.splits sum.splits if_splits)
  have "\<exists>u. token_calls src cs (advance t w1) = (replicate (length cs) (Inr tok), advance u w1)"
    if "t < good (fst (w_net w1))" for t
    using assms(2) that
  proof (induction cs arbitrary: t)
    case Nil
    then show ?case by auto
  next
    case (Cons ct cs)
    obtain c' t' where ct: "ct = (c', t')" by fastforce
    have adv: "advance t' (advance t w1) = advance (max t t') w1" by (simp add: advance_def max.assoc)
    have "InstallationTokenSource_Token src c' (advance (max t t') w1) = (Inr tok, advance (max t t') w1)"
      using tok Cons.prems assms(3) ct
      by (simp add: InstallationTokenSource_Token_def Let_def advance_def time_Before_def)
    moreover obtain u where "token_calls src cs (advance (max t t') w1) = (replicate (length cs) (Inr tok), advance u w1)"
      using Cons.IH [of "max t t'"] Cons.prems ct by auto
    ultimately show ?case using ct adv by auto
  qed
  from this [OF assms(3)] show ?thesis by (simp add: advance_def)
qed

theorem installation_token_shared_witness:
  "\<exists>w1. fst (token_calls two_day_source [(Background, minute), (Background, 2 * minute)] w1)
    = [Inr ''ghs'', Inr ''ghs'']"
proof -
  obtain w1 where m: "mint_token two_day_source Background app_world = (Inr ''ghs'', w1)"
    and st: "w_now w1 = 0" "good (fst (w_net w1)) = 2879 * minute"
    by (simp add: mint_token_def two_day_source_def Let_def app_world_def time_Before_def time_Add_def tokenRefreshLead_def)
  from installation_token_shared [OF m, of "[(Background, minute), (Background, 2 * minute)]"] st
  show ?thesis by (intro exI [of _ w1]) (auto simp: numeral_2_eq_2)
qed

section \<open>Failures\<close>

text \<open>C28. A request goes out authenticated or not at all.  When no token can be had nothing is sent and
  the error wraps the cause.  Otherwise exactly one request goes on the wire: the caller's with the
  \<open>Authorization\<close> header replaced by the token, every other header and field as it was; the
  caller gets the response, or an error exactly if the base transport failed.\<close>

theorem installation_request_authenticated:
  assumes "InstallationTokenSource_Token src (req_Context req) w = (tok, w1)"
    and "InstallationTokenTransport_RoundTrip \<lparr>it_src = src, it_base = base_RoundTrip net\<rparr> req w = (r, w')"
  shows "case tok of
      Inl e \<Rightarrow> r = (None, Some (Errorf ''appauth: installation token: %w'' [] [e])) \<and> w' = w1
    | Inr t \<Rightarrow> \<exists>q x. w_log w' = w_log w1 @ [Sent q x] \<and> q\<lparr>req_Header := []\<rparr> = req\<lparr>req_Header := []\<rparr>
        \<and> (\<forall>k. header_Get (req_Header q) k
              = (if CanonicalMIMEHeaderKey k = ''Authorization'' then ''Bearer '' @ t else header_Get (req_Header req) k))
        \<and> fst r = fst x \<and> (snd r = None \<longleftrightarrow> snd x = None)"
proof (cases tok)
  case (Inl e)
  with assms show ?thesis by (simp add: InstallationTokenTransport_RoundTrip_def)
next
  case (Inr t)
  have key: "CanonicalMIMEHeaderKey ''Authorization'' = ''Authorization''" by code_simp
  obtain x w2 where b: "base_RoundTrip net (set_bearer t req) w1 = (x, w2)" by fastforce
  have "w_log w2 = w_log w1 @ [Sent (set_bearer t req) x]" by (rule base.logs_once [OF b])
  moreover have "w' = w2 \<and> fst r = fst x \<and> (snd r = None \<longleftrightarrow> snd x = None)"
  proof (cases x)
    case (Pair resp eo)
    have "eo \<noteq> None \<Longrightarrow> resp = None"
      using b Pair by (auto simp: base_RoundTrip_def Let_def split: prod.splits sum.splits)
    with assms b Inr Pair show ?thesis
      by (cases eo) (auto simp: InstallationTokenTransport_RoundTrip_def)
  qed
  ultimately show ?thesis
    using Inr by (auto simp: set_bearer_def header_Get_Set key intro!: exI [of _ "set_bearer t req"] exI [of _ x])
qed

theorem installation_request_authenticated_witness:
  "\<exists>w' q x. snd (InstallationTokenTransport_RoundTrip
      \<lparr>it_src = two_day_source, it_base = base_RoundTrip (\<lambda>q t n. (Inr (example_response 200 []), t, n))\<rparr> (example_request ''GET'') app_world) = w'
    \<and> w_log w' = [Sent q x] \<and> header_Get (req_Header q) ''Authorization'' = ''Bearer ghs''"
proof -
  let ?t = "\<lparr>it_src = two_day_source, it_base = base_RoundTrip (\<lambda>q t n. (Inr (example_response 200 []), t, n))\<rparr>"
  obtain w1 where tok: "InstallationTokenSource_Token two_day_source (req_Context (example_request ''GET'')) app_world
      = (Inr ''ghs'', w1)" and log: "w_log w1 = []"
    by (simp add: InstallationTokenSource_Token_def mint_token_def two_day_source_def Let_def app_world_def fresh_token_def)
  obtain r w' where run: "InstallationTokenTransport_RoundTrip ?t (example_request ''GET'') app_world = (r, w')"
    by fastforce
  have key: "CanonicalMIMEHeaderKey ''Authorization'' = ''Authorization''" by code_simp
  from installation_request_authenticated [OF tok run] obtain q x where
    "w_log w' = [Sent q x]" "header_Get (req_Header q) ''Authorization'' = ''Bearer ghs''"
    using log key by auto
  with run show ?thesis by auto
qed

end
