(* ===== verification/AppKernel.thy ===== *)
theory AppKernel
  imports KernelCosts AppAuthTransports
begin

text \<open>
  A kernel over the installation transport of \<open>src/appauth/transport.go\<close>, the way a GitHub App
  uses the kit: the transport is the \<open>Transport\<close> of the \<open>http.Client\<close> given to
  \<open>WithHTTPClient\<close>, so every layer of the kernel and its prober go through it.
\<close>

text \<open>A request with a bearer credential, and the cost that counts the others.\<close>

definition bears_token :: "request \<Rightarrow> bool" where
  "bears_token q = (let h = header_Get (req_Header q) ''Authorization''
     in take 7 h = ''Bearer '' \<and> 7 < length h)"

abbreviation (input) anonymous :: "request \<times> rt_result \<Rightarrow> nat" where
  "anonymous \<equiv> \<lambda>s. if bears_token (fst s) then 0 else 1"

lemma bears_set_bearer: "tok \<noteq> [] \<Longrightarrow> bears_token (set_bearer tok req)"
  by (simp add: bears_token_def set_bearer_def header_Get_Set)

lemma installation_call_bound:
  assumes mint: "\<And>c i w r w'. apps src c i w = (r, w') \<Longrightarrow>
      \<exists>tr. w_log w' = w_log w @ tr \<and> weight anonymous (\<lambda>d. 0) tr = 0"
  shows "call_bound (InstallationTokenTransport_RoundTrip \<lparr>it_src = src, it_base = base_RoundTrip net\<rparr>) anonymous (\<lambda>d. 0) 0"
proof
  fix req w r w'
  assume run: "InstallationTokenTransport_RoundTrip \<lparr>it_src = src, it_base = base_RoundTrip net\<rparr> req w = (r, w')"
  obtain tok w1 where tok: "InstallationTokenSource_Token src (req_Context req) w = (tok, w1)" by fastforce
  have "\<exists>tr. w_log w1 = w_log w @ tr \<and> weight anonymous (\<lambda>d. 0) tr = 0"
    using tok by (auto simp: InstallationTokenSource_Token_def mint_token_def Let_def
        split: if_splits prod.splits sum.splits dest: mint)
  then obtain tr where tr: "w_log w1 = w_log w @ tr" "weight anonymous (\<lambda>d. 0) tr = 0" by blast
  show "\<exists>tr. w_log w' = w_log w @ tr \<and> weight anonymous (\<lambda>d. 0) tr \<le> 0"
  proof (cases tok)
    case (Inl e)
    with run tok tr show ?thesis by (auto simp: InstallationTokenTransport_RoundTrip_def)
  next
    case (Inr t)
    then have "t \<noteq> []"
      using tok by (auto simp: InstallationTokenSource_Token_def mint_token_def Let_def
          split: if_splits prod.splits sum.splits)
    obtain x w2 where b: "base_RoundTrip net (set_bearer t req) w1 = (x, w2)" by fastforce
    have "w' = w2" using run tok Inr b by (auto simp: InstallationTokenTransport_RoundTrip_def split: prod.splits option.splits)
    with base.logs_once [OF b] tr bears_set_bearer [OF \<open>t \<noteq> []\<close>] show ?thesis
      by (intro exI [of _ "tr @ [Sent (set_bearer t req) x]"]) simp
  qed
qed

text \<open>C9. No request of an App's kernel is anonymous.  Over the installation transport, whatever the
  kernel's options, and as long as minting itself sends nothing anonymous, every request that a call
  through the kernel or a refresh of its budget puts on the wire, retries and probes included,
  carries a bearer token.\<close>

theorem app_kernel_never_anonymous:
  assumes "New std opts = Inr k" and "clock_laws (the_clock (resolveDefaults opts))"
    and "baseTransport (http_Transport std) (resolveDefaults opts)
      = InstallationTokenTransport_RoundTrip \<lparr>it_src = src, it_base = base_RoundTrip net\<rparr>"
    and "\<And>c i w r w'. apps src c i w = (r, w') \<Longrightarrow>
      \<exists>tr. w_log w' = w_log w @ tr \<and> list_all (\<lambda>s. bears_token (fst s)) (sents tr)"
    and "\<And>rt n e. call_bound rt (\<lambda>s. if bears_token (fst s) then 0 else 1) (\<lambda>d. 0) n \<Longrightarrow>
      call_bound (etag_NewTransport std rt (etag_policy e)) (\<lambda>s. if bears_token (fst s) then 0 else 1) (\<lambda>d. 0) n"
  shows "(case client_HTTP_Transport k req w of (r, w') \<Rightarrow>
        list_all (\<lambda>s. bears_token (fst s)) (sents (new_events w w')))
    \<and> (case Kernel_RefreshRateLimit std k c w of (r, w') \<Rightarrow>
        list_all (\<lambda>s. bears_token (fst s)) (sents (new_events w w')))"
proof -
  have base: "call_bound (baseTransport (http_Transport std) (resolveDefaults opts)) anonymous (\<lambda>d. 0) 0"
    unfolding assms(3) using assms(4) by (intro installation_call_bound) (auto simp: weight_zero)
  note paced = paced_call_bound [OF assms(2) base refl]
  from New_call_bound [OF assms(1,2) paced assms(5), of 0 0]
  have "call_bound (client_HTTP_Transport k) anonymous (\<lambda>d. 0) 0" by simp
  moreover have "call_bound (prober_next (prober k)) anonymous (\<lambda>d. 0) 0"
    using New_prober_bound [OF assms(1,2) paced, of 0] by simp
  moreover have "kernel_clock k = the_clock (resolveDefaults opts)"
    using assms(1) by (auto simp: New_def Let_def split: sum.splits prod.splits)
  ultimately show ?thesis
    using timed_call_bound.probe_bound [OF timed_call_bound.intro [OF _ assms(2)] refl]
    by (fastforce simp: Kernel_RefreshRateLimit_def weight_zero dest: call_bound.bounded new_eventsI)
qed

definition app_externals :: "(token_state \<times> nat) externals" where
  "app_externals = \<lparr>Getenv = (\<lambda>v. []), Quote = (\<lambda>s. s), url_Parse = (\<lambda>s. Inr example_url),
     http_Transport = (\<lambda>t. base_RoundTrip (\<lambda>q t n. (Inr (example_response 200 []), t, n))),
     etag_NewTransport = (\<lambda>rt e. rt)\<rparr>"

definition app_options :: "(token_state \<times> nat) Option option list" where
  "app_options = [Some (WithPAT ''t''), Some (WithHTTPClient (Some \<lparr>client_Transport =
     Some (InstallationTokenTransport_RoundTrip \<lparr>it_src = two_day_source,
       it_base = base_RoundTrip (\<lambda>q t n. (Inr (example_response 200 []), t, n))\<rparr>), client_Timeout = 0\<rparr>))]"

theorem app_kernel_never_anonymous_witness:
  "\<exists>k. New app_externals app_options = Inr k
    \<and> (case client_HTTP_Transport k (example_request ''GET'') app_world of (r, w') \<Rightarrow>
        list_all (\<lambda>s. bears_token (fst s)) (sents (new_events app_world w')))"
proof -
  let ?o = "resolveDefaults app_options"
  have o': "?o = start_options\<lparr>Token := ''t'', HTTPClient := Some \<lparr>client_Transport =
     Some (InstallationTokenTransport_RoundTrip \<lparr>it_src = two_day_source,
       it_base = base_RoundTrip (\<lambda>q t n. (Inr (example_response 200 []), t, n))\<rparr>), client_Timeout = 0\<rparr>\<rparr>"
    by (simp add: resolveDefaults_def Let_def WithPAT_def WithHTTPClient_def start_options_def app_options_def)
  have "\<exists>k. New app_externals app_options = Inr k"
    by (simp add: New_def o' resolveToken_def ResolveBaseURL_def app_externals_def Let_def split: prod.splits)
  then obtain k where k: "New app_externals app_options = Inr k" by blast
  have clk: "clock_laws (the_clock ?o)"
    by (simp add: o' the_clock_def wall.clock_laws_axioms)
  have base: "baseTransport (http_Transport app_externals) ?o
      = InstallationTokenTransport_RoundTrip \<lparr>it_src = two_day_source,
          it_base = base_RoundTrip (\<lambda>q t n. (Inr (example_response 200 []), t, n))\<rparr>"
    by (simp add: o' baseTransport_def)
  have mint: "\<exists>tr. w_log w' = w_log w @ tr \<and> list_all (\<lambda>s. bears_token (fst s)) (sents tr)"
    if "apps two_day_source c i w = (r, w')" for c i w r w'
    using that by (intro exI [of _ "[]"]) (auto simp: two_day_source_def)
  from app_kernel_never_anonymous [OF k clk base mint, where req = "example_request ''GET''" and w = app_world] k
  show ?thesis by (auto simp: app_externals_def)
qed

end
