(* ===== verification/Bursts.thy ===== *)
theory Bursts
  imports Gate
begin

text \<open>
  Concurrent calls through the gate.  \<open>Gate\<close> models one call of \<open>gateTransport.RoundTrip\<close>
  (\<open>src/transport.go\<close>) from beginning to end; here any number of goroutines call it at once.
  They share the rate-limit cache, the prober's \<open>lastAttempt\<close> and the clock, and meet only in
  the critical sections of the cache's and the prober's mutexes: one step is one such section, or a
  decision on local data.  What is below the gate answers at any later moment with anything; an
  answer passes the header feed and updates the cache.  The root theory lists the theorems:
  one call run alone does what \<open>Gate\<close> says, probes are spaced however many calls want one, and
  the floor of the budget is overshot by at most one request per goroutine.

  \<open>b_reported\<close>, \<open>b_since\<close> and \<open>b_attempts\<close> are ghost fields: the remaining count of the
  last authoritative answer, the requests spent since, and the times of the probe attempts.
\<close>

section \<open>State\<close>

datatype call =
    Absent
  | Entered request
  | AtProber request
  | CoolingDown request
  | Probing request
  | Probed request
  | Deciding request RateLimitSnapshot
  | Holding request time
  | Spending request
  | Sending request
  | Answered rt_result

record burst =
  b_now :: time
  b_cache :: "RateLimitCache option"
  b_lastAttempt :: time
  b_calls :: "nat \<Rightarrow> call"
  b_reported :: int
  b_since :: nat
  b_attempts :: "time list"

text \<open>A label names the goroutine that moves, or what happens around it: a call arrives, an attempt
  of the probe is answered, the probe's transport returns, the call's context ends its wait, the
  transport below answers, time passes.\<close>

datatype call_label =
    Arrive nat request
  | Proceed nat
  | ProbeAttempt nat rt_result
  | ProbeReturned nat rt_result
  | Interrupted nat
  | Response nat rt_result
  | Elapse duration

definition burst_start :: "time \<Rightarrow> burst" where
  "burst_start t =
     \<lparr>b_now = t, b_cache = Some NewRateLimitCache, b_lastAttempt = zero_time, b_calls = (\<lambda>i. Absent),
      b_reported = 0, b_since = 0, b_attempts = []\<rparr>"

abbreviation at_call :: "nat \<Rightarrow> call \<Rightarrow> burst \<Rightarrow> burst" where
  "at_call i pc s \<equiv> s\<lparr>b_calls := (b_calls s)(i := pc)\<rparr>"

section \<open>Steps\<close>

text \<open>The header feed, with the ghost account of what was last reported.\<close>

definition core_report :: "response option \<Rightarrow> RateLimitSnapshot option" where
  "core_report resp =
     (case resp of None \<Rightarrow> None
      | Some r \<Rightarrow> (case ParseRateLimitHeaders (header_Get (resp_Header r)) of
            Some snap \<Rightarrow> if Limit snap = 0 then None else Some snap
          | None \<Rightarrow> None))"

definition burst_feed :: "response option \<Rightarrow> burst \<Rightarrow> burst" where
  "burst_feed resp s =
     (let s' = s\<lparr>b_cache := feed_response resp (b_cache s)\<rparr>
      in case core_report resp of None \<Rightarrow> s'
         | Some snap \<Rightarrow> s'\<lparr>b_reported := Remaining snap, b_since := 0\<rparr>)"

text \<open>Reading the cache and going on with the budget, or with \<open>unknown\<close> without one.\<close>

definition read_budget :: "nat \<Rightarrow> request \<Rightarrow> call \<Rightarrow> burst \<Rightarrow> burst" where
  "read_budget i req unknown s =
     at_call i (case Get (b_cache s) of (snap, True) \<Rightarrow> Deciding req snap | (_, False) \<Rightarrow> unknown) s"

text \<open>The prober's critical section: refuse during the cooldown, or record the attempt; then,
  outside it, build the request.  A probe that fails is ignored.\<close>

definition prober_section :: "(string \<Rightarrow> err + url) \<Rightarrow> url option \<Rightarrow> nat \<Rightarrow> request \<Rightarrow> burst \<Rightarrow> burst" where
  "prober_section parse base i req s =
     (case base of
        None \<Rightarrow> at_call i (Spending req) s
      | Some b \<Rightarrow>
          if \<not> time_IsZero (b_lastAttempt s) \<and> time_Sub (b_now s) (b_lastAttempt s) < probeCooldown
          then at_call i (CoolingDown req) s
          else at_call i
             (case new_get_request parse (req_Context req) (url_String (probe_target b)) of
                Inl e \<Rightarrow> Spending req | Inr q \<Rightarrow> Probing req)
             (s\<lparr>b_lastAttempt := b_now s, b_attempts := b_attempts s @ [b_now s]\<rparr>))"

text \<open>The decision on a budget, on local data and the clock.\<close>

definition decide :: "RateLimitOptions \<Rightarrow> time \<Rightarrow> request \<Rightarrow> RateLimitSnapshot \<Rightarrow> call" where
  "decide opts now req snap =
     (if Remaining snap > MinRemaining opts then Spending req
      else let wait = time_Sub (ResetAt snap) now in
        if wait \<le> 0 then Spending req
        else if wait > MaxWait opts then
          Answered (None, Some (StatusError ErrRateLimited 0 (req_Method req) (url_String (req_URL req))
                                  (ResetTooFarError wait (MaxWait opts) (ResetAt snap))))
        else Holding req (now + wait))"

definition proceed :: "(string \<Rightarrow> err + url) \<Rightarrow> RateLimitOptions \<Rightarrow> url option \<Rightarrow> nat \<Rightarrow> burst \<Rightarrow> burst option" where
  "proceed parse opts base i s =
     (case b_calls s i of
        Entered req \<Rightarrow>
          Some (if \<not> rl_Enabled opts \<or> isRateLimitProbe req then at_call i (Sending req) s
                else read_budget i req (AtProber req) s)
      | AtProber req \<Rightarrow> Some (prober_section parse base i req s)
      | CoolingDown req \<Rightarrow> Some (read_budget i req (Spending req) s)
      | Probed req \<Rightarrow> Some (read_budget i req (Spending req) s)
      | Deciding req snap \<Rightarrow> Some (at_call i (decide opts (b_now s) req snap) s)
      | Holding req t \<Rightarrow> if t \<le> b_now s then Some (at_call i (Spending req) s) else None
      | Spending req \<Rightarrow>
          Some (at_call i (Sending req)
            (s\<lparr>b_cache := Decrement 1 (b_cache s), b_since := b_since s + 1\<rparr>))
      | _ \<Rightarrow> None)"

definition probe_returned :: "nat \<Rightarrow> rt_result \<Rightarrow> burst \<Rightarrow> burst option" where
  "probe_returned i r s =
     (case (b_calls s i, r) of
        (Probing req, (_, Some e)) \<Rightarrow> Some (at_call i (Spending req) s)
      | (Probing req, (Some resp, None)) \<Rightarrow>
          Some (at_call i (if StatusCode resp \<ge> StatusBadRequest then Spending req else Probed req) s)
      | _ \<Rightarrow> None)"

definition call_step :: "(string \<Rightarrow> err + url) \<Rightarrow> RateLimitOptions \<Rightarrow> url option \<Rightarrow> call_label \<Rightarrow> burst
    \<Rightarrow> burst option" where
  "call_step parse opts base l s =
     (case l of
        Arrive i req \<Rightarrow>
          (case b_calls s i of Absent \<Rightarrow> Some (at_call i (Entered req) s)
           | Answered r \<Rightarrow> Some (at_call i (Entered req) s) | _ \<Rightarrow> None)
      | Proceed i \<Rightarrow> proceed parse opts base i s
      | ProbeAttempt i r \<Rightarrow> (case b_calls s i of Probing req \<Rightarrow> Some (burst_feed (fst r) s) | _ \<Rightarrow> None)
      | ProbeReturned i r \<Rightarrow> probe_returned i r s
      | Interrupted i \<Rightarrow>
          (case b_calls s i of
             Holding req t \<Rightarrow>
               (case ctx_done (req_Context req) of
                  Some (d, cause) \<Rightarrow>
                    if d \<le> b_now s then Some (at_call i (Answered (None, Some (CtxError cause))) s) else None
                | None \<Rightarrow> None)
           | _ \<Rightarrow> None)
      | Response i r \<Rightarrow>
          (case b_calls s i of
             Sending req \<Rightarrow> Some (at_call i (Answered r) (burst_feed (fst r) s)) | _ \<Rightarrow> None)
      | Elapse d \<Rightarrow> if 0 \<le> d then Some (s\<lparr>b_now := b_now s + d\<rparr>) else None)"

fun burst_run :: "(string \<Rightarrow> err + url) \<Rightarrow> RateLimitOptions \<Rightarrow> url option \<Rightarrow> call_label list \<Rightarrow> burst
    \<Rightarrow> burst option" where
  "burst_run parse opts base [] s = Some s"
| "burst_run parse opts base (l # ls) s =
     (case call_step parse opts base l s of None \<Rightarrow> None | Some s' \<Rightarrow> burst_run parse opts base ls s')"

lemma burst_run_append:
  "burst_run parse opts base (ls @ ls') s =
     (case burst_run parse opts base ls s of None \<Rightarrow> None | Some s' \<Rightarrow> burst_run parse opts base ls' s')"
  by (induction ls arbitrary: s) (auto split: option.splits)

text \<open>Invariants are proved over the last step of a run.\<close>

lemma burst_run_induct [consumes 1, case_names start move]:
  assumes "burst_run parse opts base ls s0 = Some s"
    and "P [] s0"
    and "\<And>ls s l s'. burst_run parse opts base ls s0 = Some s \<Longrightarrow> P ls s \<Longrightarrow>
      call_step parse opts base l s = Some s' \<Longrightarrow> P (ls @ [l]) s'"
  shows "P ls s"
  using assms(1)
proof (induction ls arbitrary: s rule: rev_induct)
  case Nil
  then show ?case using assms(2) by simp
next
  case (snoc l ls)
  then obtain s1 where "burst_run parse opts base ls s0 = Some s1" "call_step parse opts base l s1 = Some s"
    by (auto simp: burst_run_append split: option.splits)
  with snoc.IH assms(3) show ?case by blast
qed


section \<open>Fields\<close>

lemma burst_feed_fields [simp, frame_simps]:
  "b_now (burst_feed resp s) = b_now s" "b_calls (burst_feed resp s) = b_calls s"
  "b_lastAttempt (burst_feed resp s) = b_lastAttempt s" "b_attempts (burst_feed resp s) = b_attempts s"
  "b_cache (burst_feed resp s) = feed_response resp (b_cache s)"
  by (simp_all add: burst_feed_def Let_def split: option.splits)

lemma read_budget_fields [simp, frame_simps]:
  "b_now (read_budget i req pc s) = b_now s" "b_cache (read_budget i req pc s) = b_cache s"
  "b_lastAttempt (read_budget i req pc s) = b_lastAttempt s"
  "b_attempts (read_budget i req pc s) = b_attempts s"
  "b_reported (read_budget i req pc s) = b_reported s" "b_since (read_budget i req pc s) = b_since s"
  by (simp_all add: read_budget_def)

lemma prober_section_fields [simp, frame_simps]:
  "b_now (prober_section parse base i req s) = b_now s"
  "b_cache (prober_section parse base i req s) = b_cache s"
  by (simp_all add: prober_section_def split: option.split)

lemma prober_section_calls:
  obtains pc where "b_calls (prober_section parse base i req s) = (b_calls s)(i := pc)"
    "pc = Spending req \<or> pc = CoolingDown req \<or> pc = Probing req"
proof -
  have "\<exists>pc. b_calls (prober_section parse base i req s) = (b_calls s)(i := pc)
      \<and> (pc = Spending req \<or> pc = CoolingDown req \<or> pc = Probing req)"
    by (auto simp: prober_section_def split: option.split sum.split)
  with that show ?thesis by blast
qed

lemmas call_step_defs = call_step_def proceed_def probe_returned_def prober_section_def
lemmas call_step_splits = call_label.splits call.splits option.splits if_splits prod.splits sum.splits

section \<open>Probes\<close>

lemma call_step_time: "call_step parse opts base l s = Some s' \<Longrightarrow> b_now s \<le> b_now s'"
  by (auto simp: call_step_defs split: call_step_splits)

text \<open>A step records no attempt, or one outside the cooldown.\<close>

lemma call_step_attempts:
  assumes "call_step parse opts base l s = Some s'"
  shows "b_attempts s' = b_attempts s \<and> b_lastAttempt s' = b_lastAttempt s
    \<or> b_attempts s' = b_attempts s @ [b_now s] \<and> b_lastAttempt s' = b_now s \<and> b_now s' = b_now s
      \<and> (b_lastAttempt s = zero_time \<or> b_lastAttempt s + probeCooldown \<le> b_now s)"
proof -
  have cool: "time_Sub (b_now s) (b_lastAttempt s) < probeCooldown
      \<longleftrightarrow> b_now s - b_lastAttempt s < probeCooldown"
    by (auto simp: time_Sub_def clamp64_def probeCooldown_def)
  show ?thesis
    using assms
    by (auto simp: call_step_defs cool time_IsZero_def split: call_step_splits)
qed

definition attempts_kept :: "burst \<Rightarrow> bool" where
  "attempts_kept s \<longleftrightarrow> 0 < b_now s \<and> sorted_wrt (\<lambda>t u. t + probeCooldown \<le> u) (b_attempts s)
     \<and> (\<forall>t \<in> set (b_attempts s). t \<le> b_lastAttempt s)
     \<and> b_lastAttempt s \<le> b_now s \<and> (b_attempts s \<noteq> [] \<longrightarrow> 0 < b_lastAttempt s)"

lemma attempts_kept_run:
  assumes "burst_run parse opts base ls (burst_start t) = Some s" "0 < t"
  shows "attempts_kept s"
  using assms(1)
proof (induction rule: burst_run_induct)
  case start
  then show ?case using assms(2) by (simp add: attempts_kept_def burst_start_def)
next
  case (move ls s l s')
  note m = call_step_time [OF move.hyps(2)]
  consider (quiet) "b_attempts s' = b_attempts s" "b_lastAttempt s' = b_lastAttempt s"
    | (attempt) "b_attempts s' = b_attempts s @ [b_now s]" "b_lastAttempt s' = b_now s" "b_now s' = b_now s"
        "b_lastAttempt s = zero_time \<or> b_lastAttempt s + probeCooldown \<le> b_now s"
    using call_step_attempts [OF move.hyps(2)] by blast
  then show ?case
  proof cases
    case quiet
    with move.IH m show ?thesis by (auto simp: attempts_kept_def)
  next
    case attempt
    then have "t + probeCooldown \<le> b_now s" if "u \<in> set (b_attempts s)" "t \<le> b_lastAttempt s" for t u
      using move.IH that by (cases "b_attempts s") (auto simp: attempts_kept_def)
    with attempt move.IH show ?thesis
      by (auto simp: attempts_kept_def sorted_wrt_append intro: order_trans)
  qed
qed

text \<open>C13. A burst probes once.  However many calls run at the same time, two probe attempts of a
  kernel are at least thirty seconds apart.\<close>

theorem burst_probes_spaced:
  assumes "burst_run parse opts base ls (burst_start t) = Some s" and "0 < t"
  shows "sorted_wrt (\<lambda>t u. t + 30 * second \<le> u) (b_attempts s)"
  using attempts_kept_run [OF assms] by (simp add: attempts_kept_def probeCooldown_def)

section \<open>The floor\<close>

text \<open>A call is past the check when nothing but the passing of time, or of its own steps, keeps
  it from spending; a call that read an exhausted budget is not, until that budget's reset.\<close>

fun past_check :: "RateLimitOptions \<Rightarrow> time \<Rightarrow> call \<Rightarrow> bool" where
  "past_check opts reset (Deciding req snap) \<longleftrightarrow> MinRemaining opts < Remaining snap \<or> ResetAt snap < reset"
| "past_check opts reset (Holding req t) \<longleftrightarrow> t < reset"
| "past_check opts reset (AtProber req) \<longleftrightarrow> True"
| "past_check opts reset (CoolingDown req) \<longleftrightarrow> True"
| "past_check opts reset (Probing req) \<longleftrightarrow> True"
| "past_check opts reset (Probed req) \<longleftrightarrow> True"
| "past_check opts reset (Spending req) \<longleftrightarrow> True"
| "past_check opts reset _ \<longleftrightarrow> False"

definition past :: "RateLimitOptions \<Rightarrow> nat \<Rightarrow> time \<Rightarrow> (nat \<Rightarrow> call) \<Rightarrow> nat" where
  "past opts k reset calls = card {i. i < k \<and> past_check opts reset (calls i)}"

lemma past_bound: "past opts k reset calls \<le> k"
  using card_mono [of "{..<k}" "{i. i < k \<and> past_check opts reset (calls i)}"]
  by (auto simp: past_def)

lemma past_update:
  assumes "i < k"
  shows "past opts k reset (calls(i := pc)) + (if past_check opts reset (calls i) then 1 else 0)
    = past opts k reset calls + (if past_check opts reset pc then 1 else 0)"
proof -
  let ?rest = "{j. j < k \<and> j \<noteq> i \<and> past_check opts reset (calls j)}"
  have "{j. j < k \<and> past_check opts reset (calls j)}
      = (if past_check opts reset (calls i) then insert i ?rest else ?rest)"
    using assms by auto
  moreover have "{j. j < k \<and> past_check opts reset ((calls(i := pc)) j)}
      = (if past_check opts reset pc then insert i ?rest else ?rest)"
    using assms by auto
  ultimately show ?thesis by (simp add: past_def del: fun_upd_apply)
qed


text \<open>The account of the last authoritative answer, and the room under the floor.\<close>

definition floor_kept :: "RateLimitOptions \<Rightarrow> nat \<Rightarrow> burst \<Rightarrow> bool" where
  "floor_kept opts k s \<longleftrightarrow> cache_ok (b_cache s) \<and>
     (\<forall>snap. Get (b_cache s) = (snap, True) \<longrightarrow>
        0 \<le> b_reported s \<and> Remaining snap = max 0 (b_reported s - int (b_since s))
        \<and> (b_now s < ResetAt snap \<longrightarrow>
             int (b_since s + past opts k (ResetAt snap) (b_calls s))
               \<le> int k + max 0 (b_reported s - MinRemaining opts - 1)))"

lemma floor_room:
  assumes "floor_kept opts k s" "Get (b_cache s) = (snap, True)" "0 \<le> MinRemaining opts"
    and "MinRemaining opts < Remaining snap"
  shows "int (b_since s) \<le> b_reported s - MinRemaining opts - 1"
  using assms by (auto simp: floor_kept_def)

text \<open>A step that moves one call keeps the account if the call was past the check before, is not
  now, or has just read a budget above the floor.\<close>

lemma floor_kept_local:
  assumes kept: "floor_kept opts k s" and "0 \<le> MinRemaining opts" "i < k"
    and loose: "\<And>snap. Get (b_cache s) = (snap, True) \<Longrightarrow> b_now s < ResetAt snap \<Longrightarrow>
      past_check opts (ResetAt snap) pc \<Longrightarrow>
      past_check opts (ResetAt snap) (b_calls s i) \<or> MinRemaining opts < Remaining snap"
  shows "floor_kept opts k (at_call i pc s)"
  unfolding floor_kept_def
proof (intro conjI allI impI)
  show "cache_ok (b_cache (at_call i pc s))" using kept by (simp add: floor_kept_def)
next
  fix snap
  assume "Get (b_cache (at_call i pc s)) = (snap, True)"
  then have g: "Get (b_cache s) = (snap, True)" by simp
  show "0 \<le> b_reported (at_call i pc s)"
    "Remaining snap = max 0 (b_reported (at_call i pc s) - int (b_since (at_call i pc s)))"
    using kept g by (simp_all add: floor_kept_def)
  assume "b_now (at_call i pc s) < ResetAt snap"
  then have now: "b_now s < ResetAt snap" by simp
  have le: "int (b_since s + past opts k (ResetAt snap) (b_calls s))
      \<le> int k + max 0 (b_reported s - MinRemaining opts - 1)"
    using kept g now by (simp add: floor_kept_def)
  note u = past_update [OF assms(3), of opts "ResetAt snap" "b_calls s" pc]
  consider "\<not> past_check opts (ResetAt snap) pc \<or> past_check opts (ResetAt snap) (b_calls s i)"
    | "MinRemaining opts < Remaining snap"
    using loose [OF g now] by blast
  then show "int (b_since (at_call i pc s) + past opts k (ResetAt snap) (b_calls (at_call i pc s)))
      \<le> int k + max 0 (b_reported (at_call i pc s) - MinRemaining opts - 1)"
  proof cases
    case 1
    with u have "past opts k (ResetAt snap) ((b_calls s)(i := pc)) \<le> past opts k (ResetAt snap) (b_calls s)"
      by (auto split: if_splits)
    with le show ?thesis by simp
  next
    case 2
    with floor_room [OF kept g assms(2)] past_bound [of opts k "ResetAt snap" "(b_calls s)(i := pc)"]
    show ?thesis by simp
  qed
qed

lemma floor_kept_spend:
  assumes kept: "floor_kept opts k s" and "i < k" "b_calls s i = Spending req"
  shows "floor_kept opts k (at_call i (Sending req)
    (s\<lparr>b_cache := Decrement 1 (b_cache s), b_since := b_since s + 1\<rparr>))"
proof (cases "b_cache s")
  case None
  then show ?thesis by (simp add: floor_kept_def Get_def Decrement_def cache_ok_def)
next
  case (Some cache)
  obtain cache' where c': "Decrement 1 (Some cache) = Some cache'" using Decrement_Some by blast
  have "snapshot_ok (snapshot cache)" using kept Some by (simp add: floor_kept_def cache_ok_def)
  note b = Decrement_bounds [OF this _ c', simplified in_int64_def, simplified]
  have "cache_ok (Decrement 1 (b_cache s))"
    using kept by (intro cache_ok_Decrement) (simp_all add: floor_kept_def in_int64_def)
  moreover have "int (b_since s + 1 + past opts k (ResetAt (snapshot cache')) ((b_calls s)(i := Sending req)))
      \<le> int k + max 0 (b_reported s - MinRemaining opts - 1)"
    if "known cache'" "b_now s < ResetAt (snapshot cache')"
  proof -
    have "past opts k reset ((b_calls s)(i := Sending req)) + 1 = past opts k reset (b_calls s)" for reset
      using past_update [OF assms(2), of opts reset "b_calls s" "Sending req"] assms(3) by simp
    then have eq: "b_since s + 1 + past opts k reset ((b_calls s)(i := Sending req))
        = b_since s + past opts k reset (b_calls s)" for reset
      by (metis add.assoc add.commute)
    show ?thesis
      unfolding eq using kept Some b that by (simp add: floor_kept_def Get_def)
  qed
  ultimately show ?thesis
    using kept Some c' b by (auto simp: floor_kept_def Get_def)
qed

lemma feed_core_report:
  "feed_response resp c = (case core_report resp of None \<Rightarrow> c
     | Some snap \<Rightarrow> map_option (\<lambda>cache. cache\<lparr>snapshot := snap, known := True\<rparr>) c)"
  by (auto simp: feed_response_def core_report_def Update_def split: option.splits)

lemma core_report_ok: "core_report resp = Some snap \<Longrightarrow> snapshot_ok snap \<and> Limit snap \<noteq> 0"
  by (auto simp: core_report_def split: option.splits if_splits dest: ParseRateLimitHeaders_ok)

lemma floor_kept_feed:
  assumes "floor_kept opts k s"
  shows "floor_kept opts k (burst_feed resp s)"
proof (cases "core_report resp")
  case None
  then have "burst_feed resp s = s" by (simp add: burst_feed_def feed_core_report)
  with assms show ?thesis by simp
next
  case (Some snap)
  from core_report_ok [OF Some] have ok: "cache_ok (feed_response resp (b_cache s))" "0 \<le> Remaining snap"
    using assms by (auto simp: floor_kept_def snapshot_ok_def intro: cache_ok_feed)
  show ?thesis
  proof (cases "b_cache s")
    case None
    with Some show ?thesis by (simp add: floor_kept_def burst_feed_def feed_core_report Get_def cache_ok_def)
  next
    case (Some cache)
    with \<open>core_report resp = Some snap\<close> ok past_bound [of opts k "ResetAt snap" "b_calls s"] show ?thesis
      by (auto simp: floor_kept_def burst_feed_def feed_core_report Get_def Let_def)
  qed
qed


fun label_within :: "nat \<Rightarrow> call_label \<Rightarrow> bool" where
  "label_within k (Arrive i req) \<longleftrightarrow> i < k"
| "label_within k (Proceed i) \<longleftrightarrow> i < k"
| "label_within k (ProbeAttempt i r) \<longleftrightarrow> i < k"
| "label_within k (ProbeReturned i r) \<longleftrightarrow> i < k"
| "label_within k (Interrupted i) \<longleftrightarrow> i < k"
| "label_within k (Response i r) \<longleftrightarrow> i < k"
| "label_within k (Elapse d) \<longleftrightarrow> True"

lemma past_check_decide:
  assumes "past_check opts reset (decide opts now req snap)" "in_int64 (MaxWait opts)" "MaxWait opts < max_int64"
    and "now < reset"
  shows "past_check opts reset (Deciding req snap)"
proof -
  have "now + time_Sub (ResetAt snap) now = ResetAt snap"
    if "now < ResetAt snap" "time_Sub (ResetAt snap) now \<le> MaxWait opts"
  proof -
    have "ResetAt snap - now \<le> MaxWait opts"
      using that(2) clamp64_less_iff [OF assms(2,3)] by (simp add: time_Sub_def)
    then have "in_int64 (ResetAt snap - now)" using assms(2) that(1) by (simp add: in_int64_def)
    then show ?thesis by (simp add: time_Sub_exact)
  qed
  with assms(1,4) show ?thesis
    by (auto simp: decide_def Let_def not_le split: if_splits)
qed

lemma floor_kept_read:
  assumes "floor_kept opts k s" "0 \<le> MinRemaining opts" "i < k"
  shows "floor_kept opts k (read_budget i req pc s)"
  unfolding read_budget_def
  by (rule floor_kept_local [OF assms(1-3)]) (auto split: prod.splits bool.splits)

lemma floor_kept_prober:
  assumes "floor_kept opts k s" "0 \<le> MinRemaining opts" "i < k" "b_calls s i = AtProber req"
  shows "floor_kept opts k (prober_section parse base i req s)"
proof -
  have "floor_kept opts k (at_call i pc s)" for pc
    by (rule floor_kept_local [OF assms(1-3)]) (simp add: assms(4))
  moreover have "floor_kept opts k (at_call i pc (s\<lparr>b_lastAttempt := t, b_attempts := ts\<rparr>))
      = floor_kept opts k (at_call i pc s)" for pc t ts
    by (simp add: floor_kept_def)
  ultimately show ?thesis
    by (simp add: prober_section_def split: option.split)
qed

lemma floor_kept_proceed:
  assumes step: "call_step parse opts base (Proceed i) s = Some s'" and kept: "floor_kept opts k s" and i: "i < k"
    and opts: "0 \<le> MinRemaining opts" "in_int64 (MaxWait opts)" "MaxWait opts < max_int64"
  shows "floor_kept opts k s'"
proof -
  note loc = floor_kept_local [OF kept opts(1) i] and read = floor_kept_read [OF kept opts(1) i]
  show ?thesis
  proof (cases "b_calls s i")
    case (AtProber req)
    from floor_kept_prober [OF kept opts(1) i AtProber] AtProber step show ?thesis
      by (auto simp: call_step_def proceed_def)
  next
    case (Deciding req snap)
    have "floor_kept opts k (at_call i (decide opts (b_now s) req snap) s)"
      by (rule loc) (use Deciding past_check_decide [OF _ opts(2,3)] in fastforce)
    with Deciding step show ?thesis by (simp add: call_step_def proceed_def)
  next
    case (Holding req t)
    have "floor_kept opts k (at_call i (Spending req) s)" if "t \<le> b_now s"
      by (rule loc) (use Holding that in simp)
    with Holding step show ?thesis by (simp add: call_step_def proceed_def split: if_splits)
  next
    case (Entered req)
    have "floor_kept opts k (at_call i (Sending req) s)" by (rule loc) simp
    with Entered step read show ?thesis by (auto simp: call_step_def proceed_def split: if_splits)
  qed (use step kept i read floor_kept_spend in \<open>auto simp: call_step_def proceed_def\<close>)
qed

lemma floor_kept_step:
  assumes "call_step parse opts base l s = Some s'" "floor_kept opts k s" "label_within k l"
    and "0 \<le> MinRemaining opts" "in_int64 (MaxWait opts)" "MaxWait opts < max_int64"
  shows "floor_kept opts k s'"
proof -
  note loc = floor_kept_local [OF assms(2,4)]
  show ?thesis
  proof (cases l)
    case (Proceed i)
    with assms(3) show ?thesis
      using floor_kept_proceed [OF assms(1) [unfolded Proceed] assms(2) _ assms(4-6)] by simp
  next
    case (Arrive i req)
    with assms(1,3) show ?thesis
      by (auto simp: call_step_def split: call.splits intro!: loc)
  next
    case (ProbeAttempt i r)
    with assms(1-3) show ?thesis
      by (auto simp: call_step_def split: call.splits intro: floor_kept_feed)
  next
    case (ProbeReturned i r)
    with assms(1,3) show ?thesis
      by (auto simp: call_step_def probe_returned_def split: call.splits option.splits prod.splits intro!: loc)
  next
    case (Interrupted i)
    with assms(1,3) show ?thesis
      by (auto simp: call_step_def split: call.splits option.splits prod.splits if_splits intro!: loc)
  next
    case (Response i r)
    with assms(3) have "floor_kept opts k (at_call i (Answered r) (burst_feed (fst r) s))"
      by (intro floor_kept_local [OF floor_kept_feed [OF assms(2)] assms(4)]) simp_all
    with Response assms(1) show ?thesis by (auto simp: call_step_def split: call.splits)
  next
    case (Elapse d)
    with assms(1,2) show ?thesis
      by (auto simp: call_step_def floor_kept_def split: if_splits)
  qed
qed

text \<open>C10. The floor under concurrency.  The gate reads the budget and spends from it in two
  critical sections, so calls that run at the same time may all pass on the last request above the
  floor.  With \<open>k\<close> goroutines on the kernel, and only as long as the window of the last authoritative
  answer lasts (after its reset the gate lets everything pass), the requests spent since that answer exceed the budget above the floor by at most \<open>k\<close>.\<close>

theorem burst_overshoot_bounded:
  assumes "burst_run parse opts base ls (burst_start t) = Some s" "list_all (label_within k) ls"
    and "0 \<le> MinRemaining opts" "in_int64 (MaxWait opts)" "MaxWait opts < max_int64"
    and "Get (b_cache s) = (snap, True)" "b_now s < ResetAt snap"
  shows "int (b_since s) \<le> max 0 (b_reported s - MinRemaining opts - 1) + int k"
proof -
  have "list_all (label_within k) ls \<longrightarrow> floor_kept opts k s"
    using assms(1)
  proof (induction rule: burst_run_induct)
    case start
    then show ?case by (simp add: floor_kept_def burst_start_def Get_def NewRateLimitCache_def cache_ok_def)
  next
    case (move ls s l s')
    then show ?case using floor_kept_step [OF move.hyps(2) _ _ assms(3-5)] by simp
  qed
  with assms(2,6,7) show ?thesis by (auto simp: floor_kept_def)
qed

end
