(* ===== verification/BurstRuns.thy ===== *)
theory BurstRuns
  imports Bursts
begin

text \<open>
  Runs of concurrent calls through the gate: a call that runs alone behaves as the function
  \<open>gateTransport_RoundTrip\<close> says, a call is never held up by another one, and concrete
  runs on which the floor is overshot and two calls want one probe.
\<close>

section \<open>Runs of one call\<close>

fun own :: "nat \<Rightarrow> call_label \<Rightarrow> bool" where
  "own i (Arrive j req) \<longleftrightarrow> False"
| "own i (Proceed j) \<longleftrightarrow> j = i"
| "own i (ProbeAttempt j r) \<longleftrightarrow> j = i"
| "own i (ProbeReturned j r) \<longleftrightarrow> j = i"
| "own i (Interrupted j) \<longleftrightarrow> j = i"
| "own i (Response j r) \<longleftrightarrow> j = i"
| "own i (Elapse d) \<longleftrightarrow> True"

definition solo :: "(string \<Rightarrow> err + url) \<Rightarrow> RateLimitOptions \<Rightarrow> url option \<Rightarrow> nat \<Rightarrow> burst \<Rightarrow> burst \<Rightarrow> bool" where
  "solo parse opts base i s s' \<longleftrightarrow> (\<exists>ls. burst_run parse opts base ls s = Some s' \<and> list_all (own i) ls)"

lemma solo_refl: "solo parse opts base i s s"
  unfolding solo_def by (rule exI [of _ "[]"]) simp

lemma solo_run: "burst_run parse opts base ls s = Some s' \<Longrightarrow> list_all (own i) ls \<Longrightarrow> solo parse opts base i s s'"
  by (auto simp: solo_def)

lemma solo_trans: "solo parse opts base i s s1 \<Longrightarrow> solo parse opts base i s1 s2 \<Longrightarrow> solo parse opts base i s s2"
  unfolding solo_def
  by (metis burst_run_append list_all_append option.simps(5))

text \<open>The shared state of a burst is that of a world.\<close>

definition shows_world :: "burst \<Rightarrow> 'n world \<Rightarrow> bool" where
  "shows_world s w \<longleftrightarrow> b_now s = w_now w \<and> b_cache s = w_cache w \<and> b_lastAttempt s = w_lastAttempt w"

text \<open>What the prober makes of the answer of its transport.\<close>

definition probe_outcome :: "rt_result \<Rightarrow> 'n world \<Rightarrow> (err + RateLimitSnapshot) \<times> 'n world" where
  "probe_outcome x w =
     (case x of
        (resp, Some e) \<Rightarrow> (Inl (Errorf ''githubkit: rate-limit probe: %w'' [] [e]), w)
      | (None, None) \<Rightarrow> (Inl nil_dereference, w)
      | (Some r, None) \<Rightarrow>
          if StatusCode r \<ge> StatusBadRequest
          then (Inl (Errorf ''githubkit: rate-limit probe: status %d: %w''
                  [ArgInt (StatusCode r)] [ErrAPIUnavailable]), drainClose (Some r) w)
          else (case Get (w_cache w) of
                  (s, True) \<Rightarrow> (Inr s, drainClose (Some r) w)
                | (_, False) \<Rightarrow>
                    (Inl (Errorf ''githubkit: rate-limit probe returned no X-RateLimit headers: %w''
                       [] [ErrAPIUnavailable]), drainClose (Some r) w)))"

text \<open>What the gate relies on: the stack below it feeds the cache once, with its answer; the
  prober's feeds it with every attempt.\<close>

locale gate_calls =
  fixes nxt :: "'n round_trip" and p :: "'n rateProber"
  assumes next_answers: "nxt req w = ((resp, e), w') \<Longrightarrow> w_now w \<le> w_now w'
      \<and> w_cache w' = feed_response resp (w_cache w) \<and> w_lastAttempt w' = w_lastAttempt w"
    and probe_answers: "prober_next p req w = ((resp, e), w') \<Longrightarrow> (resp \<noteq> None \<or> e \<noteq> None)
      \<and> w_now w \<le> w_now w' \<and> w_lastAttempt w' = w_lastAttempt w
      \<and> (\<exists>rs :: rt_result list. w_cache w' = fold (\<lambda>r. feed_response (fst r)) rs (w_cache w))"
begin

lemma solo_send:
  assumes "shows_world s w" "b_calls s i = Sending req" "nxt req w = (r, w')"
  shows "\<exists>s'. solo parse opts base i s s' \<and> shows_world s' w' \<and> b_calls s' = (b_calls s)(i := Answered r)"
proof -
  obtain resp e where r: "r = (resp, e)" by fastforce
  note n = next_answers [OF assms(3) [unfolded r]]
  let ?s1 = "s\<lparr>b_now := w_now w'\<rparr>"
  have "solo parse opts base i s (at_call i (Answered r) (burst_feed resp ?s1))"
    by (rule solo_run [of _ _ _ "[Elapse (w_now w' - w_now w), Response i r]"])
      (use n assms(1,2) in \<open>simp_all add: call_step_def shows_world_def r\<close>)
  moreover have "shows_world (at_call i (Answered r) (burst_feed resp ?s1)) w'"
    using n assms(1) by (simp add: shows_world_def)
  ultimately show ?thesis
    by (intro exI [of _ "at_call i (Answered r) (burst_feed resp ?s1)"]) simp
qed

lemma solo_spend:
  assumes "shows_world s w" "b_calls s i = Spending req"
    and "nxt req (w\<lparr>w_cache := Decrement 1 (w_cache w)\<rparr>) = (r, w')"
  shows "\<exists>s'. solo parse opts base i s s' \<and> shows_world s' w' \<and> b_calls s' = (b_calls s)(i := Answered r)"
proof -
  let ?s1 = "at_call i (Sending req) (s\<lparr>b_cache := Decrement 1 (b_cache s), b_since := b_since s + 1\<rparr>)"
  have "solo parse opts base i s ?s1"
    by (rule solo_run [of _ _ _ "[Proceed i]"]) (simp_all add: call_step_def proceed_def assms(2))
  moreover have "shows_world ?s1 (w\<lparr>w_cache := Decrement 1 (w_cache w)\<rparr>)" "b_calls ?s1 i = Sending req"
    using assms(1) by (simp_all add: shows_world_def)
  from solo_send [OF this assms(3)] obtain s' where
    "solo parse opts base i ?s1 s'" "shows_world s' w'" "b_calls s' = (b_calls ?s1)(i := Answered r)" by blast
  ultimately show ?thesis by (intro exI [of _ s']) (auto intro: solo_trans)
qed

text \<open>A call that waits for the reset waits as the wall clock sleeps.\<close>

lemma solo_hold:
  assumes "shows_world s w" "b_calls s i = Holding req (w_now w + d)" "0 < d"
    and sl: "wallClock_sleep (req_Context req) d w = (eo, w')"
  shows "\<exists>s'. solo parse opts base i s s' \<and> shows_world s' w'
    \<and> b_calls s' = (b_calls s)(i := case eo of None \<Rightarrow> Spending req | Some e \<Rightarrow> Answered (None, Some e))"
proof -
  have sleep: "clk_sleep wallClock (req_Context req) d w = (eo, w')" using sl by (simp add: wallClock_def)
  note f = wall.sleep_fields [OF sleep]
  let ?s2 = "s\<lparr>b_now := w_now w'\<rparr>"
  have s2: "solo parse opts base i s ?s2"
    by (rule solo_run [of _ _ _ "[Elapse (w_now w' - w_now w)]"])
      (use f(6) assms(1) in \<open>simp_all add: call_step_def shows_world_def\<close>)
  show ?thesis
  proof (cases eo)
    case None
    with wall.sleep_full [of "req_Context req" d w w'] sleep have "w_now w + d \<le> w_now w'" by simp
    then have "solo parse opts base i ?s2 (at_call i (Spending req) ?s2)"
      by (intro solo_run [of _ _ _ "[Proceed i]"]) (simp_all add: call_step_def proceed_def assms(2))
    from solo_trans [OF s2 this] show ?thesis
      using f assms(1) None
      by (intro exI [of _ "at_call i (Spending req) ?s2"]) (simp add: shows_world_def)
  next
    case (Some e)
    with sleep obtain t cause where "ctx_done (req_Context req) = Some (t, cause)" "e = CtxError cause" "t \<le> w_now w'"
      using wall_sleep_cut by blast
    then have "solo parse opts base i ?s2 (at_call i (Answered (None, Some e)) ?s2)"
      by (intro solo_run [of _ _ _ "[Interrupted i]"]) (simp_all add: call_step_def assms(2))
    from solo_trans [OF s2 this] show ?thesis
      using f assms(1) Some
      by (intro exI [of _ "at_call i (Answered (None, Some e)) ?s2"]) (simp add: shows_world_def)
  qed
qed

lemma solo_decide:
  assumes "shows_world s w" "b_calls s i = Deciding req snap" "budget_decision opts wallClock req snap w = (eo, w')"
  shows "\<exists>s'. solo parse opts base i s s' \<and> shows_world s' w'
    \<and> b_calls s' = (b_calls s)(i := case eo of None \<Rightarrow> Spending req | Some e \<Rightarrow> Answered (None, Some e))"
proof -
  let ?wait = "time_Sub (ResetAt snap) (w_now w)"
  let ?s1 = "at_call i (decide opts (w_now w) req snap) s"
  have now: "clk_now wallClock w = w_now w" by (rule wall.now_reads)
  have s1: "solo parse opts base i s ?s1"
    by (rule solo_run [of _ _ _ "[Proceed i]"])
      (use assms(1,2) in \<open>simp_all add: call_step_def proceed_def shows_world_def\<close>)
  show ?thesis
  proof (cases "Remaining snap > MinRemaining opts \<or> ?wait \<le> 0 \<or> ?wait > MaxWait opts")
    case True
    then have "w' = w" "decide opts (w_now w) req snap = (case eo of None \<Rightarrow> Spending req | Some e \<Rightarrow> Answered (None, Some e))"
      using assms(3) by (auto simp: budget_decision_def decide_def now Let_def split: if_splits)
    then show ?thesis
      using s1 assms(1) by (intro exI [of _ ?s1]) (simp add: shows_world_def)
  next
    case False
    then have hold: "decide opts (w_now w) req snap = Holding req (w_now w + ?wait)"
      by (simp add: decide_def Let_def)
    have sl: "wallClock_sleep (req_Context req) ?wait w = (eo, w')"
      using False assms(3) unfolding budget_decision_def now Let_def by (simp add: wallClock_def)
    have "shows_world ?s1 w" "b_calls ?s1 i = Holding req (w_now w + ?wait)"
      using assms(1) hold by (simp_all add: shows_world_def)
    moreover have "0 < ?wait" using False by linarith
    ultimately obtain s' where s': "solo parse opts base i ?s1 s'"
      "shows_world s' w'"
      "b_calls s' = (b_calls ?s1)(i := case eo of None \<Rightarrow> Spending req | Some e \<Rightarrow> Answered (None, Some e))"
      using solo_hold [OF _ _ _ sl, of ?s1 i parse opts base] by blast
    with solo_trans [OF s1 s'(1)] show ?thesis by (intro exI [of _ s']) simp
  qed
qed

lemma solo_attempts:
  fixes rs :: "rt_result list"
  assumes "b_calls s i = Probing req"
  shows "\<exists>s'. solo parse opts base i s s' \<and> b_cache s' = fold (\<lambda>r. feed_response (fst r)) rs (b_cache s)
    \<and> b_now s' = b_now s \<and> b_lastAttempt s' = b_lastAttempt s \<and> b_calls s' = b_calls s"
  using assms
proof (induction rs arbitrary: s)
  case Nil
  then show ?case by (intro exI [of _ s]) (simp add: solo_refl)
next
  case (Cons r rs)
  let ?s1 = "burst_feed (fst r) s"
  have "solo parse opts base i s ?s1"
    by (rule solo_run [of _ _ _ "[ProbeAttempt i r]"]) (simp_all add: call_step_def Cons.prems)
  with Cons.IH [of ?s1] Cons.prems show ?case by (auto intro: solo_trans)
qed

text \<open>The probe's answers come in, and the call goes on with the budget or without.\<close>

lemma solo_probing:
  assumes "shows_world s w1" "b_calls s i = Probing req" "prober_next p q w1 = (x, w2)"
    and "probe_outcome x w2 = (pr, w')"
  shows "\<exists>s'. solo parse opts base i s s' \<and> shows_world s' w'
    \<and> b_calls s' = (b_calls s)(i := case pr of Inl e \<Rightarrow> Spending req | Inr snap \<Rightarrow> Deciding req snap)"
proof -
  obtain resp e where x: "x = (resp, e)" by fastforce
  note pa = probe_answers [OF assms(3) [unfolded x]]
  from pa obtain rs :: "rt_result list" where
    "w_cache w2 = fold (\<lambda>r. feed_response (fst r)) rs (w_cache w1)" by blast
  with solo_attempts [OF assms(2), of parse opts base rs] assms(1) obtain s2 where
    s2: "solo parse opts base i s s2" "b_cache s2 = w_cache w2" "b_now s2 = w_now w1"
      "b_lastAttempt s2 = w_lastAttempt w1" "b_calls s2 = b_calls s"
    by (auto simp: shows_world_def)
  let ?s3 = "s2\<lparr>b_now := w_now w2\<rparr>"
  have "solo parse opts base i s2 ?s3"
    by (rule solo_run [of _ _ _ "[Elapse (w_now w2 - w_now w1)]"]) (use pa s2 in \<open>simp_all add: call_step_def\<close>)
  note to3 = solo_trans [OF s2(1) this]
  have sw3: "shows_world ?s3 w2" using s2 pa by (simp add: shows_world_def)
  show ?thesis
  proof (cases "e = None \<and> (\<exists>r. resp = Some r \<and> StatusCode r < StatusBadRequest)")
    case True
    let ?s4 = "read_budget i req (Spending req) (at_call i (Probed req) ?s3)"
    have "solo parse opts base i ?s3 ?s4"
      by (rule solo_run [of _ _ _ "[ProbeReturned i x, Proceed i]"])
        (use True s2(5) assms(2) x in \<open>auto simp: call_step_def probe_returned_def proceed_def\<close>)
    from solo_trans [OF to3 this] True assms(4) sw3 s2(5) x show ?thesis
      by (intro exI [of _ ?s4])
        (auto simp: probe_outcome_def shows_world_def read_budget_def split: prod.splits bool.splits)
  next
    case False
    have "solo parse opts base i ?s3 (at_call i (Spending req) ?s3)"
      by (rule solo_run [of _ _ _ "[ProbeReturned i x]"])
        (use False pa s2(5) assms(2) x in \<open>auto simp: call_step_def probe_returned_def split: option.splits\<close>)
    from solo_trans [OF to3 this] False assms(4) sw3 s2(5) x pa show ?thesis
      by (intro exI [of _ "at_call i (Spending req) ?s3"])
        (auto simp: probe_outcome_def shows_world_def split: option.splits)
  qed
qed

lemma solo_probe:
  assumes "shows_world s w" "b_calls s i = AtProber req"
    and "probe parse wallClock p (req_Context req) base w = (pr, w')"
  shows "\<exists>s'. solo parse opts base i s s' \<and> shows_world s' w'
    \<and> b_calls s' = (b_calls s)(i := case pr of Inl e \<Rightarrow> Spending req | Inr snap \<Rightarrow> Deciding req snap)"
proof -
  have now: "clk_now wallClock w = w_now w" by (rule wall.now_reads)
  have sw: "b_now s = w_now w" "b_cache s = w_cache w" "b_lastAttempt s = w_lastAttempt w"
    using assms(1) by (simp_all add: shows_world_def)
  let ?s1 = "prober_section parse base i req s"
  let ?cooling = "\<not> time_IsZero (w_lastAttempt w) \<and> time_Sub (w_now w) (w_lastAttempt w) < probeCooldown"
  let ?request = "\<lambda>b. new_get_request parse (req_Context req) (url_String (probe_target b))"
  have s1: "solo parse opts base i s ?s1"
    by (rule solo_run [of _ _ _ "[Proceed i]"]) (simp_all add: call_step_def proceed_def assms(2))
  consider (refused) "base = None \<or> (\<exists>b e. base = Some b \<and> \<not> ?cooling \<and> ?request b = Inl e)"
    | (cooling) b where "base = Some b" "?cooling"
    | (sent) b q where "base = Some b" "\<not> ?cooling" "?request b = Inr q"
    by (cases base) (auto, metis sum.exhaust)
  then show ?thesis
  proof cases
    case refused
    with assms(1,3) s1 sw show ?thesis
      by (intro exI [of _ ?s1]) (auto simp: probe_def prober_section_def shows_world_def now)
  next
    case cooling
    let ?s2 = "read_budget i req (Spending req) ?s1"
    have "solo parse opts base i ?s1 ?s2"
      by (rule solo_run [of _ _ _ "[Proceed i]"])
        (use cooling in \<open>simp_all add: call_step_def proceed_def prober_section_def sw\<close>)
    from solo_trans [OF s1 this] cooling assms(1,3) sw show ?thesis
      by (intro exI [of _ ?s2])
        (auto simp: probe_def prober_section_def shows_world_def now read_budget_def split: prod.splits bool.splits)
  next
    case sent
    let ?w1 = "w\<lparr>w_lastAttempt := w_now w\<rparr>"
    obtain x w2 where run: "prober_next p (probe_headers (prober_token p) q) ?w1 = (x, w2)" by fastforce
    have out: "probe_outcome x w2 = (pr, w')"
      using assms(3) sent run now by (simp add: probe_def Let_def probe_outcome_def split: prod.splits option.splits)
    have st: "shows_world ?s1 ?w1" "b_calls ?s1 = (b_calls s)(i := Probing req)"
      using sent sw by (auto simp: prober_section_def shows_world_def)
    then have "b_calls ?s1 i = Probing req" by simp
    from solo_probing [OF st(1) this run out, of parse opts base] st(2) show ?thesis
      by (auto intro: solo_trans [OF s1])
  qed
qed

lemma solo_await:
  assumes "shows_world s w" "b_calls s i = Entered req" "rl_Enabled opts" "\<not> isRateLimitProbe req"
    and "awaitBudget parse opts wallClock p base req w = (eo, w')"
  shows "\<exists>s'. solo parse opts base i s s' \<and> shows_world s' w'
    \<and> b_calls s' = (b_calls s)(i := case eo of None \<Rightarrow> Spending req | Some e \<Rightarrow> Answered (None, Some e))"
proof -
  let ?s1 = "read_budget i req (AtProber req) s"
  have s1: "solo parse opts base i s ?s1"
    by (rule solo_run [of _ _ _ "[Proceed i]"]) (use assms(2-4) in \<open>simp_all add: call_step_def proceed_def\<close>)
  have sw1: "shows_world ?s1 w" using assms(1) by (simp add: shows_world_def)
  have decided: "\<exists>s2. solo parse opts base i s s2 \<and> shows_world s2 w'
      \<and> b_calls s2 = (b_calls s)(i := case eo of None \<Rightarrow> Spending req | Some e \<Rightarrow> Answered (None, Some e))"
    if "solo parse opts base i s s0" "shows_world s0 w0" "b_calls s0 = (b_calls s)(i := Deciding req snap)"
      "budget_decision opts wallClock req snap w0 = (eo, w')" for s0 w0 snap
  proof -
    have "b_calls s0 i = Deciding req snap" using that(3) by simp
    from solo_decide [OF that(2) this that(4), of parse base] that(3) show ?thesis
      by (auto intro: solo_trans [OF that(1)])
  qed
  obtain snap k where g: "Get (w_cache w) = (snap, k)" by fastforce
  show ?thesis
  proof (cases k)
    case True
    with g assms(1,5) show ?thesis
      by (intro decided [OF s1 sw1]) (simp_all add: read_budget_def shows_world_def awaitBudget_def)
  next
    case False
    obtain pr w1 where pr: "probe parse wallClock p (req_Context req) base w = (pr, w1)" by fastforce
    have calls: "b_calls ?s1 = (b_calls s)(i := AtProber req)"
      using False g assms(1) by (simp add: read_budget_def shows_world_def)
    then have "b_calls ?s1 i = AtProber req" by simp
    from solo_probe [OF sw1 this pr] calls obtain s3 where
      s3: "solo parse opts base i ?s1 s3" "shows_world s3 w1"
        "b_calls s3 = (b_calls s)(i := case pr of Inl e \<Rightarrow> Spending req | Inr snap \<Rightarrow> Deciding req snap)"
      by auto
    note to3 = solo_trans [OF s1 s3(1)]
    show ?thesis
    proof (cases pr)
      case (Inl e)
      with assms(5) g False pr have "eo = None" "w' = w1" by (simp_all add: awaitBudget_def)
      with to3 s3 Inl show ?thesis by auto
    next
      case (Inr probed)
      with assms(5) g False pr s3 show ?thesis
        by (intro decided [OF to3]) (auto simp: awaitBudget_def)
    qed
  qed
qed

lemma solo_gate:
  assumes "shows_world s w" "b_calls s i = Entered req"
    and "gateTransport_RoundTrip parse opts wallClock p base nxt req w = (r, w')"
  shows "\<exists>s'. solo parse opts base i s s' \<and> shows_world s' w' \<and> b_calls s' = (b_calls s)(i := Answered r)"
proof (cases "\<not> rl_Enabled opts \<or> isRateLimitProbe req")
  case True
  let ?s1 = "at_call i (Sending req) s"
  have s1: "solo parse opts base i s ?s1"
    by (rule solo_run [of _ _ _ "[Proceed i]"]) (use True assms(2) in \<open>simp_all add: call_step_def proceed_def\<close>)
  have "nxt req w = (r, w')" using True assms(3) by (simp add: gateTransport_RoundTrip_def)
  with solo_send [of ?s1 w i req r w' parse opts base] assms(1) show ?thesis
    by (auto simp: shows_world_def intro: solo_trans s1)
next
  case False
  obtain eo w2 where aw: "awaitBudget parse opts wallClock p base req w = (eo, w2)" by fastforce
  from solo_await [OF assms(1,2) _ _ aw] False obtain s2 where
    s2: "solo parse opts base i s s2" "shows_world s2 w2"
      "b_calls s2 = (b_calls s)(i := case eo of None \<Rightarrow> Spending req | Some e \<Rightarrow> Answered (None, Some e))"
    by blast
  show ?thesis
  proof (cases eo)
    case None
    with assms(3) False aw have "nxt req (w2\<lparr>w_cache := Decrement 1 (w_cache w2)\<rparr>) = (r, w')"
      by (simp add: gateTransport_RoundTrip_def)
    from solo_spend [OF s2(2) _ this, where i = i and parse = parse and opts = opts and base = base] s2 None
    show ?thesis by (auto intro: solo_trans [OF s2(1)])
  next
    case (Some e)
    with assms(3) False aw have "r = (None, Some e)" "w' = w2" by (simp_all add: gateTransport_RoundTrip_def)
    with s2 Some show ?thesis by auto
  qed
qed

end

interpretation plain_calls: gate_calls
  "feedTransport_RoundTrip (retryTransport_RoundTrip opts wallClock (base_RoundTrip net))"
  "plain_prober opts net token" for opts and net :: "'n network" and token
proof
  fix req resp e and w w' :: "'n world"
  assume run: "feedTransport_RoundTrip (retryTransport_RoundTrip opts wallClock (base_RoundTrip net)) req w
    = ((resp, e), w')"
  then obtain w1 where w1: "retryTransport_RoundTrip opts wallClock (base_RoundTrip net) req w = ((resp, e), w1)"
    "w' = w1\<lparr>w_cache := feed_response resp (w_cache w1)\<rparr>"
    by (auto simp: feedTransport_RoundTrip_def split: prod.splits)
  show "w_now w \<le> w_now w' \<and> w_cache w' = feed_response resp (w_cache w) \<and> w_lastAttempt w' = w_lastAttempt w"
    using plain_fed.fed.time_flows [OF run] main_effect.retry_effect [OF w1(1)] w1(2)
    by (simp add: fold_no_effect)
next
  fix req resp e and w w' :: "'n world"
  assume "prober_next (plain_prober opts net token) req w = ((resp, e), w')"
  then have run: "retryTransport_RoundTrip opts wallClock (feedTransport_RoundTrip (base_RoundTrip net)) req w
    = ((resp, e), w')" by (simp add: plain_prober_def)
  have eq: "fold (\<lambda>(q, r). case r of (resp, e) \<Rightarrow> feed_response resp) xs c
      = fold (\<lambda>r. feed_response (fst r)) (map snd xs) c" for xs :: "(request \<times> rt_result) list" and c
    by (induction xs arbitrary: c) (auto simp: case_prod_beta)
  note cache = trans [OF probe_effect.retry_effect(1) [OF run] eq]
  show "(resp \<noteq> None \<or> e \<noteq> None) \<and> w_now w \<le> w_now w' \<and> w_lastAttempt w' = w_lastAttempt w
    \<and> (\<exists>rs :: rt_result list. w_cache w' = fold (\<lambda>r. feed_response (fst r)) rs (w_cache w))"
    using probe_effect.retry_effect(2) [OF run] probe_retried.retried.answers [OF run]
      probe_retried.retried.time_flows [OF run] cache by blast
qed

text \<open>A call alone is the sequential call.  If no other goroutine moves in between, a call through
  the gate of the plain kernel goes, in the steps of the concurrent model, from the same shared
  state to the same shared state and the same answer as the function \<open>gateTransport_RoundTrip\<close>.\<close>

theorem call_alone_is_sequential:
  assumes "b_now s = w_now w" "b_cache s = w_cache w" "b_lastAttempt s = w_lastAttempt w"
    and "b_calls s i = Entered req"
    and "gateTransport_RoundTrip parse opts wallClock (plain_prober ropts net token) base
      (feedTransport_RoundTrip (retryTransport_RoundTrip ropts wallClock (base_RoundTrip net))) req w = (r, w')"
  shows "\<exists>ls s'. burst_run parse opts base ls s = Some s' \<and> list_all (own i) ls
    \<and> b_now s' = w_now w' \<and> b_cache s' = w_cache w' \<and> b_lastAttempt s' = w_lastAttempt w'
    \<and> b_calls s' = (b_calls s)(i := Answered r)"
proof -
  have "shows_world s w" using assms(1-3) by (simp add: shows_world_def)
  from plain_calls.solo_gate [OF this assms(4,5)] show ?thesis
    by (auto simp: solo_def shows_world_def)
qed


section \<open>No call waits for another\<close>

text \<open>From \<open>s\<close>, call \<open>i\<close> can be brought to its answer in at most \<open>n\<close> steps of its own and
  at most \<open>d\<close> of waiting.\<close>

definition finishes :: "(string \<Rightarrow> err + url) \<Rightarrow> RateLimitOptions \<Rightarrow> url option \<Rightarrow> nat \<Rightarrow> nat \<Rightarrow> duration
    \<Rightarrow> burst \<Rightarrow> bool" where
  "finishes parse opts base i n d s \<longleftrightarrow>
     (\<exists>ls s'. burst_run parse opts base ls s = Some s' \<and> list_all (own i) ls \<and> length ls \<le> n
        \<and> (\<exists>r. b_calls s' = (b_calls s)(i := Answered r)) \<and> b_now s' \<le> b_now s + d)"

lemma finishes_answered: "b_calls s i = Answered r \<Longrightarrow> 0 \<le> d \<Longrightarrow> finishes parse opts base i n d s"
  unfolding finishes_def
  by (intro exI [of _ "[]"] exI [of _ s]) (auto simp: fun_eq_iff)

lemma finishes_step:
  assumes "call_step parse opts base l s = Some s1" "own i l" "b_calls s1 = (b_calls s)(i := pc)"
    and "finishes parse opts base i n d s1" "b_now s1 + d \<le> b_now s + d'"
  shows "finishes parse opts base i (Suc n) d' s"
proof -
  from assms(4) obtain ls s' r where
    "burst_run parse opts base ls s1 = Some s'" "list_all (own i) ls" "length ls \<le> n"
    "b_calls s' = (b_calls s1)(i := Answered r)" "b_now s' \<le> b_now s1 + d"
    by (auto simp: finishes_def)
  with assms(1-3,5) have "burst_run parse opts base (l # ls) s = Some s'" "list_all (own i) (l # ls)"
    "length (l # ls) \<le> Suc n" "b_calls s' = (b_calls s)(i := Answered r)" "b_now s' \<le> b_now s + d'"
    by simp_all
  then show ?thesis unfolding finishes_def by blast
qed

lemma finishes_mono: "finishes parse opts base i n d s \<Longrightarrow> n \<le> n' \<Longrightarrow> d \<le> d' \<Longrightarrow> finishes parse opts base i n' d' s"
  unfolding finishes_def by (meson add_left_mono order_trans)

lemma sending_finishes: "b_calls s i = Sending req \<Longrightarrow> finishes parse opts base i 1 0 s"
  using finishes_step [where l = "Response i (None, None)" and s = s and n = 0 and d = 0 and d' = 0]
    finishes_answered [of "at_call i (Answered (None, None)) (burst_feed None s)" i _ 0]
  by (simp add: call_step_def)

lemma spending_finishes:
  assumes "b_calls s i = Spending req" "0 \<le> d"
  shows "finishes parse opts base i 2 d s"
proof -
  let ?s1 = "at_call i (Sending req) (s\<lparr>b_cache := Decrement 1 (b_cache s), b_since := b_since s + 1\<rparr>)"
  have "finishes parse opts base i 1 0 ?s1" by (rule sending_finishes) simp
  from finishes_step [OF _ _ _ this, of "Proceed i" s "Sending req" d] assms show ?thesis
    by (simp add: call_step_def proceed_def numeral_2_eq_2)
qed

lemma holding_finishes:
  assumes "b_calls s i = Holding req t" "t \<le> b_now s + d" "0 \<le> d"
  shows "finishes parse opts base i 4 d s"
proof -
  let ?s1 = "s\<lparr>b_now := max t (b_now s)\<rparr>" and ?s2 = "at_call i (Spending req) (s\<lparr>b_now := max t (b_now s)\<rparr>)"
  have "finishes parse opts base i 2 0 ?s2" by (rule spending_finishes) simp_all
  from finishes_step [OF _ _ _ this, of "Proceed i" ?s1 "Spending req" 0] assms(1)
  have "finishes parse opts base i 3 0 ?s1"
    by (simp add: call_step_def proceed_def numeral_2_eq_2 numeral_3_eq_3)
  moreover have "b_calls ?s1 = (b_calls s)(i := Holding req t)" using assms(1) by (simp add: fun_eq_iff)
  ultimately show ?thesis
    using finishes_step [of parse opts base "Elapse (max t (b_now s) - b_now s)" s ?s1 i "Holding req t" 3 0 d] assms
    by (simp add: call_step_def numeral_3_eq_3 eval_nat_numeral)
qed

lemma deciding_finishes:
  assumes "b_calls s i = Deciding req snap" "0 \<le> MaxWait opts"
  shows "finishes parse opts base i 5 (MaxWait opts) s"
proof -
  let ?s1 = "at_call i (decide opts (b_now s) req snap) s"
  have "finishes parse opts base i 4 (MaxWait opts) ?s1"
  proof (cases "decide opts (b_now s) req snap")
    case (Spending q)
    then show ?thesis
      using assms(2) by (intro finishes_mono [OF spending_finishes [of ?s1 i q]]) simp_all
  next
    case (Holding q t)
    then have "t \<le> b_now s + MaxWait opts" by (auto simp: decide_def Let_def split: if_splits)
    with Holding assms(2) show ?thesis by (intro holding_finishes [of ?s1 i q t]) simp_all
  next
    case (Answered r)
    with assms(2) show ?thesis by (intro finishes_answered) simp_all
  qed (auto simp: decide_def Let_def split: if_splits)
  from finishes_step [OF _ _ _ this, of "Proceed i" s] assms(1) show ?thesis
    by (simp add: call_step_def proceed_def eval_nat_numeral)
qed


lemma budget_read_finishes:
  assumes "pc = Spending req \<or> pc = AtProber req" "0 \<le> MaxWait opts"
    and "\<And>s. b_calls s i = pc \<Longrightarrow> finishes parse opts base i n (MaxWait opts) s" "5 \<le> n"
  shows "finishes parse opts base i n (MaxWait opts) (read_budget i req pc s)"
proof -
  let ?s = "read_budget i req pc s"
  obtain snap k where g: "Get (b_cache s) = (snap, k)" by fastforce
  show ?thesis
  proof (cases k)
    case True
    with g have "b_calls ?s i = Deciding req snap" by (simp add: read_budget_def)
    from finishes_mono [OF deciding_finishes [OF this assms(2)] assms(4)] show ?thesis by simp
  next
    case False
    with g show ?thesis by (intro assms(3)) (simp add: read_budget_def)
  qed
qed

lemma budget_seen_finishes:
  assumes "b_calls s i = CoolingDown req \<or> b_calls s i = Probed req" "0 \<le> MaxWait opts"
  shows "finishes parse opts base i 6 (MaxWait opts) s"
proof -
  have "finishes parse opts base i 5 (MaxWait opts) (read_budget i req (Spending req) s)"
    by (rule budget_read_finishes)
      (auto intro: finishes_mono [OF spending_finishes [of _ i req]] simp: assms(2))
  from finishes_step [OF _ _ _ this, of "Proceed i" s] assms(1) show ?thesis
    by (auto simp: call_step_def proceed_def read_budget_def eval_nat_numeral)
qed

lemma probing_finishes:
  assumes "b_calls s i = Probing req" "0 \<le> MaxWait opts"
  shows "finishes parse opts base i 3 (MaxWait opts) s"
proof -
  have "finishes parse opts base i 2 (MaxWait opts) (at_call i (Spending req) s)"
    by (rule spending_finishes) (simp_all add: assms(2))
  from finishes_step [OF _ _ _ this, of "ProbeReturned i (None, Some nil_dereference)" s] assms(1) show ?thesis
    by (simp add: call_step_def probe_returned_def eval_nat_numeral)
qed

lemma prober_finishes:
  assumes "b_calls s i = AtProber req" "0 \<le> MaxWait opts"
  shows "finishes parse opts base i 7 (MaxWait opts) s"
proof -
  let ?s1 = "prober_section parse base i req s"
  obtain pc where pc: "b_calls ?s1 = (b_calls s)(i := pc)"
    "pc = Spending req \<or> pc = CoolingDown req \<or> pc = Probing req" by (rule prober_section_calls)
  from pc(2) have "finishes parse opts base i 6 (MaxWait opts) ?s1"
  proof (elim disjE)
    assume "pc = Spending req"
    with pc(1) assms(2) show ?thesis by (intro finishes_mono [OF spending_finishes [of ?s1 i req]]) auto
  next
    assume "pc = CoolingDown req"
    with pc(1) assms(2) show ?thesis by (intro budget_seen_finishes) auto
  next
    assume "pc = Probing req"
    with pc(1) assms(2) show ?thesis by (intro finishes_mono [OF probing_finishes [of ?s1 i req]]) auto
  qed
  from finishes_step [OF _ _ pc(1) this, of "Proceed i"] assms(1) show ?thesis
    by (simp add: call_step_def proceed_def eval_nat_numeral)
qed

lemma entered_finishes:
  assumes "b_calls s i = Entered req" "0 \<le> MaxWait opts"
  shows "finishes parse opts base i 8 (MaxWait opts) s"
proof (cases "\<not> rl_Enabled opts \<or> isRateLimitProbe req")
  case True
  let ?s1 = "at_call i (Sending req) s"
  have "finishes parse opts base i 7 (MaxWait opts) ?s1"
    using assms(2) by (intro finishes_mono [OF sending_finishes [of ?s1 i req]]) auto
  from finishes_step [OF _ _ _ this, of "Proceed i" s] assms(1) True show ?thesis
    by (simp add: call_step_def proceed_def eval_nat_numeral)
next
  case False
  have "finishes parse opts base i 7 (MaxWait opts) (read_budget i req (AtProber req) s)"
    using assms(2) by (intro budget_read_finishes) (auto intro: prober_finishes)
  from finishes_step [OF _ _ _ this, of "Proceed i" s] assms(1) False show ?thesis
    by (auto simp: call_step_def proceed_def read_budget_def eval_nat_numeral)
qed

text \<open>A wait never ends later than \<open>MaxWait\<close> from now.\<close>

lemma waits_bounded:
  assumes "burst_run parse opts base ls (burst_start t0) = Some s"
  shows "\<forall>i req t. b_calls s i = Holding req t \<longrightarrow> t \<le> b_now s + MaxWait opts"
  using assms
proof (induction rule: burst_run_induct)
  case start
  then show ?case by (simp add: burst_start_def)
next
  case (move ls s l s')
  have d: "decide opts now req snap = Holding req' t \<Longrightarrow> t \<le> now + MaxWait opts" for now req snap req' t
    by (auto simp: decide_def Let_def split: if_splits)
  have g: "b_calls (read_budget j req pc s) = (b_calls s)(j :=
      if snd (Get (b_cache s)) then Deciding req (fst (Get (b_cache s))) else pc)" for j req pc
    by (auto simp: read_budget_def split: prod.splits bool.splits)
  have p: "b_calls (prober_section parse base j req s) i = Holding req' t \<Longrightarrow> b_calls s i = Holding req' t"
    for i j req req' t
    by (rule prober_section_calls [of parse base j req s]) (auto split: if_splits)
  from move.hyps(2) move.IH call_step_time [OF move.hyps(2)] show ?case
    by (auto simp: call_step_def proceed_def probe_returned_def g
        split: call_label.splits call.splits option.splits if_splits prod.splits dest!: d p) fastforce
qed

text \<open>C12. A call is released.  At any moment of any run, and whatever the other calls are doing, a
  call in the gate can be brought to its answer by its own steps, the answers it waits for and the
  passing of at most \<open>MaxWait\<close>: no call waits for another one.\<close>

theorem call_never_blocked_by_others:
  assumes "burst_run parse opts base ls (burst_start t0) = Some s" "0 \<le> MaxWait opts" "b_calls s i \<noteq> Absent"
  shows "\<exists>ls' s' r. burst_run parse opts base ls' s = Some s' \<and> list_all (own i) ls' \<and> length ls' \<le> 8
    \<and> b_calls s' = (b_calls s)(i := Answered r) \<and> b_now s' \<le> b_now s + MaxWait opts"
proof -
  have "finishes parse opts base i 8 (MaxWait opts) s"
  proof (cases "b_calls s i")
    case (Entered req)
    then show ?thesis using assms(2) by (rule entered_finishes)
  next
    case (AtProber req)
    from finishes_mono [OF prober_finishes [OF this assms(2)]] show ?thesis by simp
  next
    case (CoolingDown req)
    from finishes_mono [OF budget_seen_finishes [OF disjI1 [OF this] assms(2)]] show ?thesis by simp
  next
    case (Probing req)
    from finishes_mono [OF probing_finishes [OF this assms(2)]] show ?thesis by simp
  next
    case (Probed req)
    from finishes_mono [OF budget_seen_finishes [OF disjI2 [OF this] assms(2)]] show ?thesis by simp
  next
    case (Deciding req snap)
    from finishes_mono [OF deciding_finishes [OF this assms(2)]] show ?thesis by simp
  next
    case (Holding req t)
    with waits_bounded [OF assms(1)] have "t \<le> b_now s + MaxWait opts" by blast
    from finishes_mono [OF holding_finishes [OF Holding this assms(2)]] show ?thesis by simp
  next
    case (Spending req)
    from finishes_mono [OF spending_finishes [OF this assms(2)]] show ?thesis by simp
  next
    case (Sending req)
    from finishes_mono [OF sending_finishes [OF this] _ assms(2)] show ?thesis by simp
  next
    case (Answered r)
    from finishes_answered [OF this assms(2)] show ?thesis .
  qed (use assms(3) in simp)
  then show ?thesis unfolding finishes_def by blast
qed


section \<open>Concrete runs\<close>

definition budget_answer :: "string \<Rightarrow> rt_result" where
  "budget_answer remaining = (Some (example_response 200
     [(''X-Ratelimit-Limit'', [''5000'']), (''X-Ratelimit-Remaining'', [remaining]),
      (''X-Ratelimit-Reset'', [''3600''])]), None)"

definition unix_epoch :: time where
  "unix_epoch = 62135596800 * second"

text \<open>One call that teaches the gate a budget, and calls that arrive together and read it.\<close>

definition first_call :: "string \<Rightarrow> call_label list" where
  "first_call remaining =
     [Arrive 0 (example_request ''GET''), Proceed 0, Proceed 0, Proceed 0, Response 0 (budget_answer remaining)]"

definition enter_together :: "nat list \<Rightarrow> call_label list" where
  "enter_together is = map (\<lambda>i. Arrive i (example_request ''GET'')) is @ map Proceed is @ map Proceed is @ map Proceed is"

definition no_parse :: "string \<Rightarrow> err + url" where
  "no_parse s = Inl (OtherError s)"

text \<open>The bound on the overshoot is attained: eleven requests remain, one above the floor, and three
  calls at once all pass.\<close>

theorem burst_overshoot_bounded_witness:
  "\<exists>s snap. burst_run no_parse example_rate_options None (first_call ''11'' @ enter_together [0, 1, 2])
       (burst_start unix_epoch) = Some s
     \<and> Get (b_cache s) = (snap, True) \<and> Remaining snap = 8 \<and> b_reported s = 11
     \<and> b_since s = 3 \<and> int (b_since s) \<le> max 0 (b_reported s - MinRemaining example_rate_options - 1) + 3"
proof -
  let ?ls = "first_call ''11'' @ enter_together [0, 1, 2]"
  let ?snap = "\<lparr>Limit = 5000, Remaining = 8, ResetAt = 62135600400 * second\<rparr>"
  have "map_option (\<lambda>s. (Get (b_cache s), b_reported s, b_since s, b_now s))
      (burst_run no_parse example_rate_options None ?ls (burst_start unix_epoch))
    = Some ((?snap, True), 11, 3, unix_epoch)"
    by code_simp
  then obtain s where s: "burst_run no_parse example_rate_options None ?ls (burst_start unix_epoch) = Some s"
    "Get (b_cache s) = (?snap, True)" "b_reported s = 11" "b_since s = 3" "b_now s = unix_epoch" by auto
  have "int (b_since s) \<le> max 0 (b_reported s - MinRemaining example_rate_options - 1) + int 3"
    by (rule burst_overshoot_bounded [OF s(1) _ _ _ _ s(2)])
      (simp_all add: first_call_def enter_together_def example_rate_options_def s in_int64_def unix_epoch_def)
  with s show ?thesis by auto
qed

text \<open>Observing a run.\<close>

lemma run_shows: "map_option f x = Some y \<Longrightarrow> \<exists>s. x = Some s \<and> f s = y"
  by auto

fun sending :: "call \<Rightarrow> bool" where
  "sending (Sending req) \<longleftrightarrow> True"
| "sending _ \<longleftrightarrow> False"

lemma sending_iff: "sending c \<longleftrightarrow> (\<exists>req. c = Sending req)"
  by (cases c) auto

text \<open>Two calls find the cache empty at the same time: one attempt, and while the first waits for
  the probe's answer the second has gone ahead.\<close>

definition both_probe :: "call_label list" where
  "both_probe = map (\<lambda>i. Arrive i (example_request ''GET'')) [0, 1] @ map Proceed [0, 1, 0, 1, 1, 1]"

theorem burst_probes_spaced_witness:
  "\<exists>s. burst_run (\<lambda>u. Inr example_url) example_rate_options (Some example_url) both_probe
       (burst_start unix_epoch) = Some s
     \<and> b_attempts s = [unix_epoch] \<and> sorted_wrt (\<lambda>t u. t + 30 * second \<le> u) (b_attempts s)"
proof -
  have "map_option b_attempts (burst_run (\<lambda>u. Inr example_url) example_rate_options (Some example_url)
      both_probe (burst_start unix_epoch)) = Some [unix_epoch]"
    by code_simp
  from run_shows [OF this] obtain s where
    s: "burst_run (\<lambda>u. Inr example_url) example_rate_options (Some example_url) both_probe
      (burst_start unix_epoch) = Some s" "b_attempts s = [unix_epoch]" by blast
  with burst_probes_spaced [OF s(1)] show ?thesis by (simp add: unix_epoch_def)
qed

theorem call_never_blocked_by_others_witness:
  "\<exists>s ls' s' r. burst_run (\<lambda>u. Inr example_url) example_rate_options (Some example_url) both_probe
       (burst_start unix_epoch) = Some s \<and> sending (b_calls s 1)
     \<and> burst_run (\<lambda>u. Inr example_url) example_rate_options (Some example_url) ls' s = Some s'
     \<and> list_all (own 1) ls' \<and> length ls' \<le> 8 \<and> b_calls s' = (b_calls s)(1 := Answered r)"
proof -
  have "map_option (\<lambda>s. sending (b_calls s 1)) (burst_run (\<lambda>u. Inr example_url) example_rate_options
      (Some example_url) both_probe (burst_start unix_epoch)) = Some True"
    by code_simp
  from run_shows [OF this] obtain s where
    s: "burst_run (\<lambda>u. Inr example_url) example_rate_options (Some example_url) both_probe
      (burst_start unix_epoch) = Some s" "sending (b_calls s 1)" by auto
  then have "b_calls s 1 \<noteq> Absent" "0 \<le> MaxWait example_rate_options"
    by (auto simp: example_rate_options_def)
  from call_never_blocked_by_others [OF s(1) this(2,1)] s show ?thesis by blast
qed

theorem call_alone_is_sequential_witness:
  "\<exists>ls s'. burst_run no_parse example_rate_options None ls
      (at_call 0 (Entered (example_request ''GET'')) (burst_start 1000)) = Some s'
    \<and> list_all (own 0) ls \<and> b_now s' = 1001000"
proof -
  let ?s = "at_call 0 (Entered (example_request ''GET'')) (burst_start 1000)"
  let ?run = "gateTransport_RoundTrip no_parse example_rate_options wallClock
      (plain_prober default_retry (always 200 []) []) None
      (feedTransport_RoundTrip (retryTransport_RoundTrip default_retry wallClock (base_RoundTrip (always 200 []))))
      (example_request ''GET'') example_world"
  have eq: "?run = (fst ?run, snd ?run)" by simp
  have now: "w_now (snd ?run) = 1001000" by code_simp
  from call_alone_is_sequential [OF _ _ _ _ eq, of ?s 0] now show ?thesis
    by (auto simp: burst_start_def example_world_def)
qed

end
