(* ===== verification/BurstVerdicts.thy ===== *)
theory BurstVerdicts
  imports BurstRuns
begin

text \<open>
  What becomes of one call among many in the gate of \<open>src/transport.go\<close>: the budget a call has
  read decides its fate, whatever the other calls do to the shared cache meanwhile; and which
  budget a call reads depends on the order in which answers arrive, not on the order in which the
  server gave them.
\<close>

section \<open>The budget read decides\<close>

text \<open>A budget lets a call go at once: it is above the floor, or its window is over.\<close>

definition may_go :: "RateLimitOptions \<Rightarrow> RateLimitSnapshot \<Rightarrow> time \<Rightarrow> bool" where
  "may_go opts snap now \<longleftrightarrow> MinRemaining opts < Remaining snap \<or> ResetAt snap \<le> now"

lemma may_go_later: "may_go opts snap now \<Longrightarrow> now \<le> now' \<Longrightarrow> may_go opts snap now'"
  by (auto simp: may_go_def)

text \<open>The rejection by the gate, and the end of a wait by the context.\<close>

definition gate_rejects :: "request \<Rightarrow> rt_result \<Rightarrow> bool" where
  "gate_rejects req r \<longleftrightarrow> (\<exists>cause. r = (None, Some (StatusError ErrRateLimited 0 (req_Method req)
     (url_String (req_URL req)) cause)))"

definition context_ends :: "request \<Rightarrow> time \<Rightarrow> rt_result \<Rightarrow> bool" where
  "context_ends req now r \<longleftrightarrow>
     (\<exists>t cause. ctx_done (req_Context req) = Some (t, cause) \<and> t \<le> now \<and> r = (None, Some (CtxError cause)))"

fun label_of :: "nat \<Rightarrow> call_label \<Rightarrow> bool" where
  "label_of i (Elapse d) \<longleftrightarrow> False"
| "label_of i (Arrive j req) \<longleftrightarrow> j = i"
| "label_of i (Proceed j) \<longleftrightarrow> j = i"
| "label_of i (ProbeAttempt j r) \<longleftrightarrow> j = i"
| "label_of i (ProbeReturned j r) \<longleftrightarrow> j = i"
| "label_of i (Interrupted j) \<longleftrightarrow> j = i"
| "label_of i (Response j r) \<longleftrightarrow> j = i"

lemma other_step:
  assumes "call_step parse opts base l s = Some s'" "\<not> label_of i l"
  shows "b_calls s' i = b_calls s i"
proof -
  have p: "b_calls (prober_section parse base j req s) i = b_calls s i" if "j \<noteq> i" for j req
    using that by (rule_tac prober_section_calls [of parse base j req s]) simp
  have g: "b_calls (read_budget j req pc s) i = b_calls s i" if "j \<noteq> i" for j req pc
    using that by (simp add: read_budget_def)
  show ?thesis
    using assms by (cases l) (auto simp: call_step_def proceed_def probe_returned_def p g
        split: call.splits option.splits if_splits prod.splits)
qed

lemma time_Sub_positive: "0 < time_Sub t u \<longleftrightarrow> u < t"
  by (auto simp: time_Sub_def clamp64_def)

text \<open>What the decision makes of a budget at a moment.\<close>

lemma decide_cases:
  assumes "in_int64 (MaxWait opts)" "MaxWait opts < max_int64"
  obtains (go) "decide opts now req snap = Spending req" "may_go opts snap now"
  | (reject) r where "decide opts now req snap = Answered r" "gate_rejects req r"
      "Remaining snap \<le> MinRemaining opts" "now + MaxWait opts < ResetAt snap"
  | (hold) "decide opts now req snap = Holding req (ResetAt snap)"
      "Remaining snap \<le> MinRemaining opts" "now < ResetAt snap" "ResetAt snap \<le> now + MaxWait opts"
proof -
  let ?wait = "time_Sub (ResetAt snap) now"
  have le: "?wait \<le> MaxWait opts \<longleftrightarrow> ResetAt snap - now \<le> MaxWait opts"
    using clamp64_less_iff [OF assms] by (simp add: time_Sub_def)
  consider "MinRemaining opts < Remaining snap \<or> ?wait \<le> 0"
    | "Remaining snap \<le> MinRemaining opts" "0 < ?wait" "MaxWait opts < ?wait"
    | "Remaining snap \<le> MinRemaining opts" "0 < ?wait" "?wait \<le> MaxWait opts"
    by linarith
  then show ?thesis
  proof cases
    case 1
    then show ?thesis by (intro go) (auto simp: decide_def may_go_def Let_def)
  next
    case 2
    then show ?thesis using le by (intro reject) (auto simp: decide_def gate_rejects_def Let_def time_Sub_positive)
  next
    case 3
    then have "?wait = ResetAt snap - now"
      using le assms(1) by (intro time_Sub_exact) (simp add: in_int64_def time_Sub_positive)
    with 3 le show ?thesis by (intro hold) (auto simp: decide_def Let_def)
  qed
qed

text \<open>What a call that has read \<open>snap\<close> at \<open>start\<close> may be doing at \<open>now\<close>, if the transport below has
  given it one of \<open>answers\<close>.\<close>

definition decided :: "RateLimitOptions \<Rightarrow> request \<Rightarrow> RateLimitSnapshot \<Rightarrow> time \<Rightarrow> rt_result set \<Rightarrow> time \<Rightarrow> call \<Rightarrow> bool" where
  "decided opts req snap start answers now c =
     (case c of
        Deciding q b \<Rightarrow> q = req \<and> b = snap
      | Spending q \<Rightarrow> q = req \<and> may_go opts snap now
      | Sending q \<Rightarrow> q = req \<and> may_go opts snap now
      | Holding q t \<Rightarrow> q = req \<and> t = ResetAt snap \<and> Remaining snap \<le> MinRemaining opts
          \<and> start < ResetAt snap \<and> ResetAt snap \<le> now + MaxWait opts
      | Answered r \<Rightarrow>
          may_go opts snap now \<and> r \<in> answers
          \<or> Remaining snap \<le> MinRemaining opts \<and> start + MaxWait opts < ResetAt snap \<and> gate_rejects req r
          \<or> Remaining snap \<le> MinRemaining opts \<and> start < ResetAt snap \<and> context_ends req now r
      | _ \<Rightarrow> False)"

lemma decided_later:
  assumes "decided opts req snap start answers now c" "now \<le> now'" "answers \<subseteq> answers'"
  shows "decided opts req snap start answers' now' c"
  using assms by (auto simp: decided_def context_ends_def split: call.splits intro: may_go_later)

lemma decided_step:
  assumes step: "call_step parse opts base l s = Some s'" and own: "label_of i l" "\<And>q. l \<noteq> Arrive i q"
    and c: "decided opts req snap start answers (b_now s) (b_calls s i)" "start \<le> b_now s"
    and opts: "in_int64 (MaxWait opts)" "MaxWait opts < max_int64"
  shows "decided opts req snap start (answers \<union> {r. l = Response i r}) (b_now s') (b_calls s' i)"
proof (cases "b_calls s i")
  case (Deciding q b)
  with c(1) have eq: "q = req" "b = snap" by (simp_all add: decided_def)
  with Deciding step own have s': "s' = at_call i (decide opts (b_now s) req snap) s"
    by (cases l) (auto simp: call_step_def proceed_def probe_returned_def split: if_splits)
  from opts show ?thesis
    by (rule decide_cases [of opts "b_now s" req snap]) (use s' c(2) in \<open>auto simp: decided_def\<close>)
next
  case (Holding q t)
  with c(1) step own show ?thesis
    by (cases l) (auto simp: decided_def may_go_def context_ends_def call_step_def proceed_def probe_returned_def
        split: if_splits option.splits)
next
  case (Spending q)
  with c(1) step own show ?thesis
    by (cases l) (auto simp: decided_def call_step_def proceed_def probe_returned_def split: if_splits)
next
  case (Sending q)
  with c(1) step own show ?thesis
    by (cases l) (auto simp: decided_def call_step_def proceed_def probe_returned_def split: if_splits)
next
  case (Answered r)
  with step own show ?thesis
    by (cases l) (auto simp: call_step_def proceed_def probe_returned_def split: if_splits)
qed (use c(1) in \<open>simp_all add: decided_def\<close>)

text \<open>C11. The budget a call has read decides its fate.  From the moment a call has read a budget
  until it is answered, under every interleaving with any other calls and whatever they make of the
  shared cache: it spends and sends its request only if this budget was above the floor or its
  window is over by then; it waits only for the reset of this budget, which is at most \<open>MaxWait\<close>
  away; and it is answered with what the transport below gave it, or, on a budget at the floor whose
  reset was ahead, with \<open>ErrRateLimited\<close>, and that only if the reset was more than \<open>MaxWait\<close> away
  when the budget was read, or with the cause of its own context's end.\<close>

theorem read_budget_decides:
  assumes "burst_run parse opts base ls s = Some s'" and "b_calls s i = Deciding req snap"
    and "\<And>q. Arrive i q \<notin> set ls" and "in_int64 (MaxWait opts)" "MaxWait opts < max_int64"
  shows "case b_calls s' i of
      Deciding q b \<Rightarrow> q = req \<and> b = snap
    | Spending q \<Rightarrow> q = req \<and> may_go opts snap (b_now s')
    | Sending q \<Rightarrow> q = req \<and> may_go opts snap (b_now s')
    | Holding q t \<Rightarrow> q = req \<and> t = ResetAt snap \<and> Remaining snap \<le> MinRemaining opts
        \<and> b_now s < ResetAt snap \<and> ResetAt snap \<le> b_now s' + MaxWait opts
    | Answered r \<Rightarrow>
        may_go opts snap (b_now s') \<and> Response i r \<in> set ls
        \<or> Remaining snap \<le> MinRemaining opts \<and> b_now s + MaxWait opts < ResetAt snap \<and> gate_rejects req r
        \<or> Remaining snap \<le> MinRemaining opts \<and> b_now s < ResetAt snap \<and> context_ends req (b_now s') r
    | _ \<Rightarrow> False"
proof -
  have "(\<forall>q. Arrive i q \<notin> set ls) \<longrightarrow>
      decided opts req snap (b_now s) {r. Response i r \<in> set ls} (b_now s') (b_calls s' i) \<and> b_now s \<le> b_now s'"
    using assms(1)
  proof (induction rule: burst_run_induct)
    case start
    then show ?case using assms(2) by (simp add: decided_def)
  next
    case (move ls s1 l s2)
    note t = call_step_time [OF move.hyps(2)]
    show ?case
    proof
      assume fresh: "\<forall>q. Arrive i q \<notin> set (ls @ [l])"
      then have ih: "decided opts req snap (b_now s) {r. Response i r \<in> set ls} (b_now s1) (b_calls s1 i)"
        "b_now s \<le> b_now s1" using move.IH by simp_all
      have "decided opts req snap (b_now s) {r. Response i r \<in> set (ls @ [l])} (b_now s2) (b_calls s2 i)"
      proof (cases "label_of i l")
        case True
        have "{r. Response i r \<in> set (ls @ [l])} = {r. Response i r \<in> set ls} \<union> {r. l = Response i r}" by auto
        moreover from fresh have "l \<noteq> Arrive i q" for q by auto
        ultimately show ?thesis using decided_step [OF move.hyps(2) True _ ih assms(4,5)] by simp
      next
        case False
        from decided_later [OF ih(1) t, of "{r. Response i r \<in> set (ls @ [l])}"] other_step [OF move.hyps(2) False]
        show ?thesis by (simp add: subset_iff)
      qed
      with t ih(2) show "decided opts req snap (b_now s) {r. Response i r \<in> set (ls @ [l])} (b_now s2) (b_calls s2 i)
        \<and> b_now s \<le> b_now s2" by simp
    qed
  qed
  with assms(3) have "decided opts req snap (b_now s) {r. Response i r \<in> set ls} (b_now s') (b_calls s' i)"
    by blast
  then show ?thesis unfolding decided_def mem_Collect_eq .
qed

section \<open>Answers that overtake each other\<close>

lemma feed_known:
  assumes "core_report resp = Some snap" "c \<noteq> None"
  shows "Get (feed_response resp c) = (snap, True)" "feed_response resp c \<noteq> None"
  using assms by (auto simp: feed_core_report Get_def)

text \<open>C36. A late answer reopens the gate.  The cache keeps the answer that arrives last, not the one
  the server gave last.  Of two requests under way the server answers one with a budget above the
  floor and then the other with a budget at it, its reset ahead.  Arriving in this order the answers
  leave a cache on which a third call does not go ahead; if the second overtakes the first, the
  cache says what the older answer said, and the third call is sent.\<close>

theorem late_answer_reopens_gate:
  assumes "b_calls s i = Sending q1" "b_calls s j = Sending q2" "b_calls s k = Entered req" "distinct [i, j, k]"
    and "b_cache s \<noteq> None" "core_report (fst older) = Some a" "core_report (fst newer) = Some b"
    and "MinRemaining opts < Remaining a" "Remaining b \<le> MinRemaining opts" "b_now s < ResetAt b"
    and "rl_Enabled opts" "\<not> isRateLimitProbe req"
  shows "(\<exists>s'. burst_run parse opts base [Response i older, Response j newer, Proceed k, Proceed k] s = Some s'
      \<and> Get (b_cache s') = (b, True) \<and> b_calls s' k \<noteq> Spending req)
    \<and> (\<exists>s'. burst_run parse opts base [Response j newer, Response i older] s = Some s'
      \<and> Get (b_cache s') = (a, True))
    \<and> (\<exists>s'. burst_run parse opts base [Response j newer, Response i older, Proceed k, Proceed k, Proceed k] s = Some s'
      \<and> b_calls s' k = Sending req)"
proof -
  have "decide opts (b_now s) req b \<noteq> Spending req" "decide opts (b_now s) req a = Spending req"
    using assms(8-10) by (simp_all add: decide_def Let_def)
  with assms feed_known show ?thesis
    by (simp add: call_step_def proceed_def read_budget_def)
qed

section \<open>Concrete runs\<close>

text \<open>Eleven requests remain, one above the floor.  Call 1 reads this budget, call 2 reads and spends
  it, and call 1 is sent although the cache is now at the floor.\<close>

definition stale_read :: "call_label list" where
  "stale_read = first_call ''11'' @ [Arrive 1 (example_request ''GET''), Proceed 1] @ enter_together [2]"

theorem read_budget_decides_witness:
  "\<exists>s s' snap. burst_run no_parse example_rate_options None stale_read (burst_start unix_epoch) = Some s
    \<and> b_calls s 1 = Deciding (example_request ''GET'') snap \<and> Remaining (fst (Get (b_cache s))) = 10
    \<and> burst_run no_parse example_rate_options None [Proceed 1, Proceed 1] s = Some s'
    \<and> b_calls s' 1 = Sending (example_request ''GET'') \<and> may_go example_rate_options snap (b_now s')"
proof -
  let ?snap = "\<lparr>Limit = 5000, Remaining = 11, ResetAt = 62135600400 * second\<rparr>"
  let ?req = "example_request ''GET''"
  have "map_option (\<lambda>s. (b_calls s 1, Remaining (fst (Get (b_cache s))),
      map_option (\<lambda>s'. b_calls s' 1) (burst_run no_parse example_rate_options None [Proceed 1, Proceed 1] s)))
      (burst_run no_parse example_rate_options None stale_read (burst_start unix_epoch))
    = Some (Deciding ?req ?snap, 10, Some (Sending ?req))"
    by code_simp
  then obtain s s' where s: "burst_run no_parse example_rate_options None stale_read (burst_start unix_epoch) = Some s"
    "b_calls s 1 = Deciding ?req ?snap" "Remaining (fst (Get (b_cache s))) = 10"
    "burst_run no_parse example_rate_options None [Proceed 1, Proceed 1] s = Some s'" "b_calls s' 1 = Sending ?req"
    by auto
  from read_budget_decides [OF s(4,2)] s(5) have "may_go example_rate_options ?snap (b_now s')"
    by (simp add: example_rate_options_def in_int64_def)
  with s show ?thesis by blast
qed

text \<open>Two calls under way and a third one at the gate.\<close>

definition overtaking :: "call_label list" where
  "overtaking = first_call ''12'' @ enter_together [1, 2] @ [Arrive 3 (example_request ''GET'')]"

theorem late_answer_reopens_gate_witness:
  "\<exists>s s'. burst_run no_parse example_rate_options None overtaking (burst_start unix_epoch) = Some s
    \<and> burst_run no_parse example_rate_options None
        [Response 2 (budget_answer ''10''), Response 1 (budget_answer ''11''), Proceed 3, Proceed 3, Proceed 3] s = Some s'
    \<and> b_calls s' 3 = Sending (example_request ''GET'')"
proof -
  let ?req = "example_request ''GET''"
  let ?snap = "\<lambda>n. \<lparr>Limit = 5000, Remaining = n, ResetAt = 62135600400 * second\<rparr>"
  have "map_option (\<lambda>s. (b_calls s 1, b_calls s 2, b_calls s 3, b_cache s = None, b_now s))
      (burst_run no_parse example_rate_options None overtaking (burst_start unix_epoch))
    = Some (Sending ?req, Sending ?req, Entered ?req, False, unix_epoch)"
    by code_simp
  then obtain s where s: "burst_run no_parse example_rate_options None overtaking (burst_start unix_epoch) = Some s"
    "b_calls s 1 = Sending ?req" "b_calls s 2 = Sending ?req" "b_calls s 3 = Entered ?req" "b_cache s \<noteq> None"
    "b_now s = unix_epoch"
    by auto
  have "core_report (fst (budget_answer ''11'')) = Some (?snap 11)" "core_report (fst (budget_answer ''10'')) = Some (?snap 10)"
    "\<not> isRateLimitProbe ?req"
    by code_simp+
  from late_answer_reopens_gate [OF s(2-4) _ s(5) this(1,2) _ _ _ _ this(3), of example_rate_options no_parse None] s(1,6)
  show ?thesis by (auto simp: example_rate_options_def unix_epoch_def)
qed

end
