(* ===== verification/TimeFormats.thy ===== *)
theory TimeFormats
  imports Prelude
begin

text \<open>
  The two standard formats the kit's messages use: \<open>Duration.String\<close> and
  \<open>Time.Format(time.RFC3339)\<close> in UTC, with readers that give back what was printed.
\<close>

section \<open>Durations\<close>

text \<open>\<open>fmtFrac\<close> of package \<open>time\<close> prints the last \<open>prec\<close> digits of \<open>v\<close> behind
  a point, without trailing zeros, in front of what the buffer already holds.\<close>

fun fmtFrac :: "nat \<Rightarrow> nat \<Rightarrow> bool \<Rightarrow> string \<Rightarrow> string \<times> nat" where
  "fmtFrac v 0 printing buf = (if printing then CHR ''.'' # buf else buf, v)"
| "fmtFrac v (Suc prec) printing buf =
     (let digit = v mod 10;
          printing = (printing \<or> digit \<noteq> 0)
      in fmtFrac (v div 10) prec printing (if printing then digit_char digit # buf else buf))"

definition duration_text :: "nat \<Rightarrow> string" where
  "duration_text u =
     (if u = 0 then ''0s''
      else if u < 1000000000 then
        (let (unit, prec) = (if u < 1000 then (''ns'', 0)
               else if u < 1000000 then ([CHR 0xC2, CHR 0xB5, CHR ''s''], 3)
               else (''ms'', 6));
             (frac, v) = fmtFrac u prec False unit
         in itoa v @ frac)
      else
        (let (frac, v) = fmtFrac u 9 False ''s'';
             seconds = itoa (v mod 60) @ frac;
             v = v div 60
         in if v = 0 then seconds
            else (let minutes = itoa (v mod 60) @ ''m'' @ seconds;
                      v = v div 60
                  in if v = 0 then minutes else itoa v @ ''h'' @ minutes)))"

definition duration_String :: "duration \<Rightarrow> string" where
  "duration_String d = (if d < 0 then CHR ''-'' # duration_text (nat (- d)) else duration_text (nat d))"

text \<open>A reader of printed durations: numbers with units, added up.\<close>

definition unit_value :: "string \<Rightarrow> nat" where
  "unit_value u =
     (if u = ''h'' then 3600000000000 else if u = ''m'' then 60000000000
      else if u = ''s'' then 1000000000 else if u = ''ms'' then 1000000
      else if u = [CHR 0xC2, CHR 0xB5, CHR ''s''] then 1000 else 1)"

definition read_part :: "string \<Rightarrow> nat \<times> string" where
  "read_part s =
     (let whole = takeWhile is_digit s;
          s = dropWhile is_digit s;
          (frac, s) = (if s \<noteq> [] \<and> hd s = CHR ''.''
            then (takeWhile is_digit (tl s), dropWhile is_digit (tl s)) else ([], s));
          u = takeWhile (\<lambda>c. \<not> is_digit c) s
      in (nat (decimal_value 0 (whole @ frac)) * unit_value u div 10 ^ length frac,
          dropWhile (\<lambda>c. \<not> is_digit c) s))"

function read_parts :: "string \<Rightarrow> nat" where
  "read_parts s =
     (let (v, rest) = read_part s
      in if length rest < length s then v + read_parts rest else v)"
  by pat_completeness auto
termination by (relation "measure length") auto

declare read_parts.simps [simp del]

definition read_duration :: "string \<Rightarrow> duration" where
  "read_duration s =
     (if s \<noteq> [] \<and> hd s = CHR ''-'' then - int (read_parts (tl s)) else int (read_parts s))"

lemma decimal_value_shift: "decimal_value a ds = a * 10 ^ length ds + decimal_value 0 ds"
proof (induction ds arbitrary: a)
  case (Cons c ds)
  have "decimal_value a (c # ds) = decimal_value (10 * a + digit_value c) ds" by simp
  also have "\<dots> = (10 * a + digit_value c) * 10 ^ length ds + decimal_value 0 ds" by (rule Cons.IH)
  also have "\<dots> = a * 10 ^ length (c # ds) + (digit_value c * 10 ^ length ds + decimal_value 0 ds)"
    by (simp add: algebra_simps)
  also have "digit_value c * 10 ^ length ds + decimal_value 0 ds = decimal_value 0 (c # ds)"
    using Cons.IH [of "digit_value c"] by simp
  finally show ?case .
qed simp

text \<open>Once a digit is printed all further digits are: the buffer grows by exactly \<open>prec\<close> digits.\<close>

lemma fmtFrac_printing:
  "\<exists>ds. fmtFrac v prec True buf = (CHR ''.'' # ds @ buf, v div 10 ^ prec)
     \<and> list_all is_digit ds \<and> length ds = prec \<and> decimal_value 0 ds = int (v mod 10 ^ prec)"
proof (induction prec arbitrary: v buf)
  case (Suc prec)
  let ?c = "digit_char (v mod 10)"
  obtain ds where ds: "fmtFrac (v div 10) prec True (?c # buf)
      = (CHR ''.'' # ds @ ?c # buf, v div 10 div 10 ^ prec)" "list_all is_digit ds" "length ds = prec"
      "decimal_value 0 ds = int (v div 10 mod 10 ^ prec)"
    using Suc by blast
  have "v mod 10 ^ Suc prec = 10 * (v div 10 mod 10 ^ prec) + v mod 10"
    by (simp add: mod_mult2_eq)
  with ds show ?case
    by (intro exI [of _ "ds @ [?c]"])
      (simp add: Let_def decimal_value_append digit_char_value digit_char_is_digit div_mult2_eq)
qed simp

lemma fmtFrac_reads:
  "\<exists>fr ds. fmtFrac v prec False buf = (fr @ buf, v div 10 ^ prec)
     \<and> list_all is_digit ds \<and> length ds \<le> prec
     \<and> decimal_value 0 ds * 10 ^ (prec - length ds) = int (v mod 10 ^ prec)
     \<and> fr = (if ds = [] then [] else CHR ''.'' # ds)"
proof (induction prec arbitrary: v buf)
  case (Suc prec)
  have split: "v mod 10 ^ Suc prec = 10 * (v div 10 mod 10 ^ prec) + v mod 10"
    by (simp add: mod_mult2_eq)
  show ?case
  proof (cases "v mod 10 = 0")
    case True
    obtain fr ds where ds: "fmtFrac (v div 10) prec False buf = (fr @ buf, v div 10 div 10 ^ prec)"
        "list_all is_digit ds" "length ds \<le> prec"
        "decimal_value 0 ds * 10 ^ (prec - length ds) = int (v div 10 mod 10 ^ prec)"
        "fr = (if ds = [] then [] else CHR ''.'' # ds)"
      using Suc by blast
    from ds split True show ?thesis
      by (intro exI [of _ fr] exI [of _ ds]) (simp add: Let_def div_mult2_eq Suc_diff_le)
  next
    case False
    let ?c = "digit_char (v mod 10)"
    obtain ds where ds: "fmtFrac (v div 10) prec True (?c # buf) = (CHR ''.'' # ds @ ?c # buf, v div 10 div 10 ^ prec)"
        "list_all is_digit ds" "length ds = prec" "decimal_value 0 ds = int (v div 10 mod 10 ^ prec)"
      using fmtFrac_printing by blast
    have "decimal_value 0 (ds @ [?c]) = int (v mod 10 ^ Suc prec)"
      unfolding split using ds(4) by (simp add: decimal_value_append digit_char_value)
    with ds False show ?thesis
      by (intro exI [of _ "CHR ''.'' # ds @ [?c]"] exI [of _ "ds @ [?c]"])
        (simp add: Let_def digit_char_is_digit div_mult2_eq)
  qed
qed (auto intro: exI [of _ "[]"])

lemma takeWhile_stop: "list_all P xs \<Longrightarrow> ys = [] \<or> \<not> P (hd ys) \<Longrightarrow>
    takeWhile P (xs @ ys) = xs \<and> dropWhile P (xs @ ys) = ys"
  by (induction xs) (cases ys; auto)+

lemma read_part_printed:
  assumes ws: "list_all is_digit ws" and ds: "list_all is_digit ds"
    and u: "list_all (\<lambda>c. \<not> is_digit c) u" "u \<noteq> []" "hd u \<noteq> CHR ''.''"
    and rest: "rest = [] \<or> is_digit (hd rest)"
  shows "read_part (ws @ (if ds = [] then [] else CHR ''.'' # ds) @ u @ rest)
    = (nat (decimal_value 0 (ws @ ds)) * unit_value u div 10 ^ length ds, rest)"
proof -
  have nd: "\<not> is_digit (hd u)" "\<not> is_digit (CHR ''.'')"
    using u by (cases u; auto simp: is_digit_def)+
  let ?fr = "if ds = [] then [] else CHR ''.'' # ds"
  have 1: "takeWhile is_digit (ws @ ?fr @ u @ rest) = ws" "dropWhile is_digit (ws @ ?fr @ u @ rest) = ?fr @ u @ rest"
    using takeWhile_stop [OF ws, of "?fr @ u @ rest"] nd u(2) by (auto split: if_splits)
  have 2: "takeWhile is_digit (ds @ u @ rest) = ds" "dropWhile is_digit (ds @ u @ rest) = u @ rest"
    using takeWhile_stop [OF ds, of "u @ rest"] nd u(2) by auto
  have 3: "takeWhile (\<lambda>c. \<not> is_digit c) (u @ rest) = u" "dropWhile (\<lambda>c. \<not> is_digit c) (u @ rest) = rest"
    using takeWhile_stop [OF u(1), of rest] rest by auto
  show ?thesis
    unfolding read_part_def Let_def 1 using 2 3 u(2,3) by (cases "ds = []") auto
qed

text \<open>One printed number with its fraction and unit, in front of what follows it.\<close>

lemma read_parts_number:
  assumes "fmtFrac v prec False u = (frac, q)" "unit_value u = 10 ^ prec"
    and u: "list_all (\<lambda>c. \<not> is_digit c) u" "u \<noteq> []" "hd u \<noteq> CHR ''.''"
    and rest: "rest = [] \<or> is_digit (hd rest)"
  shows "read_parts (itoa n @ frac @ rest) = n * 10 ^ prec + v mod 10 ^ prec + read_parts rest"
proof -
  obtain ds where ds: "frac = (if ds = [] then [] else CHR ''.'' # ds) @ u" "q = v div 10 ^ prec"
      "list_all is_digit ds" "length ds \<le> prec" "decimal_value 0 ds * 10 ^ (prec - length ds) = int (v mod 10 ^ prec)"
    using fmtFrac_reads [of v prec u] assms(1) by auto
  have "decimal_value 0 (itoa n @ ds) = int n * 10 ^ length ds + decimal_value 0 ds"
    by (simp add: decimal_value_append itoa_value decimal_value_shift [of "int n"])
  then have "decimal_value 0 (itoa n @ ds) * 10 ^ (prec - length ds) = int n * 10 ^ prec + int (v mod 10 ^ prec)"
    using ds(4) by (simp add: ds(5) algebra_simps flip: power_add)
  moreover have "(10::nat) ^ prec = 10 ^ (prec - length ds) * 10 ^ length ds"
    using ds(4) by (simp flip: power_add)
  moreover have "nat (x * 10 ^ i) = nat x * 10 ^ i" for x :: int and i
    by (cases "0 \<le> x") (simp_all add: nat_mult_distrib nat_power_eq mult_nonpos_nonneg)
  ultimately have val: "nat (decimal_value 0 (itoa n @ ds)) * 10 ^ prec div 10 ^ length ds = n * 10 ^ prec + v mod 10 ^ prec"
    by (metis (no_types, lifting) mult.assoc nat_int nonzero_mult_div_cancel_right of_nat_add of_nat_mult
        of_nat_numeral of_nat_power power_not_zero zero_neq_numeral)
  have "read_part (itoa n @ frac @ rest) = (n * 10 ^ prec + v mod 10 ^ prec, rest)"
    using read_part_printed [OF itoa_digits ds(3) u rest, of n] val by (simp add: ds(1) assms(2))
  then show ?thesis
    by (subst read_parts.simps) (simp add: ds(1) u)
qed

lemma read_parts_Nil [simp]: "read_parts [] = 0"
  by (subst read_parts.simps) (simp add: read_part_def)

lemma read_parts_whole:
  assumes "\<not> is_digit c" "c \<noteq> CHR ''.''" "rest = [] \<or> is_digit (hd rest)"
  shows "read_parts (itoa n @ c # rest) = n * unit_value [c] + read_parts rest"
proof -
  have "read_part (itoa n @ c # rest) = (n * unit_value [c], rest)"
    using read_part_printed [OF itoa_digits, of "[]" "[c]" rest n] assms by (simp add: itoa_value)
  then show ?thesis by (subst read_parts.simps) simp
qed

lemma itoa_hd_digit [simp]: "is_digit (hd (itoa n))"
  using itoa_Cons [of n] by auto

lemma is_digit_chars [simp]:
  "is_digit (CHR ''0'')" "\<not> is_digit (CHR ''h'')" "\<not> is_digit (CHR ''m'')" "\<not> is_digit (CHR ''s'')"
  "\<not> is_digit (CHR ''n'')" "\<not> is_digit (CHR 0xC2)" "\<not> is_digit (CHR 0xB5)" "\<not> is_digit (CHR ''-'')"
  by (simp_all add: is_digit_def)

lemma duration_text_digit: "duration_text u \<noteq> [] \<and> is_digit (hd (duration_text u))"
  by (auto simp: duration_text_def Let_def split: prod.splits)

lemma read_parts_small:
  assumes "0 < u" "u < 1000000000"
  shows "read_parts (duration_text u) = u"
proof -
  have part: "read_parts (itoa q @ frac) = u"
    if "fmtFrac u prec False un = (frac, q)" "unit_value un = 10 ^ prec"
      "list_all (\<lambda>c. \<not> is_digit c) un" "un \<noteq> []" "hd un \<noteq> CHR ''.''" for prec un frac q
    using read_parts_number [OF that, of "[]" q] fmtFrac_reads [of u prec un] that(1)
    by (auto simp: div_mult_mod_eq)
  show ?thesis
    using assms part [of 0 "''ns''"] part [of 3 "[CHR 0xC2, CHR 0xB5, CHR ''s'']"] part [of 6 "''ms''"]
    by (auto simp: duration_text_def Let_def unit_value_def split: prod.splits)
qed

lemma read_parts_large:
  assumes "1000000000 \<le> u"
  shows "read_parts (duration_text u) = u"
proof -
  obtain frac v where frac: "fmtFrac u 9 False ''s'' = (frac, v)" by fastforce
  have v: "v = u div 1000000000" using fmtFrac_reads [of u 9 "''s''"] frac by auto
  have secs: "read_parts (itoa n @ frac) = n * 1000000000 + u mod 1000000000" for n
    using read_parts_number [OF frac, of "[]" n] by (simp add: unit_value_def)
  have mins: "read_parts (itoa n @ CHR ''m'' # itoa k @ s) = n * 60000000000 + read_parts (itoa k @ s)" for n k s
    using read_parts_whole [of "CHR ''m''" "itoa k @ s" n] by (simp add: unit_value_def)
  have hours: "read_parts (itoa n @ CHR ''h'' # itoa k @ s) = n * 3600000000000 + read_parts (itoa k @ s)" for n k s
    using read_parts_whole [of "CHR ''h''" "itoa k @ s" n] by (simp add: unit_value_def)
  define h m n where "h = v div 60 div 60" and "m = v div 60 mod 60" and "n = v mod 60"
  have "v = h * 3600 + m * 60 + n" "v div 60 = 0 \<Longrightarrow> h = 0 \<and> m = 0"
    using div_mult_mod_eq [of v 60] div_mult_mod_eq [of "v div 60" 60]
    unfolding h_def m_def n_def by (linarith, simp)
  moreover have "u = v * 1000000000 + u mod 1000000000" by (simp add: v)
  ultimately have u: "u = h * 3600000000000 + (m * 60000000000 + (n * 1000000000 + u mod 1000000000))"
    "v div 60 = 0 \<Longrightarrow> h = 0 \<and> m = 0" by linarith+
  have printed: "duration_text u = (if v div 60 = 0 then itoa n @ frac
      else if h = 0 then itoa m @ CHR ''m'' # itoa n @ frac
      else itoa h @ CHR ''h'' # itoa m @ CHR ''m'' # itoa n @ frac)"
    using assms by (simp add: duration_text_def Let_def frac h_def m_def n_def)
  consider "v div 60 = 0" | "v div 60 \<noteq> 0" "h = 0" | "v div 60 \<noteq> 0" "h \<noteq> 0" by blast
  then show ?thesis
  proof cases
    case 1
    have "read_parts (duration_text u) = n * 1000000000 + u mod 1000000000"
      unfolding printed if_P [OF 1] by (rule secs)
    with u(1) u(2) [OF 1] show ?thesis by linarith
  next
    case 2
    have "read_parts (duration_text u) = m * 60000000000 + (n * 1000000000 + u mod 1000000000)"
      unfolding printed if_not_P [OF 2(1)] if_P [OF 2(2)] by (simp only: mins secs)
    with u(1) 2(2) show ?thesis by linarith
  next
    case 3
    have "read_parts (duration_text u) = h * 3600000000000 + (m * 60000000000 + (n * 1000000000 + u mod 1000000000))"
      unfolding printed if_not_P [OF 3(1)] if_not_P [OF 3(2)] by (simp only: hours mins secs)
    with u(1) show ?thesis by linarith
  qed
qed

lemma fmtFrac_no_space: "list_all (\<lambda>c. c \<noteq> CHR '' '') buf \<Longrightarrow> list_all (\<lambda>c. c \<noteq> CHR '' '') (fst (fmtFrac v prec b buf))"
proof (induction v prec b buf rule: fmtFrac.induct)
  case (2 v prec printing buf)
  have "digit_char (v mod 10) \<noteq> CHR '' ''"
    using digit_char_is_digit [of "v mod 10"] by (auto simp: is_digit_def)
  with 2 show ?case by (auto simp: Let_def)
qed simp

lemma itoa_no_char: "\<not> is_digit c \<Longrightarrow> c \<notin> set (itoa n)"
  using itoa_digits [of n] by (auto simp: list_all_iff)

lemma duration_String_no_space: "CHR '' '' \<notin> set (duration_String d)"
proof -
  have "CHR '' '' \<notin> set (fst (fmtFrac v prec False un))" if "CHR '' '' \<notin> set un" for v prec un
    using fmtFrac_no_space [of un v prec False] that by (auto simp: list_all_iff)
  then have "CHR '' '' \<notin> set (duration_text u)" for u
    by (auto simp: duration_text_def Let_def itoa_no_char is_digit_def case_prod_beta)
  then show ?thesis by (simp add: duration_String_def)
qed

text \<open>A printed duration is read back exactly.\<close>

lemma read_duration_String [simp]: "read_duration (duration_String d) = d"
proof -
  have "read_parts (duration_text u) = u" for u
  proof (cases "u = 0")
    case True
    have "itoa 0 = ''0''" by (simp add: itoa_eval)
    with True show ?thesis
      using read_parts_whole [of "CHR ''s''" "[]" 0] by (simp add: duration_text_def)
  next
    case False
    then show ?thesis using read_parts_small [of u] read_parts_large [of u] by linarith
  qed
  moreover have "hd (duration_text u) \<noteq> CHR ''-''" for u
    using duration_text_digit [of u] by (metis is_digit_chars(8))
  ultimately show ?thesis
    using duration_text_digit by (simp add: duration_String_def read_duration_def)
qed

section \<open>Dates\<close>

text \<open>The proleptic Gregorian calendar, days counted from January 1 of year 1.\<close>

definition is_leap :: "nat \<Rightarrow> bool" where
  "is_leap y \<longleftrightarrow> y mod 4 = 0 \<and> (y mod 100 \<noteq> 0 \<or> y mod 400 = 0)"

definition month_lengths :: "nat \<Rightarrow> nat list" where
  "month_lengths y = [31, if is_leap y then 29 else 28, 31, 30, 31, 30, 31, 31, 30, 31, 30, 31]"

text \<open>Year and day of the year: whole cycles of 400, 100 and 4 years and single years are cut
  off, the last century and the last year of a cycle being a day longer.\<close>

definition year_of_day :: "nat \<Rightarrow> nat \<times> nat" where
  "year_of_day n =
     (let r = n mod 146097;
          centuries = min 3 (r div 36524);
          r = r - centuries * 36524;
          fours = r div 1461;
          r = r mod 1461;
          ones = min 3 (r div 365)
      in (400 * (n div 146097) + 100 * centuries + 4 * fours + ones + 1, r - ones * 365))"

fun month_of_day :: "nat list \<Rightarrow> nat \<Rightarrow> nat \<Rightarrow> nat \<times> nat" where
  "month_of_day [] month d = (month, d + 1)"
| "month_of_day (l # ls) month d = (if d < l then (month, d + 1) else month_of_day ls (month + 1) (d - l))"

definition date_of_day :: "nat \<Rightarrow> nat \<times> nat \<times> nat" where
  "date_of_day n = (let (year, yday) = year_of_day n in (year, month_of_day (month_lengths year) 1 yday))"

definition day_of_date :: "nat \<Rightarrow> nat \<Rightarrow> nat \<Rightarrow> nat" where
  "day_of_date year month day =
     365 * (year - 1) + (year - 1) div 4 - (year - 1) div 100 + (year - 1) div 400
     + sum_list (take (month - 1) (month_lengths year)) + day - 1"

lemma month_of_day_back:
  assumes "month_of_day ls k d = (month, day)" "d < sum_list ls"
  shows "k \<le> month \<and> month < k + length ls \<and> 1 \<le> day \<and> day \<le> ls ! (month - k)
    \<and> sum_list (take (month - k) ls) + day = d + 1"
  using assms
proof (induction ls k d rule: month_of_day.induct)
  case (2 l ls k d)
  show ?case
  proof (cases "d < l")
    case False
    with 2 have ih: "k + 1 \<le> month \<and> month < k + 1 + length ls \<and> 1 \<le> day \<and> day \<le> ls ! (month - (k + 1))
        \<and> sum_list (take (month - (k + 1)) ls) + day = d - l + 1" by simp
    then have "month - k = Suc (month - (k + 1))" by linarith
    with ih False show ?thesis by auto
  qed (use 2 in auto)
qed simp

lemma sum_month_lengths: "sum_list (month_lengths y) = (if is_leap y then 366 else 365)"
  by (simp add: month_lengths_def)

lemma years_before:
  fixes a b c e :: nat
  assumes "b \<le> 3" "c \<le> 24" "e \<le> 3"
  defines "y \<equiv> 400 * a + 100 * b + 4 * c + e"
  shows "y div 4 = 100 * a + 25 * b + c" "y div 100 = 4 * a + b" "y div 400 = a"
proof -
  have "y = 4 * (100 * a + 25 * b + c) + e" "y = 100 * (4 * a + b) + (4 * c + e)"
    "y = 400 * a + (100 * b + 4 * c + e)" by (simp_all add: y_def)
  with assms(1-3) show "y div 4 = 100 * a + 25 * b + c" "y div 100 = 4 * a + b" "y div 400 = a"
    by (simp_all del: assms(4))
qed

text \<open>Cutting \<open>r\<close> into pieces of \<open>k\<close>, at most three, the rest one longer at most.\<close>

lemma cut_three:
  fixes r k :: nat
  assumes "0 < k" "r \<le> 4 * k"
  defines "b \<equiv> min 3 (r div k)"
  shows "r = k * b + (r - b * k)" "b \<le> 3" "b < 3 \<Longrightarrow> r - b * k < k" "r - b * k \<le> k"
proof -
  have q: "r = r div k * k + r mod k" "r mod k < k" using assms(1) by simp_all
  show "r = k * b + (r - b * k)"
    using order_trans [OF mult_le_mono1 [of b "r div k" k] div_times_less_eq_dividend]
    by (simp add: b_def mult.commute)
  show "b \<le> 3" by (simp add: b_def)
  show "r - b * k < k" if "b < 3"
    using that q minus_div_mult_eq_mod [of r k] by (simp add: b_def min_def split: if_splits)
  show "r - b * k \<le> k"
    using q assms(2) minus_div_mult_eq_mod [of r k] by (auto simp: b_def min_def)
qed

text \<open>The fourth year of a four-year cycle is a leap year, but the hundredth only in the last century.\<close>

lemma cycle_end_leap:
  assumes "b \<le> 3" "c \<le> 24" "c < 24 \<or> b = 3"
  shows "is_leap (400 * a + 100 * b + 4 * (c + 1))" (is "is_leap ?year")
proof (cases "c < 24")
  case True
  have "(100 * (4 * a + b) + 4 * (c + 1)) mod 100 = 4 * (c + 1)"
    using True by (subst mod_mult_self4) simp
  moreover have "?year = 100 * (4 * a + b) + 4 * (c + 1)" "?year = 4 * (100 * a + 25 * b + c + 1)" by simp_all
  ultimately have "?year mod 100 = 4 * (c + 1)" "?year mod 4 = 0" by (metis, metis mod_mult_self1_is_0)
  then show ?thesis by (simp add: is_leap_def)
next
  case False
  with assms have "?year = 400 * (a + 1)" "?year = 4 * (100 * (a + 1))" by simp_all
  then have "?year mod 400 = 0" "?year mod 4 = 0" by (metis mod_mult_self1_is_0)+
  then show ?thesis by (simp add: is_leap_def)
qed

lemma year_of_day_back:
  assumes "year_of_day n = (year, yday)"
  shows "1 \<le> year" "yday < (if is_leap year then 366 else 365)"
    "365 * (year - 1) + (year - 1) div 4 - (year - 1) div 100 + (year - 1) div 400 + yday = n"
proof -
  define a r b r2 c r3 e where "a = n div 146097" and "r = n mod 146097" and "b = min 3 (r div 36524)"
    and "r2 = r - b * 36524" and "c = r2 div 1461" and "r3 = r2 mod 1461" and "e = min 3 (r3 div 365)"
  have n: "n = 146097 * a + r" "r < 146097"
    unfolding a_def r_def by (rule mult_div_mod_eq [symmetric], rule mod_less_divisor) simp
  note b = cut_three [of 36524 r, folded b_def r2_def]
  have b: "r = 36524 * b + r2" "b \<le> 3" "r2 \<le> 36524" and b': "b < 3 \<Longrightarrow> r2 < 36524"
    using b n(2) by simp_all
  have c: "r2 = 1461 * c + r3" "r3 < 1461"
    unfolding c_def r3_def by (rule mult_div_mod_eq [symmetric], rule mod_less_divisor) simp
  have "c \<le> 24" using b(3) c by linarith
  have e: "r3 = 365 * e + (r3 - e * 365)" "e \<le> 3" "r3 - e * 365 \<le> 365"
    and e': "e < 3 \<Longrightarrow> r3 - e * 365 < 365"
    using cut_three [of 365 r3, folded e_def] c(2) by simp_all
  have y: "year = 400 * a + 100 * b + 4 * c + e + 1" "yday = r3 - e * 365"
    using assms unfolding year_of_day_def Let_def a_def [symmetric] r_def [symmetric] b_def [symmetric]
      r2_def [symmetric] c_def [symmetric] r3_def [symmetric] e_def [symmetric] by auto
  show "1 \<le> year" by (simp add: y)
  show "365 * (year - 1) + (year - 1) div 4 - (year - 1) div 100 + (year - 1) div 400 + yday = n"
    using years_before [OF b(2) \<open>c \<le> 24\<close> e(2), of a] n(1) b(1) c(1) e(1) by (simp add: y)
  show "yday < (if is_leap year then 366 else 365)"
  proof (cases "yday = 365")
    case True
    then have "e = 3" "r3 = 1460" using e e' y c(2) by (linarith, linarith)
    then have cb: "year = 400 * a + 100 * b + 4 * (c + 1)" by (simp add: y)
    have "c < 24 \<or> b = 3" using \<open>c \<le> 24\<close> \<open>r3 = 1460\<close> b b' c(1) by (cases "c < 24"; cases "b = 3") linarith+
    then have "is_leap year" unfolding cb by (rule cycle_end_leap [OF \<open>b \<le> 3\<close> \<open>c \<le> 24\<close>])
    with True show ?thesis by simp
  next
    case False
    with e(3) y(2) show ?thesis by simp
  qed
qed

text \<open>A date names its day, and its month and day are in range.\<close>

lemma date_of_day_back:
  assumes "date_of_day n = (year, month, day)"
  shows "day_of_date year month day = n" "1 \<le> month \<and> month \<le> 12 \<and> 1 \<le> day \<and> day \<le> 31"
proof -
  obtain yday where y: "year_of_day n = (year, yday)" "month_of_day (month_lengths year) 1 yday = (month, day)"
    using assms by (auto simp: date_of_day_def Let_def split: prod.splits)
  note month = month_of_day_back [OF y(2)]
  have m: "yday < sum_list (month_lengths year)" using year_of_day_back(2) [OF y(1)] by (simp add: sum_month_lengths)
  from month [OF this] year_of_day_back(3) [OF y(1)] show "day_of_date year month day = n"
    unfolding day_of_date_def by linarith
  have "x \<in> set (month_lengths year) \<Longrightarrow> x \<le> 31" for x by (auto simp: month_lengths_def split: if_splits)
  then show "1 \<le> month \<and> month \<le> 12 \<and> 1 \<le> day \<and> day \<le> 31"
    using month [OF m] nth_mem [of "month - 1" "month_lengths year"]
    by (fastforce simp: month_lengths_def)
qed

section \<open>RFC 3339\<close>

text \<open>\<open>appendInt\<close> of package \<open>time\<close>: decimal with leading zeros.\<close>

definition pad_int :: "nat \<Rightarrow> nat \<Rightarrow> string" where
  "pad_int width n = replicate (width - length (itoa n)) (CHR ''0'') @ itoa n"

text \<open>\<open>t.UTC().Format(time.RFC3339)\<close> for a time after year 1 began.\<close>

definition RFC3339_UTC :: "time \<Rightarrow> string" where
  "RFC3339_UTC t =
     (let secs = nat (t div second);
          (year, month, day) = date_of_day (secs div 86400);
          clk = secs mod 86400
      in pad_int 4 year @ ''-'' @ pad_int 2 month @ ''-'' @ pad_int 2 day @ ''T''
         @ pad_int 2 (clk div 3600) @ '':'' @ pad_int 2 (clk mod 3600 div 60) @ '':''
         @ pad_int 2 (clk mod 60) @ ''Z'')"

text \<open>A reader: the numbers of a text, whatever separates them.\<close>

fun read_numbers :: "int \<Rightarrow> string \<Rightarrow> int list" where
  "read_numbers acc [] = []"
| "read_numbers acc (c # cs) =
     (if is_digit c then read_numbers (10 * acc + digit_value c) cs else acc # read_numbers 0 cs)"

definition read_time :: "string \<Rightarrow> time" where
  "read_time s =
     (case read_numbers 0 s of
        [year, month, day, hour, mins, secs] \<Rightarrow>
          (int (day_of_date (nat year) (nat month) (nat day)) * 86400 + hour * 3600 + mins * 60 + secs) * second
      | _ \<Rightarrow> 0)"

lemma read_numbers_digits:
  "list_all is_digit ds \<Longrightarrow> \<not> is_digit c \<Longrightarrow>
    read_numbers acc (ds @ c # cs) = decimal_value acc ds # read_numbers 0 cs"
  by (induction ds arbitrary: acc) simp_all

lemma pad_int_number [simp]: "\<not> is_digit c \<Longrightarrow> read_numbers 0 (pad_int w n @ c # cs) = int n # read_numbers 0 cs"
proof -
  have zeros: "decimal_value 0 (replicate k (CHR ''0'')) = 0" for k
    by (induction k) (simp_all add: digit_value_def)
  have digits: "list_all is_digit (pad_int w n)"
    by (simp add: pad_int_def itoa_digits list_all_iff [of _ "replicate _ _"])
  have "decimal_value 0 (pad_int w n) = int n"
    by (simp add: pad_int_def decimal_value_append zeros itoa_value)
  then show "\<not> is_digit c \<Longrightarrow> read_numbers 0 (pad_int w n @ c # cs) = int n # read_numbers 0 cs"
    using read_numbers_digits [OF digits] by simp
qed

text \<open>A printed time is read back to the second.\<close>

lemma read_time_RFC3339:
  assumes "0 \<le> t"
  shows "read_time (RFC3339_UTC t) = t div second * second"
proof -
  define s where "s = nat (t div second)"
  define days clk where "days = s div 86400" and "clk = s mod 86400"
  obtain y m d where date: "date_of_day days = (y, m, d)" by (cases "date_of_day days") auto
  define hour mins secs where "hour = clk div 3600" and "mins = clk mod 3600 div 60" and "secs = clk mod 60"
  have "clk mod 3600 mod 60 = clk mod 60" by (rule mod_mod_cancel) simp
  then have "s = days * 86400 + clk" "clk = hour * 3600 + clk mod 3600" "clk mod 3600 = mins * 60 + secs"
    unfolding days_def clk_def hour_def mins_def secs_def by (metis div_mult_mod_eq)+
  then have "int s = int days * 86400 + int hour * 3600 + int mins * 60 + int secs" by simp
  moreover have "int s = t div second" using assms by (simp add: s_def pos_imp_zdiv_nonneg_iff)
  moreover have "read_numbers 0 (RFC3339_UTC t) = [int y, int m, int d, int hour, int mins, int secs]"
    unfolding RFC3339_UTC_def s_def [symmetric] Let_def clk_def [symmetric] days_def [symmetric]
      hour_def [symmetric] mins_def [symmetric] secs_def [symmetric] date prod.case
    by (simp add: is_digit_def)
  ultimately show ?thesis
    by (simp add: read_time_def date_of_day_back(1) [OF date])
qed

lemma RFC3339_no_comma: "0 \<le> t \<Longrightarrow> CHR '','' \<notin> set (RFC3339_UTC t)"
  by (auto simp: RFC3339_UTC_def Let_def pad_int_def itoa_no_char is_digit_def split: prod.splits)

section \<open>Examples\<close>

lemma fmtFrac_numeral:
  "v mod 10 = 0 \<Longrightarrow> fmtFrac v (numeral k) False buf = fmtFrac (v div 10) (pred_numeral k) False buf"
  "v mod 10 \<noteq> 0 \<Longrightarrow> fmtFrac v (numeral k) False buf
    = fmtFrac (v div 10) (pred_numeral k) True (digit_char (v mod 10) # buf)"
  "fmtFrac v (numeral k) True buf = fmtFrac (v div 10) (pred_numeral k) True (digit_char (v mod 10) # buf)"
  unfolding numeral_eq_Suc [of k] by simp_all

lemma duration_String_examples:
  "duration_String 7500000000000 = ''2h5m0s''"
  "duration_String 90250000000 = ''1m30.25s''"
  "duration_String (- 1500000) = ''-1.5ms''"
  by (simp_all add: duration_String_def duration_text_def fmtFrac_numeral itoa_eval)

lemma RFC3339_example:
  "RFC3339_UTC (time_Unix 1709164800) = ''2024-02-29T00:00:00Z''"
  by (simp add: time_Unix_def wrap64_between RFC3339_UTC_def pad_int_def itoa_eval date_of_day_def
      year_of_day_def month_lengths_def is_leap_def digit_chars(5) [unfolded numeral_2_eq_2])
end
