(* ===== verification/GateMessages.thy ===== *)
theory GateMessages
  imports Gate TimeFormats
begin

text \<open>
  What the gate of \<open>src/transport.go\<close> tells the caller when it rejects a request: the text of
  \<open>resetTooFarError\<close>, and that it tells the truth.
\<close>

definition resetTooFarError_Error :: "duration \<Rightarrow> duration \<Rightarrow> time \<Rightarrow> string" where
  "resetTooFarError_Error wait maxWait resetAt =
     ''reset in '' @ duration_String (duration_Round wait second)
     @ '' at '' @ RFC3339_UTC resetAt
     @ '', exceeding max wait '' @ duration_String maxWait"

text \<open>A reader of that text: the wait, the reset and the longest wait allowed.\<close>

definition read_rejection :: "string \<Rightarrow> duration \<times> time \<times> duration" where
  "read_rejection s =
     (let s = drop (length ''reset in '') s;
          wait = takeWhile (\<lambda>c. c \<noteq> CHR '' '') s;
          s = drop (length '' at '') (dropWhile (\<lambda>c. c \<noteq> CHR '' '') s);
          reset = takeWhile (\<lambda>c. c \<noteq> CHR '','') s;
          s = drop (length '', exceeding max wait '') (dropWhile (\<lambda>c. c \<noteq> CHR '','') s)
      in (read_duration wait, read_time reset, read_duration s))"

lemma takeWhile_upto: "c \<notin> set xs \<Longrightarrow> takeWhile (\<lambda>x. x \<noteq> c) (xs @ c # ys) = xs \<and>
    dropWhile (\<lambda>x. x \<noteq> c) (xs @ c # ys) = c # ys"
  by (induction xs) auto

lemma read_rejection_text:
  assumes "0 \<le> resetAt"
  shows "read_rejection (resetTooFarError_Error wait maxWait resetAt)
    = (duration_Round wait second, resetAt div second * second, maxWait)"
  using takeWhile_upto [OF duration_String_no_space] takeWhile_upto [OF RFC3339_no_comma [OF assms]]
    read_time_RFC3339 [OF assms]
  by (simp add: resetTooFarError_Error_def read_rejection_def Let_def)

text \<open>Rounding stays within half a unit unless it saturates.\<close>

lemma duration_Round_near:
  assumes "0 \<le> d" "0 < m" "d \<le> max_int64 - m"
  shows "2 * \<bar>duration_Round d m - d\<bar> \<le> m"
proof -
  define r where "r = d mod m"
  have r: "0 \<le> r" "r < m" using assms(2) by (simp_all add: r_def)
  have "wrap64 (wrap64 (d + m) - r) = d + m - r"
    using assms r by (simp add: wrap64_between)
  then have "duration_Round d m = (if r + r < m then d - r else d + m - r)"
    using assms r by (simp add: duration_Round_def r_def [symmetric] Let_def)
  with r show ?thesis by (auto simp: abs_if)
qed

text \<open>C16. A rejection reaches the caller and tells the truth.  When the gate turns a request away
  because a known budget is at its floor, the error \<open>net/http\<close> hands to the caller passes
  \<open>ClassifyError\<close> unchanged and matches \<open>ErrRateLimited\<close>, and its text read back names the
  wait to within half a second, the reset instant to the second and the configured longest wait.\<close>

theorem gate_rejection_reads_back:
  assumes "Get (w_cache w) = (s, True)" "0 \<le> w_now w" "ResetAt s - w_now w \<le> max_int64 - second"
    and "awaitBudget parse opts wallClock p base req w = (Some e, w')"
    and "e = StatusError sentinel status meth u (ResetTooFarError wait maxWait resetAt)"
  shows "ClassifyError (Some (UrlError op' u' e)) = Some (UrlError op' u' e)
    \<and> errors_Is (UrlError op' u' e) ErrRateLimited
    \<and> (case read_rejection (resetTooFarError_Error wait maxWait resetAt) of
      (wait', reset', max') \<Rightarrow> 2 * \<bar>wait' - (ResetAt s - w_now w)\<bar> \<le> second
        \<and> reset' \<le> ResetAt s \<and> ResetAt s < reset' + second \<and> max' = MaxWait opts)"
proof -
  have now: "clk_now wallClock w = w_now w" by (rule wall.now_reads)
  from assms(4) have run: "budget_decision opts wallClock req s w
      = (Some (StatusError sentinel status meth u (ResetTooFarError wait maxWait resetAt)), w')"
    by (simp add: awaitBudget_def assms(1,5))
  have "sentinel = ErrRateLimited" "\<not> wait \<le> 0" "wait = time_Sub (ResetAt s) (w_now w)"
    "maxWait = MaxWait opts" "resetAt = ResetAt s"
    using run wall.sleep_interrupted [of "req_Context req" "wait" w]
    by (auto simp: budget_decision_def Let_def now split: if_splits dest: wall.sleep_interrupted)
  moreover from this have "wait = ResetAt s - w_now w" "0 \<le> ResetAt s"
    using assms(2,3) time_Sub_exact [of "ResetAt s" "w_now w"] by (auto simp: in_int64_def)
  moreover have "ResetAt s div second * second \<le> ResetAt s" "ResetAt s < ResetAt s div second * second + second"
    using div_mult_mod_eq [of "ResetAt s" second] pos_mod_bound [of second "ResetAt s"] pos_mod_sign [of second "ResetAt s"]
    by linarith+
  moreover have "ClassifyError (Some (UrlError op' u' e)) = Some (UrlError op' u' e)"
    by (simp add: ClassifyError_def AsType_def assms(5))
  ultimately show ?thesis
    using duration_Round_near [of wait second] assms(3)
    by (simp add: read_rejection_text errors_Is_def assms(5))
qed

theorem gate_rejection_reads_back_witness:
  "case read_rejection (resetTooFarError_Error (3600 * second - 1000) (15 * minute) (3600 * second)) of
     (wait', reset', max') \<Rightarrow> 2 * \<bar>wait' - (3600 * second - 1000)\<bar> \<le> second \<and> max' = 15 * minute"
proof -
  let ?s = "\<lparr>Limit = 5000, Remaining = 5, ResetAt = 3600 * second\<rparr>"
  have known: "Get (w_cache exhausted_world) = (?s, True)"
    by (simp add: exhausted_world_def example_world_def Get_def)
  have "awaitBudget (\<lambda>s. Inl (OtherError s)) example_rate_options wallClock
      (plain_prober default_retry (always 200 []) []) None (example_request ''GET'') exhausted_world
    = (Some (StatusError ErrRateLimited 0 ''GET'' (url_String example_url)
         (ResetTooFarError (3600 * second - 1000) (15 * minute) (3600 * second))), exhausted_world)"
    unfolding awaitBudget_def known prod.case
    by (simp add: budget_decision_def example_rate_options_def wall.now_reads
        exhausted_world_def example_world_def example_request_def time_Sub_def clamp64_def)
  from gate_rejection_reads_back [OF known _ _ this refl] show ?thesis
    by (simp add: exhausted_world_def example_world_def example_rate_options_def case_prod_beta)
qed

end
