(* ===== verification/ErrorTexts.thy ===== *)
theory ErrorTexts
  imports GateMessages
begin

text \<open>
  The texts of the kit's errors: \<open>fmt.Errorf\<close> with the verbs the kit uses, the sentinels of
  \<open>src/errors.go\<close>, \<open>src/pagination.go\<close> and \<open>src/client.go\<close>, and \<open>(*StatusError).Error\<close>
  over them.  Parameters are \<open>strconv.Quote\<close> and \<open>foreign\<close>: the texts of go-github's error
  types, and what a \<open>*net.OpError\<close> prints before its cause (operation, network, addresses).  A message tells every error in its tree, so what \<open>ClassifyError\<close> keeps for
  \<open>errors.Is\<close> is also in the log line.
\<close>

section \<open>Formatting\<close>

text \<open>\<open>fmt.Errorf\<close>: \<open>%w\<close> takes the next wrapped error, every other verb the next other operand
  (\<open>%d\<close>, \<open>%s\<close>, \<open>%T\<close> print it, a \<open>time.Duration\<close> by its \<open>String\<close> method, \<open>%q\<close> quotes it); a missing operand is reported in the
  text.\<close>

definition arg_text :: "(string \<Rightarrow> string) \<Rightarrow> char \<Rightarrow> arg \<Rightarrow> string" where
  "arg_text quote verb a =
     (case a of ArgInt i \<Rightarrow> format_d i | ArgStr s \<Rightarrow> if verb = CHR ''q'' then quote s else s
      | ArgDuration d \<Rightarrow> duration_String d)"

fun Errorf_text :: "(string \<Rightarrow> string) \<Rightarrow> string \<Rightarrow> arg list \<Rightarrow> string list \<Rightarrow> string" where
  "Errorf_text quote (c # v # cs) as ws =
     (if c \<noteq> CHR ''%'' then c # Errorf_text quote (v # cs) as ws
      else if v = CHR ''w'' then
        (case ws of [] \<Rightarrow> ''%!w(MISSING)'' @ Errorf_text quote cs as []
         | w # ws \<Rightarrow> w @ Errorf_text quote cs as ws)
      else
        (case as of [] \<Rightarrow> ''%!'' @ v # ''(MISSING)'' @ Errorf_text quote cs [] ws
         | a # as \<Rightarrow> arg_text quote v a @ Errorf_text quote cs as ws))"
| "Errorf_text quote cs as ws = cs"

text \<open>The wrapped errors a format prints.\<close>

fun wraps :: "string \<Rightarrow> nat" where
  "wraps (c # v # cs) =
     (if c \<noteq> CHR ''%'' then wraps (v # cs) else if v = CHR ''w'' then Suc (wraps cs) else wraps cs)"
| "wraps cs = 0"

section \<open>Messages\<close>

lemma StatusError_Error_cong [fundef_cong]:
  "sentinel = sentinel' \<Longrightarrow> status = status' \<Longrightarrow> meth = meth' \<Longrightarrow> u = u' \<Longrightarrow> e = e' \<Longrightarrow>
    text sentinel' = text' sentinel' \<Longrightarrow> text e' = text' e' \<Longrightarrow>
    StatusError_Error text sentinel status meth u e = StatusError_Error text' sentinel' status' meth' u' e'"
  by (simp add: StatusError_Error_def)

fun ctx_text :: "ctx_cause \<Rightarrow> string" where
  "ctx_text Canceled = ''context canceled''"
| "ctx_text DeadlineExceeded = ''context deadline exceeded''"
| "ctx_text (CustomCause t) = t"

fun err_text :: "(string \<Rightarrow> string) \<Rightarrow> (err \<Rightarrow> string) \<Rightarrow> err \<Rightarrow> string" where
  "err_text quote foreign ErrAuthRequired = ''github: authentication required''"
| "err_text quote foreign ErrForbidden = ''github: forbidden''"
| "err_text quote foreign ErrRateLimited = ''github: rate limit exceeded''"
| "err_text quote foreign ErrNotFound = ''github: resource not found''"
| "err_text quote foreign ErrAPIUnavailable = ''github: API unavailable''"
| "err_text quote foreign ErrInvalidPagination = ''githubkit: PaginationOptions.MaxPages must be at least 1''"
| "err_text quote foreign ErrBaseURLNoHost = ''githubkit: base URL has no host''"
| "err_text quote foreign (StatusError sentinel status meth u e) =
     StatusError_Error (err_text quote foreign) sentinel status meth u e"
| "err_text quote foreign (ResetTooFarError wait maxWait resetAt) = resetTooFarError_Error wait maxWait resetAt"
| "err_text quote foreign (UrlError op' u e) = op' @ '' '' @ quote u @ '': '' @ err_text quote foreign e"
| "err_text quote foreign (NetOpError op' e) = foreign (NetOpError op' e) @ '': '' @ err_text quote foreign e"
| "err_text quote foreign (Errorf f as es) = Errorf_text quote f as (map (err_text quote foreign) es)"
| "err_text quote foreign (CtxError cause) = ctx_text cause"
| "err_text quote foreign (OtherError t) = t"
| "err_text quote foreign (NetError t) = t"
| "err_text quote foreign e = foreign e"

text \<open>Every \<open>Errorf\<close> in the tree prints each of the errors it wraps.\<close>

fun formats_ok :: "err \<Rightarrow> bool" where
  "formats_ok (StatusError sentinel status meth u e) \<longleftrightarrow> formats_ok sentinel \<and> formats_ok e"
| "formats_ok (UrlError op' u e) \<longleftrightarrow> formats_ok e"
| "formats_ok (NetOpError op' e) \<longleftrightarrow> formats_ok e"
| "formats_ok (Errorf f as es) \<longleftrightarrow> length es \<le> wraps f \<and> list_all formats_ok es"
| "formats_ok e \<longleftrightarrow> True"

section \<open>What a message tells\<close>

lemma sublist_Cons_drop: "sublist xs ys \<Longrightarrow> sublist xs (y # ys)"
  by (simp add: sublist_Cons_right)

lemma sublist_after: "sublist xs ys \<Longrightarrow> sublist xs (zs @ ys)"
  using sublist_append_leftI sublist_order.order_trans by blast

lemma sublist_before: "sublist xs ys \<Longrightarrow> sublist xs (ys @ zs)"
  using sublist_append_rightI sublist_order.order_trans by blast

lemma Errorf_text_tells:
  "w \<in> set ws \<Longrightarrow> length ws \<le> wraps f \<Longrightarrow> sublist w (Errorf_text quote f as ws)"
proof (induction quote f as ws rule: Errorf_text.induct)
  case (1 quote c v cs as ws)
  consider "c \<noteq> CHR ''%''" | "c = CHR ''%''" "v = CHR ''w''" | "c = CHR ''%''" "v \<noteq> CHR ''w''" by blast
  then show ?case
  proof cases
    case 1
    with "1.IH"(1) "1.prems" show ?thesis by (simp add: sublist_Cons_drop)
  next
    case 2
    with "1.prems" obtain w' ws' where ws: "ws = w' # ws'" by (cases ws) auto
    with 2 "1.IH"(3) "1.prems" show ?thesis by (auto intro: sublist_after sublist_before)
  next
    case 3
    show ?thesis
    proof (cases as)
      case Nil
      with 3 "1.IH"(4) "1.prems" have "sublist w (Errorf_text quote cs [] ws)" by simp
      from sublist_after [OF this, of "''%!'' @ v # ''(MISSING)''"] 3 Nil show ?thesis by simp
    next
      case (Cons a as')
      with 3 "1.IH"(5) "1.prems" show ?thesis by (auto intro: sublist_after)
    qed
  qed
qed auto

lemma StatusError_tells:
  "sublist (text sentinel) (StatusError_Error text sentinel status meth u e)"
  "sublist (text e) (StatusError_Error text sentinel status meth u e)"
proof -
  obtain p where p: "StatusError_Error text sentinel status meth u e = p @ text sentinel @ '': '' @ text e"
    unfolding StatusError_Error_def Let_def by (metis append_assoc)
  show "sublist (text sentinel) (StatusError_Error text sentinel status meth u e)"
    unfolding p by simp
  show "sublist (text e) (StatusError_Error text sentinel status meth u e)"
    unfolding p using sublist_after [of "text e" "text e" "p @ text sentinel @ '': ''"] by simp
qed

text \<open>The message of an error tells every error its \<open>Unwrap\<close> methods reach.\<close>

lemma message_tells_tree:
  "x \<in> set (err_tree e) \<Longrightarrow> formats_ok e \<Longrightarrow> sublist (err_text quote foreign x) (err_text quote foreign e)"
proof (induction e arbitrary: x)
  case (StatusError sentinel status meth u e)
  then show ?case by (auto intro: sublist_order.order_trans [OF _ StatusError_tells(1)]
        sublist_order.order_trans [OF _ StatusError_tells(2)])
next
  case (UrlError op' u e)
  show ?case
  proof (cases "x = UrlError op' u e")
    case False
    with UrlError show ?thesis by (auto intro!: sublist_after sublist_Cons_drop)
  qed simp
next
  case (NetOpError op' e)
  show ?case
  proof (cases "x = NetOpError op' e")
    case False
    with NetOpError show ?thesis by (auto intro!: sublist_after sublist_Cons_drop)
  qed simp
next
  case (Errorf f as es)
  show ?case
  proof (cases "x = Errorf f as es")
    case False
    with Errorf.prems obtain c where c: "c \<in> set es" "x \<in> set (err_tree c)" by auto
    with Errorf have "sublist (err_text quote foreign x) (err_text quote foreign c)"
      by (auto simp: list_all_iff)
    moreover have "sublist (err_text quote foreign c) (err_text quote foreign (Errorf f as es))"
      using c Errorf.prems by (auto intro!: Errorf_text_tells)
    ultimately show ?thesis by (rule sublist_order.order_trans)
  qed simp
qed auto

lemma formats_ok_tree: "x \<in> set (err_tree e) \<Longrightarrow> formats_ok e \<Longrightarrow> formats_ok x"
  by (induction e arbitrary: x) (auto simp: list_all_iff)

text \<open>Classification only adds kit sentinels, so its result prints what it wraps.\<close>

lemma formats_ok_classified:
  assumes "formats_ok e" "ClassifyError (Some e) = Some r"
  shows "formats_ok r"
proof (cases e rule: ClassifyError_branches)
  case tagged
  with assms show ?thesis by simp
next
  case (limited resp x)
  with assms show ?thesis
    using formats_ok_tree [OF limited(2) assms(1)] by (auto simp: classifyRateLimit_def split: option.splits)
next
  case (api resp msg)
  with assms(2) show ?thesis
    by (auto simp: classifyResponseError_def Let_def split: option.splits if_splits)
next
  case transport
  with assms classify_transport_cases [of e] show ?thesis by auto
qed

text \<open>C32. Classifying keeps the root cause, in the tree and in the text.  In a chain of wrapped
  errors every error at the end of the chain, be it one of go-github's types, a context error or any
  other sentinel, is still found in the result by \<open>errors.Is\<close> and \<open>errors.AsType\<close>; and if the
  formats print what they wrap, the result's message contains its text, and the text of every
  sentinel the result matches.\<close>

theorem classified_message_tells:
  assumes "chain e" "formats_ok e" "x \<in> set (err_tree e)" "unwrap x = []" "ClassifyError (Some e) = Some r"
  shows "x \<in> set (err_tree r) \<and> sublist (err_text quote foreign x) (err_text quote foreign r)
    \<and> (\<forall>s \<in> kit_sentinels. errors_Is r s \<longrightarrow> sublist (err_text quote foreign s) (err_text quote foreign r))"
proof -
  note tells = message_tells_tree [OF _ formats_ok_classified [OF assms(2,5)]]
  have "x \<in> set (err_tree r)" by (rule ClassifyError_keeps_root_cause [OF assms(1,3-5)])
  then show ?thesis using tells unfolding errors_Is_def by blast
qed

theorem classified_message_tells_witness:
  "\<exists>r. ClassifyError (Some (UrlError ''Get'' ''https://api.github.com/'' (Errorf ''dial: %w'' [] [CtxError Canceled])))
      = Some r
    \<and> CtxError Canceled \<in> set (err_tree r)
    \<and> sublist ''context canceled'' (err_text (\<lambda>s. s) (\<lambda>e. []) r)"
proof -
  let ?e = "UrlError ''Get'' ''https://api.github.com/'' (Errorf ''dial: %w'' [] [CtxError Canceled])"
  obtain r where r: "ClassifyError (Some ?e) = Some r" by (simp add: ClassifyError_def)
  from classified_message_tells [OF _ _ _ _ r, of "CtxError Canceled" "\<lambda>s. s" "\<lambda>e. []"] r show ?thesis
    by (simp add: chain_def)
qed

text \<open>The message of a missing resource, word for word.\<close>

lemma not_found_message:
  "err_text quote foreign (StatusError ErrNotFound 404 ''GET'' ''https://api.github.com/users/x/events''
     (OtherError ''not found, users/x''))
   = ''github: GET https://api.github.com/users/x/events: 404: github: resource not found: not found, users/x''"
  by (simp add: StatusError_Error_def Let_def format_d_def itoa_eval)

end
