(* ===== verification/KernelPacing.thy ===== *)
theory KernelPacing
  imports KernelStack
begin

text \<open>
  Invariants of the world that a base transport keeps are kept by the whole stack of
  \<open>src/client.go\<close>, because the layers above it change nothing but the cache, the clock, the log
  and the prober's last attempt.  Applied to pacing (\<open>src/secondary.go\<close>): every request a paced
  kernel puts on the wire has waited for a slot of its own, retries and probes included.
\<close>

section \<open>Invariants through the layers\<close>

abbreviation uncancelled :: "request \<Rightarrow> bool" where
  "uncancelled req \<equiv> ctx_done (req_Context req) = None"

locale keeps_invariant =
  fixes I :: "'n world \<Rightarrow> bool" and rt :: "'n round_trip"
  assumes keeps: "uncancelled req \<Longrightarrow> rt req w = (r, w') \<Longrightarrow> I w \<Longrightarrow> I w'"

text \<open>An invariant of the network's state, the reserved slot, the chances and the clock that time does
  not break.\<close>

locale layer_invariant = clock_laws clk for clk :: "'n clock" +
  fixes I :: "'n world \<Rightarrow> bool"
  assumes insensitive: "I w \<Longrightarrow> w_net w' = w_net w \<Longrightarrow> w_reserved w' = w_reserved w \<Longrightarrow>
    w_chance w' = w_chance w \<Longrightarrow> w_now w \<le> w_now w' \<Longrightarrow> I w'"
begin

lemma sleep_keeps: "clk_sleep clk c d w = (e, w') \<Longrightarrow> I w \<Longrightarrow> I w'"
  using insensitive sleep_fields by metis

lemma drain_keeps [simp]: "I (drainClose r w) = I w"
  using insensitive [of w "drainClose r w"] insensitive [of "drainClose r w" w] by auto

lemma cache_keeps [simp]: "I (w\<lparr>w_cache := c\<rparr>) = I w"
  using insensitive [of w "w\<lparr>w_cache := c\<rparr>"] insensitive [of "w\<lparr>w_cache := c\<rparr>" w] by auto

lemma attempt_keeps [simp]: "I (w\<lparr>w_lastAttempt := t\<rparr>) = I w"
  using insensitive [of w "w\<lparr>w_lastAttempt := t\<rparr>"] insensitive [of "w\<lparr>w_lastAttempt := t\<rparr>" w] by auto

lemma feed_keeps: "keeps_invariant I rt \<Longrightarrow> keeps_invariant I (feedTransport_RoundTrip rt)"
  by (auto simp: keeps_invariant_def feedTransport_RoundTrip_def split: prod.splits)

lemma retry_keeps:
  assumes "keeps_invariant I rt"
  shows "keeps_invariant I (retryTransport_RoundTrip opts clk rt)"
proof
  fix req w r w'
  assume req: "uncancelled req" and run: "retryTransport_RoundTrip opts clk rt req w = (r, w')" and "I w"
  note k = keeps_invariant.keeps [OF assms]
  have loop: "uncancelled q \<longrightarrow> I w \<longrightarrow> I w'"
    if "retry_loop opts clk rt body attempt backoff q w = (r, w')" for body attempt backoff q
    using that
  proof (induction rule: retry_loop_rounds)
    case (final attempt backoff req w resp e w')
    then show ?case using k by (metis replay_fields(4))
  next
    case (interrupted attempt backoff req w resp e w1 x w')
    then show ?case using k sleep_keeps by (metis drain_keeps replay_fields(4))
  next
    case (again attempt backoff req w resp e w1 w2 res w')
    then show ?case using k sleep_keeps by (metis drain_keeps replay_fields(4) read_off_fields(4))
  qed
  have "uncancelled (read_off n req)" for n using req by simp
  with req run \<open>I w\<close> show "I w'"
    by (auto simp: retryTransport_RoundTrip_def split: if_splits sum.splits dest: loop k)
qed

lemma probe_keeps:
  assumes "keeps_invariant I (prober_next p)" "probe parse clk p c base w = (r, w')" "ctx_done c = None" "I w"
  shows "I w'"
proof -
  have "I w2" if "new_get_request parse c u = Inr q" "prober_next p (probe_headers t q) (w\<lparr>w_lastAttempt := x\<rparr>) = (y, w2)"
    for u q t x y w2
  proof -
    have "uncancelled (probe_headers t q)"
      using that(1) assms(3) by (auto simp: new_get_request_def probe_headers_def Let_def split: sum.splits)
    from keeps_invariant.keeps [OF assms(1) this that(2)] assms(4) show ?thesis by simp
  qed
  with assms(2,4) show ?thesis
    by (auto simp: probe_def Let_def split: option.splits prod.splits bool.splits sum.splits if_splits)
qed

lemma gate_keeps:
  assumes "keeps_invariant I (prober_next p)" "keeps_invariant I nxt"
  shows "keeps_invariant I (gateTransport_RoundTrip parse opts clk p base nxt)"
proof
  fix req w r w'
  assume req: "uncancelled req" and run: "gateTransport_RoundTrip parse opts clk p base nxt req w = (r, w')" and i: "I w"
  note k = keeps_invariant.keeps [OF assms(2) req]
  have decide: "I w2" if "budget_decision opts clk req s w1 = (e, w2)" "I w1" for s w1 e w2
    using that sleep_keeps by (auto simp: budget_decision_def Let_def split: if_splits)
  have await: "I w1" if aw: "awaitBudget parse opts clk p base req w = (e, w1)" for e w1
  proof -
    obtain pr w2 where pr: "probe parse clk p (req_Context req) base w = (pr, w2)" by fastforce
    have "I w2" by (rule probe_keeps [OF assms(1) pr req i])
    with aw pr i show ?thesis
      by (auto simp: awaitBudget_def split: prod.splits bool.splits sum.splits intro: decide)
  qed
  have k_spent: "I w'" if "nxt req (w1\<lparr>w_cache := c\<rparr>) = (r, w')" "I w1" for w1 c
    using k [OF that(1)] that(2) by simp
  show "I w'"
    using run i by (auto simp: gateTransport_RoundTrip_def split: if_splits prod.splits option.splits
        dest: k_spent k await)
qed

end

lemma New_keeps:
  assumes k: "New std opts = Inr k" and inv: "layer_invariant (the_clock (resolveDefaults opts)) I"
    and base: "keeps_invariant I (paced_base std (resolveDefaults opts))"
    and etag: "\<And>rt e. keeps_invariant I rt \<Longrightarrow> keeps_invariant I (etag_NewTransport std rt (etag_policy e))"
  shows "keeps_invariant I (client_HTTP_Transport k)"
proof -
  let ?o = "resolveDefaults opts"
  have "keeps_invariant I (etag_layer std ?o (paced_base std ?o))"
    using base etag by (simp add: etag_layer_def split: option.splits)
  moreover have "keeps_invariant I (prober_next (prober k))"
    unfolding New_transport(2) [OF k]
    by (intro layer_invariant.retry_keeps [OF inv] layer_invariant.feed_keeps [OF inv] base)
  ultimately show ?thesis
    unfolding New_transport(1) [OF k]
    by (intro layer_invariant.gate_keeps [OF inv] layer_invariant.feed_keeps [OF inv]
        layer_invariant.retry_keeps [OF inv])
qed

section \<open>Pacing\<close>

text \<open>A network that writes down when each request reaches it.\<close>

definition noting :: "'n network \<Rightarrow> (time list \<times> 'n) network" where
  "noting net q t n = (case net q t (snd n) of (a, t', n') \<Rightarrow> (a, t', (fst n @ [t], n')))"

text \<open>No wait ends more than \<open>late\<close> after its time.\<close>

definition lateness_at_most :: "nat \<Rightarrow> (nat \<Rightarrow> chance) \<Rightarrow> bool" where
  "lateness_at_most late ch \<longleftrightarrow> (\<forall>k. scheduled_after (ch k) \<le> late \<and> timer_late (ch k) \<le> late)"

text \<open>Every request so far went out at a slot of its own or at most \<open>late\<close> after it, the slots are an
  interval apart, and the next free one is at most an interval away.\<close>

definition paced_so_far :: "duration \<Rightarrow> nat \<Rightarrow> (time list \<times> 'n) world \<Rightarrow> bool" where
  "paced_so_far d late w \<longleftrightarrow> lateness_at_most late (w_chance w) \<and> w_reserved w \<le> w_now w + d
     \<and> (\<exists>slots. spaced d slots \<and> (\<forall>x \<in> set slots. x + d \<le> w_reserved w)
          \<and> list_all2 (\<lambda>x t. x \<le> t \<and> t \<le> x + int late) slots (fst (w_net w)))"

interpretation paced: layer_invariant wallClock "paced_so_far d late" for d late
  by unfold_locales (auto simp: paced_so_far_def)

text \<open>The wait of a request for its slot, and when it is over.\<close>

lemma slot_wait:
  assumes "lateness_at_most late (w_chance w)" "ctx_done c = None" "w_now w = now" "now \<le> start"
    and "(if start - now > 0 then clk_sleep wallClock c (start - now) w else (None, w)) = (e, w1)"
  shows "e = None \<and> start \<le> w_now w1 \<and> w_now w1 \<le> start + int late
    \<and> w_net w1 = w_net w \<and> w_reserved w1 = w_reserved w \<and> w_chance w1 = w_chance w"
proof (cases "start - now > 0")
  case True
  with assms(5) have sl: "clk_sleep wallClock c (start - now) w = (e, w1)" by simp
  have none: "e = None" using wall.sleep_interrupted sl assms(2) by (cases e) fastforce+
  have "scheduled_after (next_chance w) \<le> late" "timer_late (next_chance w) \<le> late"
    using assms(1) by (simp_all add: lateness_at_most_def)
  with none wall.sleep_fields [OF sl] wall_sleep_done [OF sl [unfolded none]] True assms(3) show ?thesis by simp
qed (use assms in auto)

lemma paced_base_keeps:
  assumes "0 < d" "in_int64 d"
  shows "keeps_invariant (paced_so_far d late) (pacingTransport_RoundTrip d wallClock (base_RoundTrip (noting net)))"
proof
  fix req w r w'
  assume req: "uncancelled req" and i: "paced_so_far d late w"
    and run: "pacingTransport_RoundTrip d wallClock (base_RoundTrip (noting net)) req w = (r, w')"
  define start where "start = max (w_now w) (w_reserved w)"
  let ?w0 = "w\<lparr>w_reserved := start + d\<rparr>"
  have late: "lateness_at_most late (w_chance ?w0)" using i by (simp add: paced_so_far_def)
  have slot: "reserve_slot d (w_now w) (w_reserved w) = (start, start + d)"
    by (simp add: start_def reserve_slot_def time_Before_def time_Add_def Let_def max_def)
  have wait: "time_Sub start (w_now w) = start - w_now w"
    using i assms by (intro time_Sub_exact) (auto simp: start_def max_def in_int64_def paced_so_far_def)
  obtain e w1 where sl: "(if start - w_now w > 0 then clk_sleep wallClock (req_Context req) (start - w_now w) ?w0
      else (None, ?w0)) = (e, w1)" by fastforce
  have "w_now ?w0 = w_now w" "w_now w \<le> start" by (simp_all add: start_def)
  from slot_wait [OF late req this sl]
  have w1: "e = None" "start \<le> w_now w1" "w_now w1 \<le> start + int late"
    "w_net w1 = w_net w" "w_reserved w1 = start + d" "w_chance w1 = w_chance w"
    by simp_all
  obtain x w2 where n: "base_RoundTrip (noting net) req w1 = (x, w2)" by fastforce
  have "w' = w2"
    using run n assms(1) w1(1) unfolding pacingTransport_RoundTrip_def Let_def wall.now_reads slot prod.case wait sl
    by (auto split: prod.splits option.splits)
  moreover have "fst (w_net w2) = fst (w_net w) @ [w_now w1]" "w_reserved w2 = start + d" "start \<le> w_now w2"
    "w_chance w2 = w_chance w"
    using n w1 by (auto simp: base_RoundTrip_def noting_def Let_def split: prod.splits)
  moreover obtain slots where slots: "spaced d slots" "\<forall>x \<in> set slots. x + d \<le> w_reserved w"
    "list_all2 (\<lambda>x t. x \<le> t \<and> t \<le> x + int late) slots (fst (w_net w))"
    using i by (auto simp: paced_so_far_def)
  moreover have "spaced d (slots @ [start])" "\<forall>x \<in> set (slots @ [start]). x + d \<le> start + d"
    using slots(1,2) assms(1) by (fastforce simp: spaced_def sorted_wrt_append start_def)+
  ultimately show "paced_so_far d late w'"
    unfolding paced_so_far_def using late w1(2,3)
    by (intro conjI exI [of _ "slots @ [start]"]) (auto intro!: list_all2_appendI)
qed

lemma spaced_nth:
  assumes "spaced d xs" "i < j" "j < length xs"
  shows "xs ! i + int (j - i) * d \<le> xs ! j"
  using assms(2,3)
proof (induction j)
  case (Suc j)
  have step: "xs ! j + d \<le> xs ! Suc j"
    using assms(1) Suc.prems(2) by (simp add: spaced_def sorted_wrt_iff_nth_less)
  show ?case
  proof (cases "i = j")
    case True
    with step show ?thesis by simp
  next
    case False
    with Suc.prems have "i < j" "j < length xs" by simp_all
    moreover have "int (Suc j - i) * d = int (j - i) * d + d"
      using Suc.prems(1) by (simp add: Suc_diff_le algebra_simps)
    ultimately show ?thesis using step Suc.IH by simp
  qed
qed simp

text \<open>A client that makes calls one after the other, with any pauses.\<close>

fun call_all :: "'n round_trip \<Rightarrow> (nat \<times> request) list \<Rightarrow> 'n world \<Rightarrow> 'n world" where
  "call_all rt [] w = w"
| "call_all rt ((pause, req) # cs) w = call_all rt cs (snd (rt req (w\<lparr>w_now := w_now w + int pause\<rparr>)))"

lemma call_all_keeps:
  assumes "keeps_invariant I rt" "\<And>w n. I w \<Longrightarrow> I (w\<lparr>w_now := w_now w + int n\<rparr>)" "I w"
    and "list_all (\<lambda>(pause, req). uncancelled req) cs"
  shows "I (call_all rt cs w)"
  using assms(3,4)
proof (induction cs arbitrary: w)
  case (Cons c cs)
  obtain pause req where c: "c = (pause, req)" by fastforce
  obtain r w' where run: "rt req (w\<lparr>w_now := w_now w + int pause\<rparr>) = (r, w')" by fastforce
  have "I w'"
    using keeps_invariant.keeps [OF assms(1) _ run assms(2) [OF Cons.prems(1)]] Cons.prems(2) c by simp
  with Cons.IH Cons.prems(2) run c show ?case by simp
qed simp

text \<open>C29. A paced kernel keeps its rate on the wire.  For every configuration with pacing on, over the
  wall clock and a base transport of its own, whatever the network answers, and for a client that
  makes its calls one after the other without cancelling them: if no timer fires, and no goroutine
  runs, more than \<open>late\<close> after its time, then from one request on the wire to any later one at least
  an interval passes per request, less \<open>late\<close> in all.  Retries and probes are paced like first
  attempts.  With timers on time consecutive requests are the interval apart.\<close>

theorem kernel_requests_paced:
  assumes "New std opts = Inr k" and "the_clock (resolveDefaults opts) = wallClock"
    and "SecondaryPacing (resolveDefaults opts) = d" "0 < d" "in_int64 d"
    and "baseTransport (http_Transport std) (resolveDefaults opts) = base_RoundTrip (noting net)"
    and "\<And>rt e. keeps_invariant (paced_so_far d late) rt \<Longrightarrow>
      keeps_invariant (paced_so_far d late) (etag_NewTransport std rt (etag_policy e))"
    and "fst (w_net w) = []" "w_reserved w \<le> w_now w" "lateness_at_most late (w_chance w)"
    and "list_all (\<lambda>(pause, req). uncancelled req) cs"
    and "ts = fst (w_net (call_all (client_HTTP_Transport k) cs w))" "i < j" "j < length ts"
  shows "ts ! i + int (j - i) * d \<le> ts ! j + int late"
proof -
  have "paced_base std (resolveDefaults opts) = pacingTransport_RoundTrip d wallClock (base_RoundTrip (noting net))"
    using assms(2-4,6) by (simp add: paced_base_def)
  then have "keeps_invariant (paced_so_far d late) (client_HTTP_Transport k)"
    using paced_base_keeps [OF assms(4,5)] assms(2,7) paced.layer_invariant_axioms
    by (intro New_keeps [OF assms(1)]) simp_all
  moreover have "paced_so_far d late (v\<lparr>w_now := w_now v + int n\<rparr>)" if "paced_so_far d late v"
    for v :: "(time list \<times> 'a) world" and n
    using that by (auto simp: paced_so_far_def)
  moreover have "paced_so_far d late w"
    using assms(4,8-10) by (auto simp: paced_so_far_def spaced_def)
  ultimately have "paced_so_far d late (call_all (client_HTTP_Transport k) cs w)"
    by (rule call_all_keeps [OF _ _ _ assms(11)])
  then obtain slots where slots: "spaced d slots" "length slots = length ts"
    "\<And>n. n < length ts \<Longrightarrow> slots ! n \<le> ts ! n \<and> ts ! n \<le> slots ! n + int late"
    unfolding paced_so_far_def assms(12) [symmetric] by (auto simp: list_all2_conv_all_nth)
  have "i < length ts" using assms(13,14) by simp
  with slots(3) [of i] slots(3) [OF assms(14)] spaced_nth [OF slots(1) assms(13)] slots(2) assms(14)
  show ?thesis by fastforce
qed

definition paced_options :: "(time list \<times> nat) Option option list" where
  "paced_options = [Some (WithPAT ''t''), Some (WithSecondaryPacing (2 * second))]"

definition paced_externals :: "(time list \<times> nat) externals" where
  "paced_externals = \<lparr>Getenv = (\<lambda>v. []), Quote = (\<lambda>s. s), url_Parse = (\<lambda>s. Inr example_url),
     http_Transport = (\<lambda>t. base_RoundTrip (noting (always 200 []))), etag_NewTransport = (\<lambda>rt e. rt)\<rparr>"

text \<open>Every timer seven nanoseconds late.\<close>

definition paced_world :: "(time list \<times> nat) world" where
  "paced_world = \<lparr>w_now = 1000, w_cache = Some NewRateLimitCache, w_lastAttempt = zero_time,
     w_reserved = zero_time, w_log = [], w_chance = (\<lambda>k. (on_time k)\<lparr>timer_late := 7\<rparr>), w_net = ([], 0)\<rparr>"

definition paced_calls :: "(nat \<times> request) list" where
  "paced_calls = [(0, example_request ''GET''), (5, example_request ''POST'')]"

interpretation paced_wire: keeps_invariant "paced_so_far (2 * second) late"
    "pacingTransport_RoundTrip (2 * second) wallClock (base_RoundTrip (noting net))" for late and net :: "'n network"
  by (rule paced_base_keeps) (simp_all add: in_int64_def)

text \<open>The stack of this kernel, written out so that it evaluates: it sends a probe and the two
  requests.\<close>

definition paced_stack :: "(time list \<times> nat) round_trip" where
  "paced_stack =
     (let base = pacingTransport_RoundTrip (2 * second) wallClock (base_RoundTrip (noting (always 200 [])));
          pr = \<lparr>prober_next = retryTransport_RoundTrip DefaultRetryOptions wallClock (feedTransport_RoundTrip base),
                prober_token = ''t''\<rparr>
      in gateTransport_RoundTrip (\<lambda>s. Inr example_url) DefaultRateLimitOptions wallClock pr (Some example_url)
           (feedTransport_RoundTrip (retryTransport_RoundTrip DefaultRetryOptions wallClock base)))"

lemma paced_options_resolved:
  "resolveDefaults paced_options = start_options\<lparr>Token := ''t'', SecondaryPacing := 2 * second\<rparr>"
  by (simp add: resolveDefaults_def Let_def WithPAT_def WithSecondaryPacing_def start_options_def paced_options_def)

lemma paced_kernel: "\<exists>k. New paced_externals paced_options = Inr k \<and> client_HTTP_Transport k = paced_stack"
  by (simp add: New_def paced_options_resolved resolveToken_def ResolveBaseURL_def paced_externals_def Let_def
      New_stack_def New_prober_def paced_base_def the_clock_def baseTransport_def paced_stack_def)

theorem kernel_requests_paced_witness:
  "\<exists>k ts. New paced_externals paced_options = Inr k
    \<and> ts = fst (w_net (call_all (client_HTTP_Transport k) paced_calls paced_world))
    \<and> ts = [1000, 2000001007, 4000001007] \<and> ts ! 1 + int (2 - 1) * (2 * second) \<le> ts ! 2 + int 7"
proof -
  let ?o = "resolveDefaults paced_options"
  obtain k where k: "New paced_externals paced_options = Inr k" "client_HTTP_Transport k = paced_stack"
    using paced_kernel by blast
  have "fst (w_net (call_all paced_stack paced_calls paced_world)) = [1000, 2000001007, 4000001007]"
    by code_simp
  with k(2) have ts: "[1000, 2000001007, 4000001007] = fst (w_net (call_all (client_HTTP_Transport k) paced_calls paced_world))"
    by simp
  have base: "baseTransport (http_Transport paced_externals) ?o = base_RoundTrip (noting (always 200 []))"
    by (simp add: paced_options_resolved baseTransport_def paced_externals_def)
  have pace: "SecondaryPacing ?o = 2 * second" by (simp add: paced_options_resolved)
  have clk: "the_clock ?o = wallClock" by (simp add: paced_options_resolved the_clock_def)
  have etag: "keeps_invariant (paced_so_far (2 * second) 7) (etag_NewTransport paced_externals rt (etag_policy e))"
    if "keeps_invariant (paced_so_far (2 * second) 7) rt" for rt e
    using that by (simp add: paced_externals_def)
  have w: "fst (w_net paced_world) = []" "w_reserved paced_world \<le> w_now paced_world"
    "lateness_at_most 7 (w_chance paced_world)"
    by (simp_all add: paced_world_def lateness_at_most_def on_time_def)
  have cs: "list_all (\<lambda>(pause, req). uncancelled req) paced_calls"
    by (simp add: paced_calls_def example_request_def Background_def)
  have "[1000, 2000001007, 4000001007 :: time] ! 1 + int (2 - 1) * (2 * second)
      \<le> [1000, 2000001007, 4000001007] ! 2 + int 7"
    by (rule kernel_requests_paced [OF k(1) clk pace _ _ base etag w cs ts]) (simp_all add: in_int64_def)
  with k ts show ?thesis by blast
qed

end
