(* ===== verification/PacingBursts.thy ===== *)
theory PacingBursts
  imports Pacing
begin

text \<open>
  Concurrent requests through the pacing layer of \<open>src/secondary.go\<close>.  \<open>Pacing\<close> models one
  round trip from beginning to end; here any number of goroutines are inside the layer at once.
  They meet in the critical section that reserves a slot and wait for their slots outside it, each
  on a timer of its own.  A step is the critical section, a local step of one goroutine, an answer
  from the transport below, or the passing of time; nothing says when a goroutine that could move
  does, so a timer may be set late and a due request sent late.

  \<open>p_slots\<close> and \<open>p_sent\<close> are ghost fields: the slots granted so far, and for each request handed
  to the transport below its slot and the moment.
\<close>

section \<open>State and steps\<close>

datatype paced_call =
    Outside
  | AtMutex request
  | Unpaced request
  | SlotTaken request time duration
  | Timed request time time
  | Due request time
  | OnWire request
  | Back rt_result

record pace =
  p_now :: time
  p_reserved :: time
  p_calls :: "nat \<Rightarrow> paced_call"
  p_slots :: "time list"
  p_sent :: "(time \<times> time) list"

text \<open>A label names the goroutine that moves: it calls \<open>RoundTrip\<close>, it runs the critical section,
  it sets its timer, its timer fires, its context ends the wait, it calls the transport below, that
  answers; or time passes.\<close>

datatype pace_label =
    Calls nat request
  | Reserves nat
  | SetsTimer nat
  | Fires nat
  | GivesUp nat
  | Sends nat
  | Answers nat rt_result
  | Elapses duration

definition pace_start :: "time \<Rightarrow> pace" where
  "pace_start t = \<lparr>p_now = t, p_reserved = zero_time, p_calls = (\<lambda>i. Outside), p_slots = [], p_sent = []\<rparr>"

abbreviation paced_at :: "nat \<Rightarrow> paced_call \<Rightarrow> pace \<Rightarrow> pace" where
  "paced_at i c s \<equiv> s\<lparr>p_calls := (p_calls s)(i := c)\<rparr>"

definition pace_section :: "duration \<Rightarrow> nat \<Rightarrow> request \<Rightarrow> pace \<Rightarrow> pace" where
  "pace_section interval i req s =
     (if interval \<le> 0 then paced_at i (Unpaced req) s
      else case reserve_slot interval (p_now s) (p_reserved s) of (start, reserved) \<Rightarrow>
        (let wait = time_Sub start (p_now s)
         in paced_at i (if wait > 0 then SlotTaken req start wait else Due req start)
              (s\<lparr>p_reserved := reserved, p_slots := p_slots s @ [start]\<rparr>)))"

definition paced_answer :: "rt_result \<Rightarrow> rt_result" where
  "paced_answer r =
     (case r of (resp, Some e) \<Rightarrow> (None, Some (Errorf ''pacing: round trip: %w'' [] [e]))
      | (resp, None) \<Rightarrow> (resp, None))"

fun pace_step :: "duration \<Rightarrow> pace_label \<Rightarrow> pace \<Rightarrow> pace option" where
  "pace_step interval (Calls i req) s =
     (case p_calls s i of Outside \<Rightarrow> Some (paced_at i (AtMutex req) s)
      | Back r \<Rightarrow> Some (paced_at i (AtMutex req) s) | _ \<Rightarrow> None)"
| "pace_step interval (Reserves i) s =
     (case p_calls s i of AtMutex req \<Rightarrow> Some (pace_section interval i req s) | _ \<Rightarrow> None)"
| "pace_step interval (SetsTimer i) s =
     (case p_calls s i of SlotTaken req start wait \<Rightarrow> Some (paced_at i (Timed req start (p_now s + wait)) s)
      | _ \<Rightarrow> None)"
| "pace_step interval (Fires i) s =
     (case p_calls s i of
        Timed req start t \<Rightarrow> if t \<le> p_now s then Some (paced_at i (Due req start) s) else None
      | _ \<Rightarrow> None)"
| "pace_step interval (GivesUp i) s =
     (case p_calls s i of
        Timed req start t \<Rightarrow>
          (case ctx_done (req_Context req) of
             Some (d, cause) \<Rightarrow> if d \<le> p_now s
               then Some (paced_at i (Back (None, Some (Errorf ''pacing: wait for slot: %w'' [] [CtxError cause]))) s)
               else None
           | None \<Rightarrow> None)
      | _ \<Rightarrow> None)"
| "pace_step interval (Sends i) s =
     (case p_calls s i of
        Due req start \<Rightarrow> Some (paced_at i (OnWire req) (s\<lparr>p_sent := p_sent s @ [(start, p_now s)]\<rparr>))
      | _ \<Rightarrow> None)"
| "pace_step interval (Answers i r) s =
     (case p_calls s i of
        OnWire req \<Rightarrow> Some (paced_at i (Back (paced_answer r)) s)
      | Unpaced req \<Rightarrow> Some (paced_at i (Back r) s)
      | _ \<Rightarrow> None)"
| "pace_step interval (Elapses d) s = (if 0 \<le> d then Some (s\<lparr>p_now := p_now s + d\<rparr>) else None)"

fun pace_run :: "duration \<Rightarrow> pace_label list \<Rightarrow> pace \<Rightarrow> pace option" where
  "pace_run interval [] s = Some s"
| "pace_run interval (l # ls) s =
     (case pace_step interval l s of None \<Rightarrow> None | Some s' \<Rightarrow> pace_run interval ls s')"

section \<open>The invariant\<close>

text \<open>The slot a request inside the layer holds and has not spent.\<close>

fun slot_of :: "paced_call \<Rightarrow> time option" where
  "slot_of (SlotTaken req start wait) = Some start"
| "slot_of (Timed req start t) = Some start"
| "slot_of (Due req start) = Some start"
| "slot_of c = None"

text \<open>A request never gets ahead of its slot.\<close>

fun not_ahead :: "time \<Rightarrow> paced_call \<Rightarrow> bool" where
  "not_ahead now (SlotTaken req start wait) \<longleftrightarrow> start \<le> now + wait"
| "not_ahead now (Timed req start t) \<longleftrightarrow> start \<le> t"
| "not_ahead now (Due req start) \<longleftrightarrow> start \<le> now"
| "not_ahead now c \<longleftrightarrow> True"

lemma not_ahead_later: "not_ahead now c \<Longrightarrow> now \<le> now' \<Longrightarrow> not_ahead now' c"
  by (cases c) auto

definition slots_ok :: "duration \<Rightarrow> time \<Rightarrow> pace \<Rightarrow> bool" where
  "slots_ok interval t s \<longleftrightarrow> spaced interval (p_slots s) \<and> t \<le> p_now s
     \<and> (\<forall>x \<in> set (p_slots s). t \<le> x \<and> x + interval \<le> p_reserved s)
     \<and> p_reserved s \<le> p_now s + int (length (p_slots s)) * interval"

definition sent_ok :: "pace \<Rightarrow> bool" where
  "sent_ok s \<longleftrightarrow> distinct (map fst (p_sent s)) \<and> fst ` set (p_sent s) \<subseteq> set (p_slots s)
     \<and> (\<forall>(x, m) \<in> set (p_sent s). x \<le> m)
     \<and> (\<forall>i. not_ahead (p_now s) (p_calls s i))
     \<and> (\<forall>i x. slot_of (p_calls s i) = Some x \<longrightarrow> x \<in> set (p_slots s) \<and> x \<notin> fst ` set (p_sent s))
     \<and> (\<forall>i j x. slot_of (p_calls s i) = Some x \<and> slot_of (p_calls s j) = Some x \<longrightarrow> i = j)"

lemma pace_step_slots:
  assumes "pace_step interval l s = Some s'" "0 < interval" "slots_ok interval t s"
  shows "slots_ok interval t s' \<and> length (p_slots s') \<le> Suc (length (p_slots s))"
proof (cases "\<exists>i req. l = Reserves i \<and> p_calls s i = AtMutex req")
  case True
  then obtain i req where l: "l = Reserves i" "p_calls s i = AtMutex req" by blast
  let ?start = "max (p_now s) (p_reserved s)"
  have "reserve_slot interval (p_now s) (p_reserved s) = (?start, ?start + interval)"
    by (simp add: reserve_slot_def time_Before_def time_Add_def Let_def max_def)
  with assms(1,2) l have s': "p_slots s' = p_slots s @ [?start]" "p_reserved s' = ?start + interval" "p_now s' = p_now s"
    by (auto simp: pace_section_def Let_def)
  have "\<forall>x \<in> set (p_slots s). x + interval \<le> ?start \<and> x \<le> ?start"
    using assms(2,3) by (fastforce simp: slots_ok_def)
  with assms(2,3) show ?thesis
    by (auto simp: slots_ok_def s' spaced_def sorted_wrt_append algebra_simps max_def)
next
  case False
  with assms(1) have "p_slots s' = p_slots s" "p_reserved s' = p_reserved s" "p_now s \<le> p_now s'"
    by (cases l; auto split: paced_call.splits option.splits if_splits)+
  with assms(3) show ?thesis by (auto simp: slots_ok_def)
qed

lemma sent_ok_later: "sent_ok s \<Longrightarrow> p_now s \<le> t \<Longrightarrow> sent_ok (s\<lparr>p_now := t\<rparr>)"
  unfolding sent_ok_def by (auto intro: not_ahead_later)

text \<open>Steps of one goroutine that keep or drop its slot.\<close>

lemma sent_ok_local:
  assumes "sent_ok s" "slot_of c = None \<or> slot_of c = slot_of (p_calls s i)" "not_ahead (p_now s) c"
  shows "sent_ok (paced_at i c s)"
  unfolding sent_ok_def
proof (intro conjI allI impI)
  fix j k x
  assume "slot_of (p_calls (paced_at i c s) j) = Some x \<and> slot_of (p_calls (paced_at i c s) k) = Some x"
  then have "slot_of (p_calls s j) = Some x \<and> slot_of (p_calls s k) = Some x"
    using assms(2) by (auto split: if_splits)
  then show "j = k" using assms(1) unfolding sent_ok_def by blast
next
  fix j x
  assume "slot_of (p_calls (paced_at i c s) j) = Some x"
  then have "slot_of (p_calls s j) = Some x" using assms(2) by (auto split: if_splits)
  then show "x \<in> set (p_slots (paced_at i c s))" "x \<notin> fst ` set (p_sent (paced_at i c s))"
    using assms(1) unfolding sent_ok_def by auto
qed (use assms(1,3) in \<open>simp_all add: sent_ok_def\<close>)

lemma sent_ok_record:
  assumes "sent_ok s" "x \<in> set (p_slots s)" "x \<notin> fst ` set (p_sent s)" "x \<le> m" "\<And>j. slot_of (p_calls s j) \<noteq> Some x"
  shows "sent_ok (s\<lparr>p_sent := p_sent s @ [(x, m)]\<rparr>)"
  using assms unfolding sent_ok_def by auto

lemma sent_ok_send:
  assumes "sent_ok s" "p_calls s i = Due req start"
  shows "sent_ok (paced_at i (OnWire req) (s\<lparr>p_sent := p_sent s @ [(start, p_now s)]\<rparr>))"
proof -
  let ?s = "paced_at i (OnWire req) s"
  have holds: "slot_of (p_calls s i) = Some start" by (simp add: assms(2))
  have "not_ahead (p_now s) (p_calls s i)" using assms(1) unfolding sent_ok_def by blast
  then have due: "start \<le> p_now s" by (simp add: assms(2))
  have mine: "start \<in> set (p_slots s)" "start \<notin> fst ` set (p_sent s)"
    using assms(1) holds unfolding sent_ok_def by blast+
  have "slot_of (p_calls s j) \<noteq> Some start" if "j \<noteq> i" for j
    using assms(1) holds that unfolding sent_ok_def by blast
  then have other: "slot_of (p_calls ?s j) \<noteq> Some start" for j by simp
  have "sent_ok (?s\<lparr>p_sent := p_sent ?s @ [(start, p_now s)]\<rparr>)"
    using mine due other by (intro sent_ok_record sent_ok_local [OF assms(1)]) simp_all
  then show ?thesis by (cases s) simp
qed

lemma sent_ok_grant:
  assumes "sent_ok s" "start \<notin> set (p_slots s)" "slot_of c = Some start" "not_ahead (p_now s) c"
  shows "sent_ok (paced_at i c (s\<lparr>p_reserved := r, p_slots := p_slots s @ [start]\<rparr>))"
proof -
  have "slot_of (p_calls s j) \<noteq> Some start" for j using assms(1,2) unfolding sent_ok_def by blast
  moreover have "start \<notin> fst ` set (p_sent s)" using assms(1,2) unfolding sent_ok_def by blast
  moreover have "\<And>j k x. slot_of (p_calls s j) = Some x \<Longrightarrow> slot_of (p_calls s k) = Some x \<Longrightarrow> j = k"
    "\<And>j x. slot_of (p_calls s j) = Some x \<Longrightarrow> x \<in> set (p_slots s) \<and> x \<notin> fst ` set (p_sent s)"
    using assms(1) unfolding sent_ok_def by blast+
  ultimately show ?thesis
    using assms unfolding sent_ok_def by (auto split: if_splits)
qed

text \<open>As long as the backlog of slots stays below the largest duration the wait is computed exactly.\<close>

lemma pace_step_sent:
  assumes step: "pace_step interval l s = Some s'" and "0 < interval" "slots_ok interval t s" "sent_ok s"
    and small: "int (length (p_slots s)) * interval \<le> max_int64"
  shows "sent_ok s'"
proof (cases l)
  case (Reserves i)
  then obtain req where c: "p_calls s i = AtMutex req" using step by (auto split: paced_call.splits)
  let ?start = "max (p_now s) (p_reserved s)"
  have r: "reserve_slot interval (p_now s) (p_reserved s) = (?start, ?start + interval)"
    by (simp add: reserve_slot_def time_Before_def time_Add_def Let_def max_def)
  have new: "?start \<notin> set (p_slots s)" using assms(2,3) by (fastforce simp: slots_ok_def)
  have "time_Sub ?start (p_now s) = ?start - p_now s"
    using assms(3) small by (intro time_Sub_exact) (auto simp: slots_ok_def in_int64_def max_def)
  with step Reserves c r assms(2) have s': "s' = paced_at i (if p_now s < ?start
      then SlotTaken req ?start (?start - p_now s) else Due req ?start)
      (s\<lparr>p_reserved := ?start + interval, p_slots := p_slots s @ [?start]\<rparr>)"
    by (simp add: pace_section_def)
  show ?thesis
    unfolding s' by (rule sent_ok_grant [OF assms(4) new]) simp_all
next
  case (Sends i)
  with step sent_ok_send [OF assms(4)] show ?thesis by (auto split: paced_call.splits)
next
  case (Elapses d)
  with step sent_ok_later [OF assms(4)] show ?thesis by (auto split: if_splits)
next
  case (SetsTimer i)
  then obtain req start wait where c: "p_calls s i = SlotTaken req start wait"
    and s': "s' = paced_at i (Timed req start (p_now s + wait)) s"
    using step by (auto split: paced_call.splits)
  have "not_ahead (p_now s) (p_calls s i)" using assms(4) by (simp add: sent_ok_def)
  then show ?thesis unfolding s' by (intro sent_ok_local [OF assms(4)]) (simp_all add: c)
next
  case (Fires i)
  then obtain req start t' where c: "p_calls s i = Timed req start t'" "t' \<le> p_now s"
    and s': "s' = paced_at i (Due req start) s"
    using step by (auto split: paced_call.splits if_splits)
  have "not_ahead (p_now s) (p_calls s i)" using assms(4) by (simp add: sent_ok_def)
  with c have "start \<le> p_now s" by simp
  then show ?thesis unfolding s' by (intro sent_ok_local [OF assms(4)]) (simp_all add: c)
qed (use step sent_ok_local [OF assms(4)] in \<open>auto split: paced_call.splits option.splits if_splits\<close>)

section \<open>The rate on the wire\<close>

lemma spaced_length:
  assumes "spaced d xs" "\<forall>x \<in> set xs. a \<le> x \<and> x \<le> b" "xs \<noteq> []"
  shows "(int (length xs) - 1) * d \<le> b - a"
proof -
  have "a + (int (length xs) - 1) * d \<le> last xs"
    using assms(3,1,2)
  proof (induction xs rule: rev_nonempty_induct)
    case (snoc x xs)
    then have "last xs + d \<le> x" by (auto simp: spaced_def sorted_wrt_append)
    moreover have "a + (int (length xs) - 1) * d \<le> last xs"
      using snoc by (auto simp: spaced_def sorted_wrt_append)
    ultimately show ?case by (simp add: algebra_simps)
  qed simp
  moreover have "last xs \<le> b" using assms(2,3) by simp
  ultimately show ?thesis by linarith
qed

lemma pace_run_invariant:
  assumes "pace_run interval ls s = Some s'" "0 < interval" "slots_ok interval t s" "sent_ok s"
    and "int (length (p_slots s) + length ls) * interval \<le> max_int64"
  shows "slots_ok interval t s' \<and> sent_ok s'"
  using assms
proof (induction ls arbitrary: s)
  case (Cons l ls)
  then obtain s1 where s1: "pace_step interval l s = Some s1" "pace_run interval ls s1 = Some s'"
    by (auto split: option.splits)
  note ok = pace_step_slots [OF s1(1) Cons.prems(2,3)]
  have "int (length (p_slots s)) * interval \<le> int (length (p_slots s) + length (l # ls)) * interval"
    using Cons.prems(2) by (intro mult_right_mono) simp_all
  then have "sent_ok s1"
    using pace_step_sent [OF s1(1) Cons.prems(2-4)] Cons.prems(5) by linarith
  moreover have "int (length (p_slots s1) + length ls) * interval \<le> int (length (p_slots s) + length (l # ls)) * interval"
    using Cons.prems(2) ok by (intro mult_right_mono) simp_all
  ultimately show ?case
    using Cons.IH [OF s1(2) Cons.prems(2)] ok Cons.prems(5) by linarith
qed simp

text \<open>C30. Pacing bounds the rate under every interleaving.  However many goroutines are inside the
  layer and however late they move, the slots granted are at least the interval apart, every
  request is sent at its slot or later and no slot is used twice; so up to any moment \<open>m\<close> at most
  one request more than full intervals have passed has gone out.\<close>

theorem paced_rate_bounded:
  assumes "0 < interval" "0 \<le> t" "pace_run interval ls (pace_start t) = Some s"
    and "int (length ls) * interval \<le> max_int64" "t \<le> m"
  shows "sorted_wrt (\<lambda>x y. x + interval \<le> y) (p_slots s)
    \<and> list_all (\<lambda>(slot, moment). slot \<le> moment) (p_sent s)
    \<and> int (length (filter (\<lambda>(slot, moment). moment \<le> m) (p_sent s))) \<le> 1 + (m - t) div interval"
proof -
  have "slots_ok interval t (pace_start t)" "sent_ok (pace_start t)"
    using assms(2) by (simp_all add: slots_ok_def sent_ok_def pace_start_def spaced_def)
  from pace_run_invariant [OF assms(3,1) this] assms(4)
  have ok: "slots_ok interval t s" "sent_ok s" by (simp_all add: pace_start_def)
  let ?gone = "filter (\<lambda>(slot, moment). moment \<le> m) (p_sent s)" and ?slots = "filter (\<lambda>x. x \<le> m) (p_slots s)"
  have "distinct (map fst (p_sent s))" using ok(2) by (simp add: sent_ok_def)
  then have "distinct (map fst ?gone)" by (rule distinct_map_filter)
  then have "length ?gone = card (set (map fst ?gone))" by (metis distinct_card length_map)
  also have "\<dots> \<le> card (set ?slots)"
    using ok(2) by (intro card_mono) (fastforce simp: sent_ok_def)+
  also have "\<dots> \<le> length ?slots" by (rule card_length)
  finally have le: "length ?gone \<le> length ?slots" .
  have "int (length ?slots) \<le> 1 + (m - t) div interval"
  proof (cases "?slots = []")
    case True
    with assms(1,5) show ?thesis by (simp add: pos_imp_zdiv_nonneg_iff)
  next
    case False
    have "spaced interval ?slots" using ok(1) by (simp add: slots_ok_def spaced_def sorted_wrt_filter)
    from spaced_length [OF this _ False, of t m] ok(1)
    have "(int (length ?slots) - 1) * interval \<le> m - t" by (auto simp: slots_ok_def)
    from zdiv_mono1 [OF this assms(1)] assms(1) have "int (length ?slots) - 1 \<le> (m - t) div interval"
      by simp
    then show ?thesis by linarith
  qed
  with le ok show ?thesis
    by (auto simp: slots_ok_def sent_ok_def spaced_def list_all_iff)
qed

text \<open>The bound is attained, and the requests themselves may be closer than the interval: a goroutine
  that is late for its slot sends at the same moment as the next one.\<close>

definition late_for_slot :: "pace_label list" where
  "late_for_slot = (let req = example_request ''GET'' in
     [Calls 0 req, Calls 1 req, Reserves 0, Reserves 1, SetsTimer 1, Elapses second, Fires 1, Sends 0, Sends 1])"

theorem paced_rate_bounded_witness:
  "\<exists>s. pace_run second late_for_slot (pace_start 7) = Some s
    \<and> p_sent s = [(7, 7 + second), (7 + second, 7 + second)]
    \<and> int (length (filter (\<lambda>(slot, moment). moment \<le> 7 + second) (p_sent s))) \<le> 1 + second div second"
proof -
  have "map_option p_sent (pace_run second late_for_slot (pace_start 7))
      = Some [(7, 7 + second), (7 + second, 7 + second)]"
    by (simp add: late_for_slot_def pace_start_def pace_section_def reserve_slot_def time_Before_def time_Add_def
        time_Sub_def clamp64_def Let_def)
  then obtain s where s: "pace_run second late_for_slot (pace_start 7) = Some s"
    "p_sent s = [(7, 7 + second), (7 + second, 7 + second)]" by auto
  from paced_rate_bounded [OF _ _ s(1), of "7 + second"] s show ?thesis
    by (simp add: late_for_slot_def Let_def)
qed

section \<open>A request alone\<close>

text \<open>The interleaved model refines the function of \<open>Pacing\<close>: a request that moves without delay
  does what \<open>pacingTransport_RoundTrip\<close> does over the wall clock, the slot and the time included.\<close>

definition shows_pace :: "pace \<Rightarrow> 'n world \<Rightarrow> bool" where
  "shows_pace s w \<longleftrightarrow> p_now s = w_now w \<and> p_reserved s = w_reserved w"

lemma pace_run_append:
  "pace_run interval ls s = Some s1 \<Longrightarrow> pace_run interval (ls @ ls') s = pace_run interval ls' s1"
  by (induction ls arbitrary: s) (auto split: option.splits)

lemma paced_call_sends:
  assumes "nxt req w = (r, w')" "w_now w \<le> w_now w'" "w_reserved w' = w_reserved w"
    and "shows_pace s w" "p_calls s i = Due req start"
  shows "\<exists>ls s'. pace_run interval ls s = Some s' \<and> p_calls s' i = Back (paced_answer r) \<and> shows_pace s' w'"
  using assms
  by (intro exI [of _ "[Sends i, Elapses (w_now w' - w_now w), Answers i r]"]) (auto simp: shows_pace_def)

lemma paced_call_waits:
  assumes sl: "clk_sleep wallClock (req_Context req) wait w = (eo, w')" and "0 < wait"
    and "shows_pace s w" "p_calls s i = SlotTaken req start wait"
  shows "\<exists>ls s'. pace_run interval ls s = Some s' \<and> shows_pace s' w' \<and> p_calls s' i =
    (case eo of None \<Rightarrow> Due req start | Some e \<Rightarrow> Back (None, Some (Errorf ''pacing: wait for slot: %w'' [] [e])))"
proof -
  note f = wall.sleep_fields [OF sl]
  have s: "p_now s = w_now w" "p_reserved s = w_reserved w" using assms(3) by (simp_all add: shows_pace_def)
  show ?thesis
  proof (cases eo)
    case None
    with sl have "w_now w + wait \<le> w_now w'" using wall.sleep_full by blast
    with None assms(2,4) s f(3) show ?thesis
      by (intro exI [of _ "[SetsTimer i, Elapses (w_now w' - w_now w), Fires i]"]) (simp add: shows_pace_def)
  next
    case (Some e)
    with sl obtain t cause where "ctx_done (req_Context req) = Some (t, cause)" "e = CtxError cause" "t \<le> w_now w'"
      using wall_sleep_cut by blast
    with Some assms(4) s f(3,6) show ?thesis
      by (intro exI [of _ "[SetsTimer i, Elapses (w_now w' - w_now w), GivesUp i]"]) (simp add: shows_pace_def)
  qed
qed

theorem paced_call_alone:
  assumes run: "pacingTransport_RoundTrip interval wallClock nxt req w = (r, w')"
    and frame: "\<And>q w r w'. nxt q w = (r, w') \<Longrightarrow> w_now w \<le> w_now w' \<and> w_reserved w' = w_reserved w"
    and start: "shows_pace s w" "p_calls s i = AtMutex req"
  shows "\<exists>ls s'. pace_run interval ls s = Some s' \<and> p_calls s' i = Back r \<and> shows_pace s' w'"
proof (cases "interval \<le> 0")
  case True
  with run frame start show ?thesis
    by (intro exI [of _ "[Reserves i, Elapses (w_now w' - w_now w), Answers i r]"])
      (auto simp: pacingTransport_RoundTrip_def pace_section_def shows_pace_def)
next
  case False
  obtain slot res where slot: "reserve_slot interval (w_now w) (w_reserved w) = (slot, res)" by fastforce
  let ?wait = "time_Sub slot (w_now w)" and ?w = "w\<lparr>w_reserved := res\<rparr>"
  let ?s = "pace_section interval i req s"
  have s: "pace_run interval [Reserves i] s = Some ?s" "shows_pace ?s ?w"
    "p_calls ?s i = (if ?wait > 0 then SlotTaken req slot ?wait else Due req slot)"
    using start False slot by (simp_all add: shows_pace_def pace_section_def Let_def)
  obtain eo w1 where sl: "(if ?wait > 0 then clk_sleep wallClock (req_Context req) ?wait ?w else (None, ?w)) = (eo, w1)"
    by fastforce
  note r = run [unfolded pacingTransport_RoundTrip_def if_not_P [OF False] Let_def wall.now_reads slot prod.case sl]
  have "\<exists>ls s1. pace_run interval ls ?s = Some s1 \<and> shows_pace s1 w1 \<and> p_calls s1 i =
    (case eo of None \<Rightarrow> Due req slot | Some e \<Rightarrow> Back (None, Some (Errorf ''pacing: wait for slot: %w'' [] [e])))"
  proof (cases "?wait > 0")
    case True
    with sl s show ?thesis by (intro paced_call_waits) simp_all
  next
    case False
    with sl s show ?thesis by (intro exI [of _ "[]"]) simp
  qed
  then obtain ls s1 where s1: "pace_run interval ls ?s = Some s1" "shows_pace s1 w1" "p_calls s1 i =
    (case eo of None \<Rightarrow> Due req slot | Some e \<Rightarrow> Back (None, Some (Errorf ''pacing: wait for slot: %w'' [] [e])))"
    by blast
  show ?thesis
  proof (cases eo)
    case (Some e)
    with r s1 show ?thesis by (intro exI [of _ "[Reserves i] @ ls"]) (simp add: start(2))
  next
    case None
    obtain x w2 where n: "nxt req w1 = (x, w2)" by fastforce
    with None r have "r = paced_answer x" "w' = w2"
      by (auto simp: paced_answer_def split: prod.splits option.splits)
    moreover obtain ls' s' where "pace_run interval ls' s1 = Some s'" "p_calls s' i = Back (paced_answer x)" "shows_pace s' w2"
      using paced_call_sends [where nxt = nxt and w = w1 and s = s1] n frame [OF n] s1(2,3) None by fastforce
    ultimately show ?thesis by (intro exI [of _ "[Reserves i] @ ls @ ls'"]) (simp add: start(2) pace_run_append [OF s1(1)])
  qed
qed

end
