(* ===== verification/Pagination.thy ===== *)
theory Pagination
  imports Errors
begin

text \<open>
  \<open>src/pagination.go\<close>.  \<open>walkPages\<close> runs a goroutine per page beside the dispatching one;
  they share atomics, two mutexes, a semaphore channel and a wait group.  The model is a
  transition system: a state holds the shared variables, the program counter of the main
  goroutine and of every page's goroutine, and the one drain that may run under
  \<open>deliverMu\<close>; a label names the goroutine that moves, or what its environment (the fetch
  function, the page callback, the caller's context) answers.  One step is one atomic operation
  of the code: a load, a compare-and-swap, a critical section of \<open>mu\<close>, a channel operation.
  \<open>step\<close> is executable, so concrete interleavings can be run; a run is any sequence of labels
  the step function accepts.

  \<open>fetched\<close>, \<open>calls\<close> and \<open>reports\<close> are ghost fields: the pages fetched, the
  calls of \<open>onPage\<close> in order, and the calls of \<open>OnProgress\<close>.  Pages are natural numbers.
\<close>

section \<open>Options\<close>

record PaginationOptions =
  MaxPages :: int
  PerPage :: int
  Concurrency :: int
  OnProgress :: bool

definition defaultPerPage :: int where "defaultPerPage = 100"
definition defaultConcurrency :: int where "defaultConcurrency = 3"

definition resolve_pagination :: "PaginationOptions \<Rightarrow> err + PaginationOptions" where
  "resolve_pagination opts =
     (if MaxPages opts < 1 then Inl (Errorf ''githubkit: fetch pages: %w'' [] [ErrInvalidPagination])
      else
        let opts = (if PerPage opts \<le> 0 then opts\<lparr>PerPage := defaultPerPage\<rparr> else opts);
            opts = (if Concurrency opts \<le> 0 then opts\<lparr>Concurrency := defaultConcurrency\<rparr> else opts)
        in Inr opts)"

abbreviation max_page :: "PaginationOptions \<Rightarrow> nat" where
  "max_page opts \<equiv> nat (MaxPages opts)"

section \<open>State\<close>

datatype 'a page_pc =
    Idle
  | Spawned
  | Checking nat
  | Fetching
  | Erred err
  | Failing err
  | Aborting
  | Cancelling
  | Fetched "'a list"
  | Counting "'a list"
  | Recording "'a list" nat
  | Reporting nat
  | DrainLock
  | Draining
  | Leaving
  | Released
  | Gone

datatype 'a drain_pc =
    DLoop
  | DPeek
  | DCall nat "'a list"
  | DCommit nat
  | DFail err
  | DAbort
  | DCancel
  | DUnlock

datatype 'a main_pc =
    FetchFirst
  | CallFirst "'a list"
  | Dispatch
  | Select
  | WaitAll
  | FinalLock
  | FinalDrain
  | Final
  | Returned "err option"

datatype actor = MainActor | PageActor nat

record 'a walk =
  main :: "'a main_pc"
  page :: nat
  pcs :: "nat \<Rightarrow> 'a page_pc"
  shortPage :: nat
  itemsFetched :: nat
  aborted :: bool
  firstErr :: "err option"
  ready :: "nat \<Rightarrow> bool"
  pending :: "nat \<Rightarrow> 'a list"
  delivered :: nat
  deliverMu :: "(actor \<times> 'a drain_pc) option"
  sem :: nat
  walk_cancelled :: bool
  caller_cancelled :: bool
  fetched :: "nat \<Rightarrow> 'a list option"
  calls :: "(nat \<times> 'a list) list"
  reports :: "(nat \<times> nat \<times> nat) list"

datatype 'a label =
    FirstFetched "err + 'a list"
  | MainStep
  | AcquireSem
  | SeeDone
  | PageStep nat
  | FetchReturned nat "err + 'a list"
  | DrainStep
  | CallbackReturned "err option"
  | CallerCancels

definition walk_start :: "'a walk" where
  "walk_start =
     \<lparr>main = FetchFirst, page = 0, pcs = (\<lambda>p. Idle), shortPage = 0, itemsFetched = 0, aborted = False,
      firstErr = None, ready = (\<lambda>p. False), pending = (\<lambda>p. []), delivered = 1, deliverMu = None,
      sem = 0, walk_cancelled = False, caller_cancelled = False,
      fetched = (\<lambda>p. None), calls = [], reports = []\<rparr>"

section \<open>Steps\<close>

text \<open>Whether \<open>walkCtx\<close> is done, and its error.  Cancelling the caller's context cancels
  the derived one.\<close>

definition walkCtx_Err :: "'a walk \<Rightarrow> err option" where
  "walkCtx_Err s = (if walk_cancelled s \<or> caller_cancelled s then Some (CtxError Canceled) else None)"

definition shouldSkip :: "err option \<Rightarrow> nat \<Rightarrow> nat \<Rightarrow> bool" where
  "shouldSkip ctxErr short pg =
     (if short \<noteq> 0 \<and> pg > short then True else ctxErr \<noteq> None \<and> short \<noteq> 0)"

definition reportProgress :: "PaginationOptions \<Rightarrow> nat \<Rightarrow> nat \<Rightarrow> 'a walk \<Rightarrow> 'a walk" where
  "reportProgress opts pg cumulative s =
     (if OnProgress opts then s\<lparr>reports := reports s @ [(pg, max_page opts, cumulative)]\<rparr> else s)"

text \<open>\<open>fail\<close> is three operations: record the first error under \<open>mu\<close>, set
  \<open>aborted\<close>, cancel the walk.\<close>

definition fail_record :: "err \<Rightarrow> 'a walk \<Rightarrow> 'a walk" where
  "fail_record e s = (if firstErr s = None then s\<lparr>firstErr := Some e\<rparr> else s)"

definition fail_abort :: "'a walk \<Rightarrow> 'a walk" where
  "fail_abort s = s\<lparr>aborted := True\<rparr>"

definition fail_cancel :: "'a walk \<Rightarrow> 'a walk" where
  "fail_cancel s = s\<lparr>walk_cancelled := True\<rparr>"

abbreviation goto :: "nat \<Rightarrow> 'a page_pc \<Rightarrow> 'a walk \<Rightarrow> 'a walk" where
  "goto p pc s \<equiv> s\<lparr>pcs := (pcs s)(p := pc)\<rparr>"

text \<open>What these operations leave alone.\<close>

lemma reportProgress_fields [simp, frame_simps]:
  "main (reportProgress opts pg n s) = main s" "page (reportProgress opts pg n s) = page s"
  "pcs (reportProgress opts pg n s) = pcs s" "shortPage (reportProgress opts pg n s) = shortPage s"
  "itemsFetched (reportProgress opts pg n s) = itemsFetched s"
  "aborted (reportProgress opts pg n s) = aborted s" "firstErr (reportProgress opts pg n s) = firstErr s"
  "ready (reportProgress opts pg n s) = ready s" "pending (reportProgress opts pg n s) = pending s"
  "delivered (reportProgress opts pg n s) = delivered s"
  "deliverMu (reportProgress opts pg n s) = deliverMu s" "sem (reportProgress opts pg n s) = sem s"
  "walk_cancelled (reportProgress opts pg n s) = walk_cancelled s"
  "caller_cancelled (reportProgress opts pg n s) = caller_cancelled s"
  "fetched (reportProgress opts pg n s) = fetched s" "calls (reportProgress opts pg n s) = calls s"
  by (simp_all add: reportProgress_def)

lemma fail_record_fields [simp, frame_simps]:
  "main (fail_record e s) = main s" "page (fail_record e s) = page s" "pcs (fail_record e s) = pcs s"
  "shortPage (fail_record e s) = shortPage s" "itemsFetched (fail_record e s) = itemsFetched s"
  "aborted (fail_record e s) = aborted s"
  "firstErr (fail_record e s) = (case firstErr s of None \<Rightarrow> Some e | Some x \<Rightarrow> Some x)"
  "ready (fail_record e s) = ready s" "pending (fail_record e s) = pending s"
  "delivered (fail_record e s) = delivered s" "deliverMu (fail_record e s) = deliverMu s"
  "sem (fail_record e s) = sem s" "walk_cancelled (fail_record e s) = walk_cancelled s"
  "caller_cancelled (fail_record e s) = caller_cancelled s" "fetched (fail_record e s) = fetched s"
  "calls (fail_record e s) = calls s" "reports (fail_record e s) = reports s"
  by (simp_all add: fail_record_def split: option.splits)

lemma fail_abort_fields [simp, frame_simps]:
  "main (fail_abort s) = main s" "page (fail_abort s) = page s" "pcs (fail_abort s) = pcs s"
  "shortPage (fail_abort s) = shortPage s" "itemsFetched (fail_abort s) = itemsFetched s"
  "aborted (fail_abort s) = True" "firstErr (fail_abort s) = firstErr s" "ready (fail_abort s) = ready s"
  "pending (fail_abort s) = pending s" "delivered (fail_abort s) = delivered s"
  "deliverMu (fail_abort s) = deliverMu s" "sem (fail_abort s) = sem s"
  "walk_cancelled (fail_abort s) = walk_cancelled s" "caller_cancelled (fail_abort s) = caller_cancelled s"
  "fetched (fail_abort s) = fetched s" "calls (fail_abort s) = calls s" "reports (fail_abort s) = reports s"
  by (simp_all add: fail_abort_def)

lemma fail_cancel_fields [simp, frame_simps]:
  "main (fail_cancel s) = main s" "page (fail_cancel s) = page s" "pcs (fail_cancel s) = pcs s"
  "shortPage (fail_cancel s) = shortPage s" "itemsFetched (fail_cancel s) = itemsFetched s"
  "aborted (fail_cancel s) = aborted s" "firstErr (fail_cancel s) = firstErr s"
  "ready (fail_cancel s) = ready s" "pending (fail_cancel s) = pending s"
  "delivered (fail_cancel s) = delivered s" "deliverMu (fail_cancel s) = deliverMu s"
  "sem (fail_cancel s) = sem s" "walk_cancelled (fail_cancel s) = True"
  "caller_cancelled (fail_cancel s) = caller_cancelled s" "fetched (fail_cancel s) = fetched s"
  "calls (fail_cancel s) = calls s" "reports (fail_cancel s) = reports s"
  by (simp_all add: fail_cancel_def)

definition fetch_error :: "nat \<Rightarrow> err \<Rightarrow> err" where
  "fetch_error pg e = Errorf ''githubkit: fetch page %d: %w'' [ArgInt (int pg)] [e]"

definition callback_error :: "nat \<Rightarrow> err \<Rightarrow> err" where
  "callback_error pg e = Errorf ''githubkit: page %d callback: %w'' [ArgInt (int pg)] [e]"

text \<open>\<open>fetchAndRecord\<close> and the goroutine around it (\<open>wg.Done\<close> runs after the semaphore
  is released).\<close>

definition page_step :: "PaginationOptions \<Rightarrow> nat \<Rightarrow> 'a walk \<Rightarrow> 'a walk option" where
  "page_step opts p s =
     (case pcs s p of
        Spawned \<Rightarrow> Some (goto p (Checking (shortPage s)) s)
      | Checking short \<Rightarrow>
          Some (if shouldSkip (walkCtx_Err s) short p then goto p Leaving s else goto p Fetching s)
      | Erred e \<Rightarrow>
          Some (if shortPage s \<noteq> 0 \<and> errors_Is e (CtxError Canceled) then goto p Leaving s
                else goto p (Failing (fetch_error p e)) s)
      | Failing e \<Rightarrow> Some (goto p Aborting (fail_record e s))
      | Aborting \<Rightarrow> Some (goto p Cancelling (fail_abort s))
      | Cancelling \<Rightarrow> Some (goto p Leaving (fail_cancel s))
      | Fetched items \<Rightarrow>
          Some (goto p (Counting items)
            (if int (length items) < PerPage opts \<and> shortPage s = 0 then s\<lparr>shortPage := p\<rparr> else s))
      | Counting items \<Rightarrow>
          (let cumulative = itemsFetched s + length items
           in Some (goto p (Recording items cumulative) (s\<lparr>itemsFetched := cumulative\<rparr>)))
      | Recording items cumulative \<Rightarrow>
          Some (goto p (Reporting cumulative)
            (s\<lparr>ready := (ready s)(p := True), pending := (pending s)(p := items)\<rparr>))
      | Reporting cumulative \<Rightarrow> Some (goto p DrainLock (reportProgress opts p cumulative s))
      | DrainLock \<Rightarrow>
          (if deliverMu s = None then Some (goto p Draining (s\<lparr>deliverMu := Some (PageActor p, DLoop)\<rparr>))
           else None)
      | Leaving \<Rightarrow> Some (goto p Released (s\<lparr>sem := sem s - 1\<rparr>))
      | Released \<Rightarrow> Some (goto p Gone s)
      | _ \<Rightarrow> None)"

text \<open>\<open>drain\<close>, by the holder of \<open>deliverMu\<close>; the call of \<open>onPage\<close> begins at
  \<open>DCall\<close> and ends with the label \<open>CallbackReturned\<close>.\<close>

definition drain_step :: "PaginationOptions \<Rightarrow> 'a walk \<Rightarrow> 'a walk option" where
  "drain_step opts s =
     (case deliverMu s of
        None \<Rightarrow> None
      | Some (a, d) \<Rightarrow>
          (case d of
             DLoop \<Rightarrow>
               Some (s\<lparr>deliverMu := Some (a, if delivered s < max_page opts \<and> \<not> aborted s then DPeek else DUnlock)\<rparr>)
           | DPeek \<Rightarrow>
               (let next = delivered s + 1
                in Some (if ready s next
                     then s\<lparr>deliverMu := Some (a, DCall next (pending s next)),
                            calls := calls s @ [(next, pending s next)]\<rparr>
                     else s\<lparr>deliverMu := Some (a, DUnlock)\<rparr>))
           | DCall next items \<Rightarrow> None
           | DCommit next \<Rightarrow>
               Some (s\<lparr>delivered := next, pending := (pending s)(next := []), deliverMu := Some (a, DLoop)\<rparr>)
           | DFail e \<Rightarrow> Some ((fail_record e s)\<lparr>deliverMu := Some (a, DAbort)\<rparr>)
           | DAbort \<Rightarrow> Some ((fail_abort s)\<lparr>deliverMu := Some (a, DCancel)\<rparr>)
           | DCancel \<Rightarrow> Some ((fail_cancel s)\<lparr>deliverMu := Some (a, DUnlock)\<rparr>)
           | DUnlock \<Rightarrow>
               Some (case a of
                   MainActor \<Rightarrow> s\<lparr>deliverMu := None, main := Final\<rparr>
                 | PageActor p \<Rightarrow> goto p Leaving (s\<lparr>deliverMu := None\<rparr>))))"

text \<open>Page 1, before any goroutine runs: fetched alone, reported, handed to \<open>onPage\<close>.\<close>

definition first_fetched :: "PaginationOptions \<Rightarrow> err + 'a list \<Rightarrow> 'a walk \<Rightarrow> 'a walk" where
  "first_fetched opts r s =
     (case r of
        Inl e \<Rightarrow> s\<lparr>main := Returned (Some (Errorf ''githubkit: fetch page 1: %w'' [] [e]))\<rparr>
      | Inr items \<Rightarrow>
          (reportProgress opts 1 (length items) s)\<lparr>main := CallFirst items,
             fetched := (fetched s)(1 := Some items), calls := calls s @ [(1, items)]\<rparr>)"

definition first_called :: "PaginationOptions \<Rightarrow> 'a list \<Rightarrow> err option \<Rightarrow> 'a walk \<Rightarrow> 'a walk" where
  "first_called opts items r s =
     (case r of
        Some e \<Rightarrow> s\<lparr>main := Returned (Some (callback_error 1 e))\<rparr>
      | None \<Rightarrow>
          if int (length items) < PerPage opts \<or> MaxPages opts = 1 then s\<lparr>main := Returned None\<rparr>
          else s\<lparr>itemsFetched := length items, ready := (ready s)(1 := True),
                 pending := (pending s)(1 := items), main := Dispatch, page := 2\<rparr>)"

text \<open>The dispatch loop (\<open>page\<close> is its variable), the wait for the goroutines, the last
  drain and the result.  The two branches of the \<open>select\<close> are the labels \<open>AcquireSem\<close>
  and \<open>SeeDone\<close>; acquiring the semaphore and starting the goroutine is one step, as nothing
  shared happens in between.\<close>

definition main_step :: "PaginationOptions \<Rightarrow> 'a walk \<Rightarrow> 'a walk option" where
  "main_step opts s =
     (case main s of
        Dispatch \<Rightarrow>
          Some (if page s \<le> max_page opts
                then (if shortPage s \<noteq> 0 \<and> page s > shortPage s then s\<lparr>main := WaitAll\<rparr>
                      else s\<lparr>main := Select\<rparr>)
                else s\<lparr>main := WaitAll\<rparr>)
      | WaitAll \<Rightarrow>
          (if list_all (\<lambda>p. pcs s p = Idle \<or> pcs s p = Gone) [2..<Suc (max_page opts)]
           then Some (s\<lparr>main := FinalLock\<rparr>) else None)
      | FinalLock \<Rightarrow>
          (if deliverMu s = None then Some (s\<lparr>main := FinalDrain, deliverMu := Some (MainActor, DLoop)\<rparr>)
           else None)
      | Final \<Rightarrow> Some (s\<lparr>main := Returned (firstErr s)\<rparr>)
      | _ \<Rightarrow> None)"

definition select_acquire :: "PaginationOptions \<Rightarrow> 'a walk \<Rightarrow> 'a walk option" where
  "select_acquire opts s =
     (if main s = Select \<and> sem s < nat (Concurrency opts)
      then Some (goto (page s) Spawned (s\<lparr>sem := sem s + 1, main := Dispatch, page := page s + 1\<rparr>))
      else None)"

definition select_done :: "PaginationOptions \<Rightarrow> 'a walk \<Rightarrow> 'a walk option" where
  "select_done opts s =
     (if main s = Select \<and> walkCtx_Err s \<noteq> None
      then Some (s\<lparr>page := max_page opts + 1, main := WaitAll\<rparr>) else None)"

definition callback_returned :: "PaginationOptions \<Rightarrow> err option \<Rightarrow> 'a walk \<Rightarrow> 'a walk option" where
  "callback_returned opts r s =
     (case main s of
        CallFirst items \<Rightarrow> Some (first_called opts items r s)
      | _ \<Rightarrow> (case deliverMu s of
            Some (a, DCall next items) \<Rightarrow>
              Some (s\<lparr>deliverMu := Some (a, case r of None \<Rightarrow> DCommit next
                                       | Some e \<Rightarrow> DFail (callback_error next e))\<rparr>)
          | _ \<Rightarrow> None))"

definition fetch_returned :: "nat \<Rightarrow> err + 'a list \<Rightarrow> 'a walk \<Rightarrow> 'a walk option" where
  "fetch_returned p r s =
     (if pcs s p = Fetching
      then Some (case r of
          Inl e \<Rightarrow> goto p (Erred e) s
        | Inr items \<Rightarrow> goto p (Fetched items) (s\<lparr>fetched := (fetched s)(p := Some items)\<rparr>))
      else None)"

definition step :: "PaginationOptions \<Rightarrow> 'a label \<Rightarrow> 'a walk \<Rightarrow> 'a walk option" where
  "step opts l s =
     (case l of
        FirstFetched r \<Rightarrow> if main s = FetchFirst then Some (first_fetched opts r s) else None
      | MainStep \<Rightarrow> main_step opts s
      | AcquireSem \<Rightarrow> select_acquire opts s
      | SeeDone \<Rightarrow> select_done opts s
      | PageStep p \<Rightarrow> page_step opts p s
      | FetchReturned p r \<Rightarrow> fetch_returned p r s
      | DrainStep \<Rightarrow> drain_step opts s
      | CallbackReturned r \<Rightarrow> callback_returned opts r s
      | CallerCancels \<Rightarrow> if caller_cancelled s then None else Some (s\<lparr>caller_cancelled := True\<rparr>))"

text \<open>Runs: \<open>reach opts ls s\<close> says that the labels \<open>ls\<close> lead from the start to \<open>s\<close>;
  \<open>run\<close> executes labels.\<close>

inductive reach :: "PaginationOptions \<Rightarrow> 'a label list \<Rightarrow> 'a walk \<Rightarrow> bool" for opts where
  start: "reach opts [] walk_start"
| move: "reach opts ls s \<Longrightarrow> step opts l s = Some s' \<Longrightarrow> reach opts (ls @ [l]) s'"

fun run :: "PaginationOptions \<Rightarrow> 'a label list \<Rightarrow> 'a walk \<Rightarrow> 'a walk option" where
  "run opts [] s = Some s"
| "run opts (l # ls) s = (case step opts l s of None \<Rightarrow> None | Some s' \<Rightarrow> run opts ls s')"

lemma run_reach_from: "reach opts ls0 s \<Longrightarrow> run opts ls s = Some s' \<Longrightarrow> reach opts (ls0 @ ls) s'"
proof (induction ls arbitrary: s ls0)
  case (Cons l ls)
  then obtain s1 where s1: "step opts l s = Some s1" "run opts ls s1 = Some s'"
    by (auto split: option.splits)
  from Cons.IH [OF reach.move [OF Cons.prems(1) s1(1)] s1(2)] show ?case by simp
qed simp

lemma run_reach: "run opts ls walk_start = Some s \<Longrightarrow> reach opts ls s"
  using run_reach_from [OF reach.start, of opts ls s] by simp

text \<open>The results of the two entry points.  \<open>FetchPages\<close> collects what its callback, which
  never fails, was given.\<close>

definition StreamPages_result :: "'a walk \<Rightarrow> err option option" where
  "StreamPages_result s = (case main s of Returned r \<Rightarrow> Some r | _ \<Rightarrow> None)"

definition FetchPages_result :: "'a walk \<Rightarrow> (err + 'a list) option" where
  "FetchPages_result s =
     (case main s of
        Returned (Some e) \<Rightarrow> Some (Inl e)
      | Returned None \<Rightarrow> Some (Inr (concat (map snd (calls s))))
      | _ \<Rightarrow> None)"

end
