(* ===== verification/PageWalk.thy ===== *)
theory PageWalk
  imports Pagination
begin

text \<open>
  How the steps of a page walk are reasoned about: \<open>walk_step\<close> states the executable step
  function as one rule per atomic operation, and \<open>walk_induct\<close> is induction over the states
  that runs reach once the goroutines may start.  The invariants of the walk follow, each kept by
  every rule: which page is where, what is delivered, how errors spread, and how many goroutines
  hold the semaphore.
\<close>

section \<open>The step relation\<close>

inductive walk_step :: "PaginationOptions \<Rightarrow> 'a walk \<Rightarrow> 'a label \<Rightarrow> 'a walk \<Rightarrow> bool" for opts where
  spawned: "pcs s p = Spawned \<Longrightarrow>
    walk_step opts s (PageStep p) (goto p (Checking (shortPage s)) s)"
| skip: "pcs s p = Checking sh \<Longrightarrow> shouldSkip (walkCtx_Err s) sh p \<Longrightarrow>
    walk_step opts s (PageStep p) (goto p Leaving s)"
| fetch: "pcs s p = Checking sh \<Longrightarrow> \<not> shouldSkip (walkCtx_Err s) sh p \<Longrightarrow>
    walk_step opts s (PageStep p) (goto p Fetching s)"
| swallow: "pcs s p = Erred e \<Longrightarrow> shortPage s \<noteq> 0 \<Longrightarrow> errors_Is e (CtxError Canceled) \<Longrightarrow>
    walk_step opts s (PageStep p) (goto p Leaving s)"
| erred: "pcs s p = Erred e \<Longrightarrow> shortPage s = 0 \<or> \<not> errors_Is e (CtxError Canceled) \<Longrightarrow>
    walk_step opts s (PageStep p) (goto p (Failing (fetch_error p e)) s)"
| failing: "pcs s p = Failing e \<Longrightarrow>
    walk_step opts s (PageStep p) (goto p Aborting (fail_record e s))"
| aborting: "pcs s p = Aborting \<Longrightarrow>
    walk_step opts s (PageStep p) (goto p Cancelling (fail_abort s))"
| cancelling: "pcs s p = Cancelling \<Longrightarrow>
    walk_step opts s (PageStep p) (goto p Leaving (fail_cancel s))"
| short: "pcs s p = Fetched items \<Longrightarrow> int (length items) < PerPage opts \<Longrightarrow> shortPage s = 0 \<Longrightarrow>
    walk_step opts s (PageStep p) (goto p (Counting items) (s\<lparr>shortPage := p\<rparr>))"
| full: "pcs s p = Fetched items \<Longrightarrow> \<not> (int (length items) < PerPage opts \<and> shortPage s = 0) \<Longrightarrow>
    walk_step opts s (PageStep p) (goto p (Counting items) s)"
| counting: "pcs s p = Counting items \<Longrightarrow> n = itemsFetched s + length items \<Longrightarrow>
    walk_step opts s (PageStep p) (goto p (Recording items n) (s\<lparr>itemsFetched := n\<rparr>))"
| recording: "pcs s p = Recording items n \<Longrightarrow>
    walk_step opts s (PageStep p)
      (goto p (Reporting n) (s\<lparr>ready := (ready s)(p := True), pending := (pending s)(p := items)\<rparr>))"
| reporting: "pcs s p = Reporting n \<Longrightarrow>
    walk_step opts s (PageStep p) (goto p DrainLock (reportProgress opts p n s))"
| lock: "pcs s p = DrainLock \<Longrightarrow> deliverMu s = None \<Longrightarrow>
    walk_step opts s (PageStep p) (goto p Draining (s\<lparr>deliverMu := Some (PageActor p, DLoop)\<rparr>))"
| leaving: "pcs s p = Leaving \<Longrightarrow>
    walk_step opts s (PageStep p) (goto p Released (s\<lparr>sem := sem s - 1\<rparr>))"
| released: "pcs s p = Released \<Longrightarrow> walk_step opts s (PageStep p) (goto p Gone s)"
| peek: "deliverMu s = Some (a, DLoop) \<Longrightarrow> delivered s < max_page opts \<Longrightarrow> \<not> aborted s \<Longrightarrow>
    walk_step opts s DrainStep (s\<lparr>deliverMu := Some (a, DPeek)\<rparr>)"
| stop: "deliverMu s = Some (a, DLoop) \<Longrightarrow> max_page opts \<le> delivered s \<or> aborted s \<Longrightarrow>
    walk_step opts s DrainStep (s\<lparr>deliverMu := Some (a, DUnlock)\<rparr>)"
| call: "deliverMu s = Some (a, DPeek) \<Longrightarrow> n = delivered s + 1 \<Longrightarrow> ready s n \<Longrightarrow>
    walk_step opts s DrainStep
      (s\<lparr>deliverMu := Some (a, DCall n (pending s n)), calls := calls s @ [(n, pending s n)]\<rparr>)"
| unready: "deliverMu s = Some (a, DPeek) \<Longrightarrow> \<not> ready s (delivered s + 1) \<Longrightarrow>
    walk_step opts s DrainStep (s\<lparr>deliverMu := Some (a, DUnlock)\<rparr>)"
| commit: "deliverMu s = Some (a, DCommit n) \<Longrightarrow>
    walk_step opts s DrainStep
      (s\<lparr>delivered := n, pending := (pending s)(n := []), deliverMu := Some (a, DLoop)\<rparr>)"
| dfail: "deliverMu s = Some (a, DFail e) \<Longrightarrow>
    walk_step opts s DrainStep ((fail_record e s)\<lparr>deliverMu := Some (a, DAbort)\<rparr>)"
| dabort: "deliverMu s = Some (a, DAbort) \<Longrightarrow>
    walk_step opts s DrainStep ((fail_abort s)\<lparr>deliverMu := Some (a, DCancel)\<rparr>)"
| dcancel: "deliverMu s = Some (a, DCancel) \<Longrightarrow>
    walk_step opts s DrainStep ((fail_cancel s)\<lparr>deliverMu := Some (a, DUnlock)\<rparr>)"
| unlock_main: "deliverMu s = Some (MainActor, DUnlock) \<Longrightarrow>
    walk_step opts s DrainStep (s\<lparr>deliverMu := None, main := Final\<rparr>)"
| unlock_page: "deliverMu s = Some (PageActor p, DUnlock) \<Longrightarrow>
    walk_step opts s DrainStep (goto p Leaving (s\<lparr>deliverMu := None\<rparr>))"
| dispatch: "main s = Dispatch \<Longrightarrow> page s \<le> max_page opts \<Longrightarrow> shortPage s = 0 \<or> page s \<le> shortPage s \<Longrightarrow>
    walk_step opts s MainStep (s\<lparr>main := Select\<rparr>)"
| dispatch_end: "main s = Dispatch \<Longrightarrow> max_page opts < page s \<or> shortPage s \<noteq> 0 \<and> shortPage s < page s \<Longrightarrow>
    walk_step opts s MainStep (s\<lparr>main := WaitAll\<rparr>)"
| wait: "main s = WaitAll \<Longrightarrow> list_all (\<lambda>p. pcs s p = Idle \<or> pcs s p = Gone) [2..<Suc (max_page opts)] \<Longrightarrow>
    walk_step opts s MainStep (s\<lparr>main := FinalLock\<rparr>)"
| final_lock: "main s = FinalLock \<Longrightarrow> deliverMu s = None \<Longrightarrow>
    walk_step opts s MainStep (s\<lparr>main := FinalDrain, deliverMu := Some (MainActor, DLoop)\<rparr>)"
| finish: "main s = Final \<Longrightarrow>
    walk_step opts s MainStep (s\<lparr>main := Returned (firstErr s)\<rparr>)"
| acquire: "main s = Select \<Longrightarrow> sem s < nat (Concurrency opts) \<Longrightarrow>
    walk_step opts s AcquireSem
      (goto (page s) Spawned (s\<lparr>sem := sem s + 1, main := Dispatch, page := page s + 1\<rparr>))"
| see_done: "main s = Select \<Longrightarrow> walkCtx_Err s \<noteq> None \<Longrightarrow>
    walk_step opts s SeeDone (s\<lparr>page := max_page opts + 1, main := WaitAll\<rparr>)"
| callback_ok: "deliverMu s = Some (a, DCall n items) \<Longrightarrow>
    walk_step opts s (CallbackReturned None) (s\<lparr>deliverMu := Some (a, DCommit n)\<rparr>)"
| callback_err: "deliverMu s = Some (a, DCall n items) \<Longrightarrow>
    walk_step opts s (CallbackReturned (Some e))
      (s\<lparr>deliverMu := Some (a, DFail (callback_error n e))\<rparr>)"
| fetch_err: "pcs s p = Fetching \<Longrightarrow>
    walk_step opts s (FetchReturned p (Inl e)) (goto p (Erred e) s)"
| fetch_ok: "pcs s p = Fetching \<Longrightarrow>
    walk_step opts s (FetchReturned p (Inr items))
      (goto p (Fetched items) (s\<lparr>fetched := (fetched s)(p := Some items)\<rparr>))"
| caller: "\<not> caller_cancelled s \<Longrightarrow>
    walk_step opts s CallerCancels (s\<lparr>caller_cancelled := True\<rparr>)"

inductive_cases page_stepE: "walk_step opts s (PageStep p) s'"
inductive_cases drain_stepE: "walk_step opts s DrainStep s'"
inductive_cases main_stepE: "walk_step opts s MainStep s'"

lemma page_step_walk_step:
  assumes step: "page_step opts p s = Some s'"
  shows "walk_step opts s (PageStep p) s'"
proof (cases "pcs s p")
  case (Checking sh)
  with step show ?thesis
    by (cases "shouldSkip (walkCtx_Err s) sh p") (auto simp: page_step_def intro: walk_step.skip walk_step.fetch)
next
  case (Erred e)
  with step show ?thesis
    by (cases "shortPage s \<noteq> 0 \<and> errors_Is e (CtxError Canceled)")
      (auto simp: page_step_def intro: walk_step.swallow walk_step.erred)
next
  case (Fetched items)
  with step show ?thesis
    using walk_step.short [OF Fetched, of opts] walk_step.full [OF Fetched, of opts]
    by (cases "int (length items) < PerPage opts \<and> shortPage s = 0") (auto simp: page_step_def)
next
  case DrainLock
  with step show ?thesis
    using walk_step.lock [OF DrainLock, of opts] by (cases "deliverMu s") (auto simp: page_step_def)
next
  case (Recording items n)
  with step show ?thesis using walk_step.recording [OF Recording] by (simp add: page_step_def)
next
  case (Counting items)
  with step show ?thesis using walk_step.counting [OF Counting refl] by (simp add: page_step_def Let_def)
next
  case Leaving
  with step show ?thesis using walk_step.leaving [OF Leaving] by (simp add: page_step_def)
next
  case (Failing e)
  with step show ?thesis using walk_step.failing [OF Failing] by (simp add: page_step_def)
next
  case Aborting
  with step show ?thesis using walk_step.aborting [OF Aborting] by (simp add: page_step_def)
next
  case Cancelling
  with step show ?thesis using walk_step.cancelling [OF Cancelling] by (simp add: page_step_def)
next
  case (Reporting n)
  with step show ?thesis using walk_step.reporting [OF Reporting, of opts] by (simp add: page_step_def)
qed (use step in \<open>auto simp: page_step_def intro: walk_step.spawned walk_step.released\<close>)

lemma drain_step_walk_step:
  assumes "drain_step opts s = Some s'"
  shows "walk_step opts s DrainStep s'"
proof -
  obtain a d where ad: "deliverMu s = Some (a, d)" using assms by (auto simp: drain_step_def split: option.splits)
  show ?thesis
  proof (cases d)
    case DLoop
    with assms ad show ?thesis
      by (cases "delivered s < max_page opts \<and> \<not> aborted s")
        (auto simp: drain_step_def intro: walk_step.peek walk_step.stop)
  next
    case DPeek
    with assms ad show ?thesis
      using walk_step.call [of s a "delivered s + 1" opts] walk_step.unready [of s a opts]
      by (cases "ready s (delivered s + 1)") (auto simp: drain_step_def Let_def)
  next
    case DUnlock
    with assms ad show ?thesis
      using walk_step.unlock_main [of s opts] walk_step.unlock_page [of s _ opts]
      by (cases a) (auto simp: drain_step_def)
  next
    case (DCommit n)
    with assms ad show ?thesis using walk_step.commit [of s a n opts] by (auto simp: drain_step_def)
  qed (use assms ad in \<open>auto simp: drain_step_def intro: walk_step.dfail walk_step.dabort walk_step.dcancel\<close>)
qed

lemma main_step_walk_step: "main_step opts s = Some s' \<Longrightarrow> walk_step opts s MainStep s'"
  by (auto simp: main_step_def split: main_pc.splits if_splits
      intro: walk_step.dispatch walk_step.dispatch_end walk_step.wait walk_step.final_lock walk_step.finish)

lemma step_walk_step:
  assumes "step opts l s = Some s'" "main s \<noteq> FetchFirst" "\<And>items. main s \<noteq> CallFirst items"
  shows "walk_step opts s l s'"
proof (cases l)
  case (CallbackReturned r)
  with assms obtain a n items where cb: "deliverMu s = Some (a, DCall n items)"
    "s' = s\<lparr>deliverMu := Some (a, case r of None \<Rightarrow> DCommit n | Some e \<Rightarrow> DFail (callback_error n e))\<rparr>"
    by (auto simp: step_def callback_returned_def split: main_pc.splits option.splits drain_pc.splits prod.splits)
  then show ?thesis
    using walk_step.callback_ok [OF cb(1)] walk_step.callback_err [OF cb(1)] CallbackReturned by (cases r) auto
next
  case (FetchReturned p r)
  with assms show ?thesis
    using walk_step.fetch_err [of s p opts] walk_step.fetch_ok [of s p opts]
    by (cases r) (auto simp: step_def fetch_returned_def split: if_splits)
next
  case AcquireSem
  with assms show ?thesis
    using walk_step.acquire [of s opts] by (auto simp: step_def select_acquire_def split: if_splits)
next
  case SeeDone
  with assms show ?thesis
    using walk_step.see_done [of s opts] by (auto simp: step_def select_done_def split: if_splits)
next
  case CallerCancels
  with assms show ?thesis
    using walk_step.caller [of s opts] by (auto simp: step_def split: if_splits)
qed (use assms in \<open>auto simp: step_def intro: page_step_walk_step drain_step_walk_step main_step_walk_step\<close>)

section \<open>The prelude and the induction rule\<close>

text \<open>Before the goroutines start the walk is a short sequence: page 1 is fetched and handed over.
  \<open>prelude\<close> lists its states with the labels that led there, \<open>begun\<close> is the state in which
  the dispatch loop starts.\<close>

definition calling_first :: "'a list \<Rightarrow> bool \<Rightarrow> (nat \<times> nat \<times> nat) list \<Rightarrow> 'a walk" where
  "calling_first items cc rep =
     walk_start\<lparr>main := CallFirst items, fetched := [1 \<mapsto> items], calls := [(1, items)],
       caller_cancelled := cc, reports := rep\<rparr>"

definition begun :: "'a list \<Rightarrow> bool \<Rightarrow> (nat \<times> nat \<times> nat) list \<Rightarrow> 'a walk" where
  "begun items cc rep =
     (calling_first items cc rep)\<lparr>itemsFetched := length items, ready := (\<lambda>p. False)(1 := True),
       pending := (\<lambda>p. [])(1 := items), main := Dispatch, page := 2\<rparr>"

definition first_report :: "PaginationOptions \<Rightarrow> 'a list \<Rightarrow> (nat \<times> nat \<times> nat) list" where
  "first_report opts items = (if OnProgress opts then [(1, max_page opts, length items)] else [])"

inductive prelude :: "PaginationOptions \<Rightarrow> 'a label list \<Rightarrow> 'a walk \<Rightarrow> bool" for opts where
  at_start: "set ls \<subseteq> {CallerCancels} \<Longrightarrow> prelude opts ls (walk_start\<lparr>caller_cancelled := cc\<rparr>)"
| calling: "set ls \<subseteq> {CallerCancels, FirstFetched (Inr items)} \<Longrightarrow> FirstFetched (Inr items) \<in> set ls \<Longrightarrow>
    rep = first_report opts items \<Longrightarrow>
    prelude opts ls (calling_first items cc rep)"
| failed: "set ls \<subseteq> {CallerCancels, FirstFetched (Inl e)} \<Longrightarrow> FirstFetched (Inl e) \<in> set ls \<Longrightarrow>
    prelude opts ls (walk_start\<lparr>caller_cancelled := cc,
      main := Returned (Some (Errorf ''githubkit: fetch page 1: %w'' [] [e]))\<rparr>)"
| refused: "set ls \<subseteq> {CallerCancels, FirstFetched (Inr items), CallbackReturned (Some e)} \<Longrightarrow>
    {FirstFetched (Inr items), CallbackReturned (Some e)} \<subseteq> set ls \<Longrightarrow> rep = first_report opts items \<Longrightarrow>
    prelude opts ls ((calling_first items cc rep)\<lparr>main := Returned (Some (callback_error 1 e))\<rparr>)"
| finished: "set ls \<subseteq> {CallerCancels, FirstFetched (Inr items), CallbackReturned None} \<Longrightarrow>
    {FirstFetched (Inr items), CallbackReturned None} \<subseteq> set ls \<Longrightarrow>
    int (length items) < PerPage opts \<or> MaxPages opts = 1 \<Longrightarrow> rep = first_report opts items \<Longrightarrow>
    prelude opts ls ((calling_first items cc rep)\<lparr>main := Returned None\<rparr>)"

lemmas prelude_defs = calling_first_def begun_def walk_start_def
lemmas first_defs = step_def first_fetched_def first_called_def main_step_def select_acquire_def select_done_def
  callback_returned_def fetch_returned_def page_step_def drain_step_def

lemma reach_cancelled: "reach opts ls s \<Longrightarrow> caller_cancelled s \<longleftrightarrow> CallerCancels \<in> set ls"
proof (induction rule: reach.induct)
  case start
  then show ?case by (simp add: walk_start_def)
next
  case (move ls s l s')
  have "caller_cancelled s' = (caller_cancelled s \<or> l = CallerCancels)"
  proof (cases l)
    case (FirstFetched r)
    with move(2) show ?thesis
      by (cases r) (auto simp: first_defs reportProgress_def split: if_splits)
  next
    case (CallbackReturned r)
    with move(2) show ?thesis
      by (auto simp: first_defs split: main_pc.splits option.splits drain_pc.splits if_splits)
  next
    case CallerCancels
    with move(2) show ?thesis by (auto simp: step_def split: if_splits)
  next
    case MainStep
    with move(2) have "main_step opts s = Some s'" by (simp add: step_def)
    from main_step_walk_step [OF this] MainStep show ?thesis by (auto elim!: main_stepE)
  next
    case (PageStep p)
    with move(2) have "page_step opts p s = Some s'" by (simp add: step_def)
    from page_step_walk_step [OF this] PageStep show ?thesis by (auto elim!: page_stepE)
  next
    case DrainStep
    with move(2) have "drain_step opts s = Some s'" by (simp add: step_def)
    from drain_step_walk_step [OF this] DrainStep show ?thesis by (auto elim!: drain_stepE)
  qed (use move(2) in \<open>auto simp: first_defs split: if_splits sum.splits\<close>)
  with move(3) show ?case by auto
qed

lemma at_start_step:
  assumes "step opts l (walk_start\<lparr>caller_cancelled := cc\<rparr>) = Some s'" "set ls \<subseteq> {CallerCancels}"
  shows "prelude opts (ls @ [l]) s'"
proof (cases l)
  case (FirstFetched r)
  show ?thesis
  proof (cases r)
    case (Inl e)
    with assms FirstFetched have "s' = walk_start\<lparr>caller_cancelled := cc,
        main := Returned (Some (Errorf ''githubkit: fetch page 1: %w'' [] [e]))\<rparr>"
      by (simp add: step_def first_fetched_def walk_start_def)
    with assms FirstFetched Inl show ?thesis by (auto intro!: prelude.failed)
  next
    case (Inr items)
    with assms FirstFetched have "s' = calling_first items cc (first_report opts items)"
      by (auto simp: step_def first_fetched_def prelude_defs reportProgress_def first_report_def)
    with assms FirstFetched Inr show ?thesis by (auto intro!: prelude.calling)
  qed
next
  case CallerCancels
  with assms have "s' = walk_start\<lparr>caller_cancelled := True\<rparr>" by (simp add: step_def split: if_splits)
  with assms CallerCancels show ?thesis by (auto intro!: prelude.at_start)
qed (use assms in \<open>auto simp: first_defs walk_start_def split: if_splits\<close>)

lemma calling_step:
  assumes "step opts l (calling_first items cc rep) = Some s'"
    "set ls \<subseteq> {CallerCancels, FirstFetched (Inr items)}" "FirstFetched (Inr items) \<in> set ls"
    "rep = first_report opts items"
  shows "prelude opts (ls @ [l]) s' \<or> (s' = begun items cc rep \<and> l = CallbackReturned None
    \<and> PerPage opts \<le> int (length items) \<and> MaxPages opts \<noteq> 1)"
proof (cases l)
  case (CallbackReturned r)
  show ?thesis
  proof (cases r)
    case None
    with assms CallbackReturned have s': "s' = first_called opts items None (calling_first items cc rep)"
      by (simp add: step_def callback_returned_def calling_first_def)
    show ?thesis
    proof (cases "int (length items) < PerPage opts \<or> MaxPages opts = 1")
      case True
      with s' have "s' = (calling_first items cc rep)\<lparr>main := Returned None\<rparr>"
        by (simp add: first_called_def)
      with True assms CallbackReturned None show ?thesis by (auto intro!: prelude.finished)
    next
      case False
      with s' CallbackReturned None show ?thesis by (simp add: first_called_def begun_def prelude_defs)
    qed
  next
    case (Some e)
    with assms CallbackReturned have "s' = (calling_first items cc rep)\<lparr>main := Returned (Some (callback_error 1 e))\<rparr>"
      by (simp add: step_def callback_returned_def first_called_def calling_first_def)
    with assms CallbackReturned Some show ?thesis
      using prelude.refused [of "ls @ [l]" items e rep opts cc] by auto
  qed
next
  case CallerCancels
  with assms have "s' = calling_first items True rep" by (simp add: step_def prelude_defs split: if_splits)
  with assms CallerCancels show ?thesis by (auto intro!: prelude.calling)
qed (use assms in \<open>auto simp: first_defs prelude_defs split: if_splits\<close>)

lemma prelude_ended_step:
  assumes "step opts l (s\<lparr>main := Returned r\<rparr>) = Some s'"
    "s = walk_start\<lparr>caller_cancelled := cc\<rparr> \<or> s = calling_first items cc rep"
  shows "l = CallerCancels \<and> s' = s\<lparr>main := Returned r, caller_cancelled := True\<rparr>"
  using assms by (cases l) (auto simp: first_defs prelude_defs split: if_splits)


lemma prelude_step:
  assumes pre: "prelude opts ls s" and step: "step opts l s = Some s'"
  shows "prelude opts (ls @ [l]) s' \<or> (page s' \<noteq> 0 \<and> main s' \<noteq> FetchFirst \<and> (\<forall>items. main s' \<noteq> CallFirst items))"
  using pre
proof cases
  case (at_start cc)
  with at_start_step [of opts l cc s' ls] step show ?thesis by auto
next
  case (calling items rep cc)
  with calling_step [of opts l items cc rep s' ls] step show ?thesis by (auto simp: begun_def)
next
  case (failed e cc)
  have "s = (walk_start\<lparr>caller_cancelled := cc\<rparr>)\<lparr>main := Returned (Some (Errorf ''githubkit: fetch page 1: %w'' [] [e]))\<rparr>"
    using failed by simp
  with prelude_ended_step [where s = "walk_start\<lparr>caller_cancelled := cc\<rparr>" and opts = opts and l = l and s' = s' and cc = cc
      and r = "Some (Errorf ''githubkit: fetch page 1: %w'' [] [e])"] step
  have "l = CallerCancels" "s' = walk_start\<lparr>caller_cancelled := True,
      main := Returned (Some (Errorf ''githubkit: fetch page 1: %w'' [] [e]))\<rparr>" by auto
  with failed show ?thesis by (auto intro!: prelude.failed)
next
  case (refused items e rep cc)
  with prelude_ended_step [where s = "calling_first items cc rep" and opts = opts and l = l and s' = s'
      and items = items and cc = cc and rep = rep and r = "Some (callback_error 1 e)"] step
  have "l = CallerCancels" "s' = (calling_first items True rep)\<lparr>main := Returned (Some (callback_error 1 e))\<rparr>"
    by (auto simp: prelude_defs)
  with refused show ?thesis using prelude.refused [of "ls @ [l]" items e rep opts True] by auto
next
  case (finished items rep cc)
  with prelude_ended_step [where s = "calling_first items cc rep" and opts = opts and l = l and s' = s'
      and items = items and cc = cc and rep = rep and r = None] step
  have "l = CallerCancels" "s' = (calling_first items True rep)\<lparr>main := Returned None\<rparr>"
    by (auto simp: prelude_defs)
  with finished show ?thesis using prelude.finished [of "ls @ [l]" items opts rep True] by auto
qed

lemma reach_prelude:
  "reach opts ls s \<Longrightarrow> prelude opts ls s \<or> (page s \<noteq> 0 \<and> main s \<noteq> FetchFirst \<and> (\<forall>items. main s \<noteq> CallFirst items))"
proof (induction rule: reach.induct)
  case start
  have "prelude opts [] (walk_start\<lparr>caller_cancelled := False\<rparr>)" by (rule prelude.at_start) simp
  then show ?case by (simp add: walk_start_def)
next
  case (move ls s l s')
  from move(3) show ?case
  proof
    assume "prelude opts ls s"
    from prelude_step [OF this move(2)] show ?thesis .
  next
    assume w: "page s \<noteq> 0 \<and> main s \<noteq> FetchFirst \<and> (\<forall>items. main s \<noteq> CallFirst items)"
    with move(2) have "walk_step opts s l s'" by (auto intro: step_walk_step)
    then show ?thesis
      by (cases rule: walk_step.cases)
        (use w in \<open>auto simp: fail_record_def fail_abort_def fail_cancel_def reportProgress_def\<close>)
  qed
qed

lemma prelude_page: "prelude opts ls s \<Longrightarrow> page s = 0"
  by (cases rule: prelude.cases) (auto simp: prelude_defs)

text \<open>Induction over the states of a walk whose goroutines may run.\<close>

lemma walk_induct [consumes 2, case_names starts move]:
  assumes "reach opts ls s" "page s \<noteq> 0"
    and starts: "\<And>ls items cc rep. set ls \<subseteq> {CallerCancels, FirstFetched (Inr items), CallbackReturned None} \<Longrightarrow>
      FirstFetched (Inr items) \<in> set ls \<Longrightarrow> PerPage opts \<le> int (length items) \<Longrightarrow> MaxPages opts \<noteq> 1 \<Longrightarrow>
      rep = first_report opts items \<Longrightarrow> P ls (begun items cc rep)"
    and move: "\<And>ls s l s'. reach opts ls s \<Longrightarrow> page s \<noteq> 0 \<Longrightarrow> P ls s \<Longrightarrow> walk_step opts s l s' \<Longrightarrow> P (ls @ [l]) s'"
  shows "P ls s"
  using assms(1,2)
proof (induction rule: reach.induct)
  case start
  then show ?case by (simp add: walk_start_def)
next
  case (move ls s l s')
  show ?case
  proof (cases "page s = 0")
    case True
    with reach_prelude [OF move(1)] have "prelude opts ls s" by simp
    then show ?thesis
    proof cases
      case (at_start cc)
      with at_start_step [of opts l cc s' ls] move(2) prelude_page [of opts "ls @ [l]" s'] move(4) show ?thesis by auto
    next
      case (calling items rep cc)
      with calling_step [of opts l items cc rep s' ls] move(2) prelude_page [of opts "ls @ [l]" s'] move(4)
      have "s' = begun items cc rep" "l = CallbackReturned None" "PerPage opts \<le> int (length items)" "MaxPages opts \<noteq> 1"
        by auto
      with calling starts [of "ls @ [l]" items rep cc] show ?thesis by auto
    next
      case (failed e cc)
      with prelude_ended_step [where s = "walk_start\<lparr>caller_cancelled := cc\<rparr>" and opts = opts and l = l and s' = s' and cc = cc
          and r = "Some (Errorf ''githubkit: fetch page 1: %w'' [] [e])"] move(2,4)
      show ?thesis by (simp add: walk_start_def)
    next
      case (refused items e rep cc)
      with prelude_ended_step [where s = "calling_first items cc rep" and opts = opts and l = l and s' = s'
          and items = items and cc = cc and rep = rep and r = "Some (callback_error 1 e)"] move(2,4)
      show ?thesis by (simp add: prelude_defs)
    next
      case (finished items rep cc)
      with prelude_ended_step [where s = "calling_first items cc rep" and opts = opts and l = l and s' = s'
          and items = items and cc = cc and rep = rep and r = None] move(2,4)
      show ?thesis by (simp add: prelude_defs)
    qed
  next
    case False
    with reach_prelude [OF move(1)] prelude_page [of opts ls s] have "main s \<noteq> FetchFirst" "\<And>items. main s \<noteq> CallFirst items" by auto
    from step_walk_step [OF move(2) this] assms(4) [OF move(1) False move(3) [OF False]] show ?thesis by blast
  qed
qed

section \<open>Where the goroutines are\<close>

lemma begun_fields [simp]:
  "main (begun items cc rep) = Dispatch" "page (begun items cc rep) = 2" "pcs (begun items cc rep) p = Idle"
  "shortPage (begun items cc rep) = 0" "itemsFetched (begun items cc rep) = length items"
  "\<not> aborted (begun items cc rep)" "firstErr (begun items cc rep) = None"
  "ready (begun items cc rep) p \<longleftrightarrow> p = 1" "pending (begun items cc rep) p = (if p = 1 then items else [])"
  "delivered (begun items cc rep) = 1" "deliverMu (begun items cc rep) = None" "sem (begun items cc rep) = 0"
  "\<not> walk_cancelled (begun items cc rep)" "caller_cancelled (begun items cc rep) = cc"
  "fetched (begun items cc rep) = [1 \<mapsto> items]" "calls (begun items cc rep) = [(1, items)]"
  "reports (begun items cc rep) = rep"
  by (simp_all add: prelude_defs)

lemma page_range:
  assumes "1 \<le> MaxPages opts" "reach opts ls s" "page s \<noteq> 0"
  shows "2 \<le> page s \<and> page s \<le> Suc (max_page opts) \<and> (main s = Select \<longrightarrow> page s \<le> max_page opts)"
  using assms(2,3)
proof (induction rule: walk_induct)
  case (starts ls items cc rep)
  with assms(1) show ?case by simp
next
  case (move ls s l s')
  from move(3) show ?case by (cases rule: walk_step.cases) (use move(4) in auto)
qed

text \<open>A goroutine exists only for a dispatched page, and \<open>deliverMu\<close> is held by the one
  goroutine whose counter says so.\<close>

lemma goroutines:
  assumes "1 \<le> MaxPages opts" "reach opts ls s" "page s \<noteq> 0"
  shows "(\<forall>p. pcs s p \<noteq> Idle \<longrightarrow> 2 \<le> p \<and> p < page s \<and> p \<le> max_page opts)
    \<and> (\<forall>p. pcs s p = Draining \<longleftrightarrow> (\<exists>d. deliverMu s = Some (PageActor p, d)))
    \<and> (main s = FinalDrain \<longleftrightarrow> (\<exists>d. deliverMu s = Some (MainActor, d)))"
    (is "?range s \<and> ?holder s \<and> ?main s")
  using assms(2,3)
proof (induction rule: walk_induct)
  case (move ls s l s')
  note r = page_range [OF assms(1) move(1,2)]
  from move(4) have range: "?range s" and holder: "?holder s" and main: "?main s" by auto
  have hold: "deliverMu s = Some (PageActor p, d) \<Longrightarrow> pcs s p = Draining" for p d using holder by blast
  have hold': "pcs s p = Draining \<Longrightarrow> \<exists>d. deliverMu s = Some (PageActor p, d)" for p using holder by blast
  have hm: "deliverMu s = Some (MainActor, d) \<Longrightarrow> main s = FinalDrain" for d using main by blast
  have dr: "deliverMu s = Some (PageActor p, d) \<Longrightarrow> pcs s p \<noteq> Idle" for p d using hold by force
  have here: "deliverMu s \<noteq> Some (PageActor (page s), d)" for d using dr range by blast
  have "?range s'"
    using move(3) by (cases rule: walk_step.cases) (use r range dr in \<open>auto intro: less_SucI\<close>)
  moreover have "?holder s'"
    using move(3) by (cases rule: walk_step.cases) (use range here in \<open>auto dest: hold hold' hm\<close>)
  moreover have "?main s'"
    using move(3) by (cases rule: walk_step.cases) (use main in auto)
  ultimately show ?case by simp
qed simp

lemma goroutine_places:
  assumes "1 \<le> MaxPages opts" "reach opts ls s" "page s \<noteq> 0"
  shows page_goroutine: "pcs s p \<noteq> Idle \<Longrightarrow> 2 \<le> p \<and> p < page s \<and> p \<le> max_page opts"
    and drain_page: "deliverMu s = Some (PageActor p, d) \<Longrightarrow> pcs s p = Draining"
    and page_drains: "pcs s p = Draining \<Longrightarrow> \<exists>d. deliverMu s = Some (PageActor p, d)"
    and drain_main: "deliverMu s = Some (MainActor, d) \<Longrightarrow> main s = FinalDrain"
    and main_drains: "main s = FinalDrain \<Longrightarrow> \<exists>d. deliverMu s = Some (MainActor, d)"
  using goroutines [OF assms] by blast+

text \<open>Goroutines that have not started or are gone do not move.\<close>

lemma quiet_pcs:
  assumes "\<And>p. pcs s p = Idle \<or> pcs s p = Gone"
  shows "pcs s p \<noteq> Spawned" "pcs s p \<noteq> Checking n" "pcs s p \<noteq> Fetching" "pcs s p \<noteq> Erred e" "pcs s p \<noteq> Failing e"
    "pcs s p \<noteq> Aborting" "pcs s p \<noteq> Cancelling" "pcs s p \<noteq> Fetched items" "pcs s p \<noteq> Counting items"
    "pcs s p \<noteq> Recording items n" "pcs s p \<noteq> Reporting n" "pcs s p \<noteq> DrainLock" "pcs s p \<noteq> Draining"
    "pcs s p \<noteq> Leaving" "pcs s p \<noteq> Released"
  using assms [of p] by auto

lemma quiet_step:
  assumes "walk_step opts s l s'" "\<And>p. pcs s p = Idle \<or> pcs s p = Gone"
    "\<And>p d. deliverMu s \<noteq> Some (PageActor p, d)"
  shows "pcs s' = pcs s \<and> firstErr s' = firstErr s \<and> main s' = main s
      \<and> (deliverMu s' = None \<longleftrightarrow> deliverMu s = None)
    \<or> (main s \<in> {Dispatch, Select}) \<or> main s = WaitAll \<and> pcs s' = pcs s \<and> main s' = FinalLock
    \<or> main s = FinalLock \<and> pcs s' = pcs s \<and> main s' = FinalDrain
    \<or> (\<exists>d. deliverMu s = Some (MainActor, d)) \<and> pcs s' = pcs s \<and> (main s' = main s \<or> main s' = Final)
    \<or> main s = Final \<and> pcs s' = pcs s \<and> main s' = Returned (firstErr s) \<and> firstErr s' = firstErr s"
proof -
  have act: "a = MainActor" if "deliverMu s = Some (a, d)" for a d
    using assms(3) that by (cases a) auto
  show ?thesis
    using assms(1) by (cases rule: walk_step.cases) (auto simp: quiet_pcs [OF assms(2)] assms(3) dest: act)
qed

lemma wait_all:
  assumes "1 \<le> MaxPages opts" "reach opts ls s" "page s \<noteq> 0"
    "main s \<in> {FinalLock, FinalDrain, Final} \<or> (\<exists>r. main s = Returned r)"
  shows "pcs s p = Idle \<or> pcs s p = Gone"
  using assms(2-4)
proof (induction arbitrary: p rule: walk_induct)
  case (move ls s l s')
  show ?case
  proof (cases "main s \<in> {FinalLock, FinalDrain, Final} \<or> (\<exists>r. main s = Returned r)")
    case True
    have q: "pcs s p = Idle \<or> pcs s p = Gone" for p using move(4) True by blast
    have "deliverMu s \<noteq> Some (PageActor p, d)" for p d
      using drain_page [OF assms(1) move(1,2)] quiet_pcs(13) [OF q] by blast
    then have "pcs s' = pcs s" using quiet_step [OF move(3) q] True by auto
    with q [of p] show ?thesis by simp
  next
    case False
    have m: "deliverMu s \<noteq> Some (MainActor, d)" for d
      using drain_main [OF assms(1) move(1,2)] False by blast
    have "pcs s' = pcs s \<and> list_all (\<lambda>p. pcs s p = Idle \<or> pcs s p = Gone) [2..<Suc (max_page opts)]"
      using move(3) by (cases rule: walk_step.cases) (use False move(5) m in auto)
    moreover have "pcs s p \<noteq> Idle \<Longrightarrow> p \<in> set [2..<Suc (max_page opts)]"
      using page_goroutine [OF assms(1) move(1,2), of p] by auto
    ultimately show ?thesis by (auto simp: list_all_iff)
  qed
qed simp

lemma returned_err:
  assumes "1 \<le> MaxPages opts" "reach opts ls s" "page s \<noteq> 0" "main s = Returned r"
  shows "r = firstErr s"
  using assms(2-4)
proof (induction arbitrary: r rule: walk_induct)
  case (move ls s l s')
  show ?case
  proof (cases "main s = Final \<or> (\<exists>r. main s = Returned r)")
    case True
    then have q: "pcs s p = Idle \<or> pcs s p = Gone" for p
      using wait_all [OF assms(1) move(1,2)] by blast
    have "deliverMu s \<noteq> Some (PageActor p, d)" for p d
      using drain_page [OF assms(1) move(1,2)] quiet_pcs(13) [OF q] by blast
    moreover have "deliverMu s \<noteq> Some (MainActor, d)" for d
      using drain_main [OF assms(1) move(1,2)] True by auto
    ultimately show ?thesis using quiet_step [OF move(3) q] True move(4,5) by auto
  next
    case False
    with move(3,5) show ?thesis by (cases rule: walk_step.cases) auto
  qed
qed simp

section \<open>The semaphore\<close>

definition holds_sem :: "'a page_pc \<Rightarrow> bool" where
  "holds_sem pc \<longleftrightarrow> pc \<noteq> Idle \<and> pc \<noteq> Released \<and> pc \<noteq> Gone"

definition holders :: "'a walk \<Rightarrow> nat set" where
  "holders s = {p. holds_sem (pcs s p)}"

lemma holders_goto:
  "holders (goto p pc s) = (if holds_sem pc then insert p (holders s) else holders s - {p})"
  by (auto simp: holders_def)

lemma holders_same: "pcs s' = pcs s \<Longrightarrow> holders s' = holders s"
  by (simp add: holders_def)

lemma semaphore:
  assumes "1 \<le> MaxPages opts" "1 \<le> Concurrency opts" "reach opts ls s" "page s \<noteq> 0"
  shows "sem s = card (holders s) \<and> sem s \<le> nat (Concurrency opts) \<and> finite (holders s)"
  using assms(3,4)
proof (induction rule: walk_induct)
  case (starts ls items cc rep)
  then show ?case by (simp add: holders_def holds_sem_def)
next
  case (move ls s l s')
  have idle: "pcs s (page s) = Idle" using page_goroutine [OF assms(1) move(1,2), of "page s"] by blast
  note hold = drain_page [OF assms(1) move(1,2)]
  have hp: "sem s' = sem s \<and> holders s' = holders s
    \<or> (\<exists>p. p \<notin> holders s \<and> holders s' = insert p (holders s) \<and> sem s' = Suc (sem s) \<and> sem s < nat (Concurrency opts))
    \<or> (\<exists>p. p \<in> holders s \<and> holders s' = holders s - {p} \<and> sem s' = sem s - 1)"
    using move(3)
  proof (cases rule: walk_step.cases)
    case acquire
    then have "holders s' = insert (page s) (holders s)" "page s \<notin> holders s"
      using idle by (auto simp: holders_def holds_sem_def)
    with acquire show ?thesis by auto
  next
    case (leaving p)
    then have "holders s' = holders s - {p}" "p \<in> holders s" by (auto simp: holders_def holds_sem_def)
    with leaving show ?thesis by auto
  next
    case (released p)
    then have "holders s' = holders s" by (auto simp: holders_def holds_sem_def)
    with released show ?thesis by auto
  next
    case (unlock_page p)
    then have "holders s' = holders s" using hold by (auto simp: holders_def holds_sem_def)
    with unlock_page show ?thesis by auto
  qed (auto simp: holders_def holds_sem_def)
  then consider "sem s' = sem s" "holders s' = holders s"
    | p where "p \<notin> holders s" "holders s' = insert p (holders s)" "sem s' = Suc (sem s)" "sem s < nat (Concurrency opts)"
    | p where "p \<in> holders s" "holders s' = holders s - {p}" "sem s' = sem s - 1"
    by blast
  then show ?case
  proof cases
    case 2
    with move(4) show ?thesis by (simp add: card_insert_disjoint)
  next
    case 3
    with move(4) show ?thesis by (simp add: card_Diff_singleton le_diff_conv)
  qed (use move(4) in simp)
qed

section \<open>What is fetched and what is delivered\<close>

text \<open>The drain: how far the calls of \<open>onPage\<close> are ahead of \<open>delivered\<close>, by its counter.  The
  calls are made in page order; only a failed callback leaves the last call undelivered, and then
  the walk is aborted before the lock is released.\<close>

definition drain_progress :: "'a walk \<Rightarrow> bool" where
  "drain_progress s \<longleftrightarrow> (case deliverMu s of
       Some (a, DPeek) \<Rightarrow> length (calls s) = delivered s
     | Some (a, DCall n items) \<Rightarrow> n = Suc (delivered s) \<and> length (calls s) = n
     | Some (a, DCommit n) \<Rightarrow> n = Suc (delivered s) \<and> length (calls s) = n
     | Some (a, DFail e) \<Rightarrow> length (calls s) = Suc (delivered s)
     | Some (a, DAbort) \<Rightarrow> length (calls s) = Suc (delivered s)
     | _ \<Rightarrow> length (calls s) = delivered s \<or> aborted s \<and> length (calls s) = Suc (delivered s))"

lemma delivery:
  assumes "1 \<le> MaxPages opts" "reach opts ls s" "page s \<noteq> 0"
  shows "drain_progress s \<and> map fst (calls s) = [1..<Suc (length (calls s))]"
  using assms(2,3)
proof (induction rule: walk_induct)
  case (starts ls items cc rep)
  then show ?case by (simp add: drain_progress_def)
next
  case (move ls s l s')
  from move(4) have prog: "drain_progress s" and order: "map fst (calls s) = [1..<Suc (length (calls s))]" by auto
  have "drain_progress s'"
    using move(3) by (cases rule: walk_step.cases)
      (use prog in \<open>auto simp: drain_progress_def split: option.splits prod.splits drain_pc.splits\<close>)
  moreover have "map fst (calls s') = [1..<Suc (length (calls s'))]"
    using move(3) by (cases rule: walk_step.cases)
      (use order prog in \<open>simp_all add: drain_progress_def\<close>)
  ultimately show ?case by simp
qed

text \<open>A goroutine that holds items holds what was fetched for its page; a page whose fetch has not
  returned has no items; a recorded page waits in \<open>pending\<close> until it is delivered.\<close>

definition carries :: "'a page_pc \<Rightarrow> 'a list \<Rightarrow> bool" where
  "carries pc items \<longleftrightarrow> pc = Fetched items \<or> pc = Counting items \<or> (\<exists>n. pc = Recording items n)"

definition unfetched :: "'a page_pc \<Rightarrow> bool" where
  "unfetched pc \<longleftrightarrow> pc = Idle \<or> pc = Spawned \<or> (\<exists>n. pc = Checking n) \<or> pc = Fetching"

lemma carries_simps [simp]:
  "carries (Fetched xs) ys \<longleftrightarrow> xs = ys" "carries (Counting xs) ys \<longleftrightarrow> xs = ys"
  "carries (Recording xs n) ys \<longleftrightarrow> xs = ys" "\<not> carries Idle ys" "\<not> carries Spawned ys" "\<not> carries (Checking n) ys"
  "\<not> carries Fetching ys" "\<not> carries (Erred e) ys" "\<not> carries (Failing e) ys" "\<not> carries Aborting ys"
  "\<not> carries Cancelling ys" "\<not> carries (Reporting n) ys" "\<not> carries DrainLock ys" "\<not> carries Draining ys"
  "\<not> carries Leaving ys" "\<not> carries Released ys" "\<not> carries Gone ys"
  by (auto simp: carries_def)

lemma unfetched_simps [simp]:
  "unfetched Idle" "unfetched Spawned" "unfetched (Checking n)" "unfetched Fetching"
  "\<not> unfetched (Erred e)" "\<not> unfetched (Failing e)" "\<not> unfetched Aborting" "\<not> unfetched Cancelling"
  "\<not> unfetched (Fetched xs)" "\<not> unfetched (Counting xs)" "\<not> unfetched (Recording xs n)" "\<not> unfetched (Reporting n)"
  "\<not> unfetched DrainLock" "\<not> unfetched Draining" "\<not> unfetched Leaving" "\<not> unfetched Released" "\<not> unfetched Gone"
  by (auto simp: unfetched_def)

lemma data_flow:
  assumes "1 \<le> MaxPages opts" "reach opts ls s" "page s \<noteq> 0"
  shows "(\<forall>p. 2 \<le> p \<and> unfetched (pcs s p) \<longrightarrow> fetched s p = None)
    \<and> (\<forall>p items. carries (pcs s p) items \<longrightarrow> fetched s p = Some items)
    \<and> (\<forall>p. ready s p \<longrightarrow> 1 \<le> p \<and> fetched s p \<noteq> None \<and> (p = 1 \<or> \<not> unfetched (pcs s p)))
    \<and> (\<forall>p. ready s p \<and> delivered s < p \<longrightarrow> fetched s p = Some (pending s p))"
    (is "?none s \<and> ?carry s \<and> ?ready s \<and> ?pend s")
  using assms(2,3)
proof (induction rule: walk_induct)
  case (move ls s l s')
  note range = page_goroutine [OF assms(1) move(1,2)] and hold = drain_page [OF assms(1) move(1,2)]
  from move(4) have none: "?none s" and carry: "?carry s" and ready: "?ready s" and pend: "?pend s" by auto
  have idle: "pcs s (page s) = Idle" using range [of "page s"] by blast
  have nr: "pcs s p = Fetching \<Longrightarrow> \<not> ready s p" for p using range [of p] ready by fastforce
  have pos: "pcs s p = Recording items n \<Longrightarrow> Suc 0 \<le> p" for p items n using range [of p] by simp
  have "?none s'"
    using move(3) by (cases rule: walk_step.cases) (use none idle in \<open>auto dest: hold\<close>)
  moreover have "?carry s'"
    using move(3) by (cases rule: walk_step.cases) (use carry in \<open>auto dest: hold\<close>)
  moreover have "?ready s'"
    using move(3) by (cases rule: walk_step.cases) (use ready carry idle in \<open>auto dest: hold pos\<close>)
  moreover have "?pend s'"
    using move(3) by (cases rule: walk_step.cases)
      (use pend carry ready delivery [OF assms(1) move(1,2)] in \<open>auto simp: drain_progress_def dest: hold nr\<close>)
  ultimately show ?case by simp
qed simp

lemma calls_fetched:
  assumes "1 \<le> MaxPages opts" "reach opts ls s" "page s \<noteq> 0"
  shows "list_all (\<lambda>(p, items). fetched s p = Some items) (calls s)"
  using assms(2,3)
proof (induction rule: walk_induct)
  case (move ls s l s')
  note range = page_goroutine [OF assms(1) move(1,2)]
  have none: "fetched s p = None" if "pcs s p = Fetching" for p
    using data_flow [OF assms(1) move(1,2)] range [of p] that by simp
  have pend: "fetched s (Suc (delivered s)) = Some (pending s (Suc (delivered s)))"
    if "ready s (Suc (delivered s))"
    using data_flow [OF assms(1) move(1,2)] that by simp
  show ?case
    using move(3)
  proof (cases rule: walk_step.cases)
    case (fetch_ok p items)
    then have "q \<noteq> p" if "(q, xs) \<in> set (calls s)" for q xs
      using move(4) none [of p] that by (auto simp: list_all_iff)
    with fetch_ok move(4) show ?thesis by (fastforce simp: list_all_iff)
  qed (use move(4) pend in simp_all)
qed simp

section \<open>How errors spread\<close>

text \<open>\<open>fail\<close> records its error before it aborts, and aborts before it cancels.\<close>

lemma failing_order:
  assumes "1 \<le> MaxPages opts" "reach opts ls s" "page s \<noteq> 0"
  shows "(aborted s \<longrightarrow> firstErr s \<noteq> None) \<and> (walk_cancelled s \<longrightarrow> aborted s)
    \<and> (\<forall>p. pcs s p = Aborting \<longrightarrow> firstErr s \<noteq> None) \<and> (\<forall>p. pcs s p = Cancelling \<longrightarrow> aborted s)
    \<and> (\<forall>a. deliverMu s = Some (a, DAbort) \<longrightarrow> firstErr s \<noteq> None)
    \<and> (\<forall>a. deliverMu s = Some (a, DCancel) \<longrightarrow> aborted s)"
    (is "?f1 s \<and> ?f2 s \<and> ?f3 s \<and> ?f4 s \<and> ?f5 s \<and> ?f6 s")
  using assms(2,3)
proof (induction rule: walk_induct)
  case (move ls s l s')
  have "?f1 s'" using move(3) by (cases rule: walk_step.cases) (use move(4) in \<open>auto split: option.splits\<close>)
  moreover have "?f2 s'" using move(3) by (cases rule: walk_step.cases) (use move(4) in auto)
  moreover have "?f3 s'" using move(3) by (cases rule: walk_step.cases) (use move(4) in \<open>auto split: option.splits\<close>)
  moreover have "?f4 s'" using move(3) by (cases rule: walk_step.cases) (use move(4) in auto)
  moreover have "?f5 s'" using move(3) by (cases rule: walk_step.cases) (use move(4) in \<open>auto split: option.splits\<close>)
  moreover have "?f6 s'" using move(3) by (cases rule: walk_step.cases) (use move(4) in auto)
  ultimately show ?case by simp
qed simp

text \<open>Where an error comes from: a fetch or a callback that failed.\<close>

definition caused :: "'a label list \<Rightarrow> err \<Rightarrow> bool" where
  "caused ls e \<longleftrightarrow> (\<exists>p x. FetchReturned p (Inl x) \<in> set ls \<and> e = fetch_error p x)
     \<or> (\<exists>n x. CallbackReturned (Some x) \<in> set ls \<and> e = callback_error n x)"

lemma caused_append [simp]: "caused ls e \<Longrightarrow> caused (ls @ [l]) e"
  by (auto simp: caused_def)

lemma caused_callback: "CallbackReturned (Some x) \<in> set ls \<Longrightarrow> caused ls (callback_error n x)"
  by (auto simp: caused_def)

lemma error_causes:
  assumes "reach opts ls s" "page s \<noteq> 0"
  shows "(\<forall>e. firstErr s = Some e \<longrightarrow> caused ls e)
    \<and> (\<forall>p e. pcs s p = Erred e \<longrightarrow> FetchReturned p (Inl e) \<in> set ls)
    \<and> (\<forall>p e. pcs s p = Failing e \<longrightarrow> caused ls e)
    \<and> (\<forall>a e. deliverMu s = Some (a, DFail e) \<longrightarrow> caused ls e)"
    (is "?f1 ls s \<and> ?f2 ls s \<and> ?f3 ls s \<and> ?f4 ls s")
  using assms
proof (induction rule: walk_induct)
  case (move ls s l s')
  from move(4) have f1: "?f1 ls s" and f2: "?f2 ls s" and f3: "?f3 ls s" and f4: "?f4 ls s" by auto
  have c: "caused (ls @ [l]) (fetch_error p e)" if "pcs s p = Erred e" for p e
    using f2 that by (auto simp: caused_def)
  have "?f1 (ls @ [l]) s'"
    using move(3) by (cases rule: walk_step.cases) (use f1 f3 f4 in \<open>auto split: option.splits\<close>)
  moreover have "?f2 (ls @ [l]) s'"
    using move(3) by (cases rule: walk_step.cases) (use f2 in auto)
  moreover have "?f3 (ls @ [l]) s'"
    using move(3) by (cases rule: walk_step.cases) (use f3 c in auto)
  moreover have "?f4 (ls @ [l]) s'"
    using move(3)
  proof (cases rule: walk_step.cases)
    case (callback_err a n items e)
    then show ?thesis by (auto simp: caused_def)
  qed (use f4 in auto)
  ultimately show ?case by simp
qed simp

text \<open>No failure is lost: a fetch error that is not a cancellation and a callback error are on their
  way to \<open>firstErr\<close> or have got there.\<close>

lemma errors_reported:
  assumes "1 \<le> MaxPages opts" "reach opts ls s" "page s \<noteq> 0"
  shows "(\<forall>p e. FetchReturned p (Inl e) \<in> set ls \<and> \<not> errors_Is e (CtxError Canceled) \<longrightarrow>
      firstErr s \<noteq> None \<or> pcs s p = Erred e \<or> (\<exists>x. pcs s p = Failing x))
    \<and> (\<forall>e. CallbackReturned (Some e) \<in> set ls \<longrightarrow> firstErr s \<noteq> None \<or> (\<exists>a x. deliverMu s = Some (a, DFail x)))"
    (is "?f1 ls s \<and> ?f2 ls s")
  using assms(2,3)
proof (induction rule: walk_induct)
  case (starts ls items cc rep)
  then show ?case by auto
next
  case (move ls s l s')
  note hold = drain_page [OF assms(1) move(1,2)] and range = page_goroutine [OF assms(1) move(1,2)]
  have idle: "pcs s (page s) = Idle" using range [of "page s"] by blast
  from move(4) have f1: "?f1 ls s" and f2: "?f2 ls s" by auto
  have "firstErr s' \<noteq> None \<or> pcs s' q = Erred e \<or> (\<exists>x. pcs s' q = Failing x)"
    if q: "FetchReturned q (Inl e) \<in> set (ls @ [l])" "\<not> errors_Is e (CtxError Canceled)" for q e
  proof (cases "FetchReturned q (Inl e) \<in> set ls")
    case True
    with f1 q(2) have ih: "firstErr s \<noteq> None \<or> pcs s q = Erred e \<or> (\<exists>x. pcs s q = Failing x)" by blast
    show ?thesis
      using move(3) by (cases rule: walk_step.cases)
        (use ih idle q(2) in \<open>auto split: option.splits dest: hold\<close>)
  next
    case False
    from move(3) show ?thesis by (cases rule: walk_step.cases) (use False q(1) in auto)
  qed
  then have "?f1 (ls @ [l]) s'" by blast
  moreover have "?f2 (ls @ [l]) s'"
    using move(3) by (cases rule: walk_step.cases) (use f2 in \<open>auto split: option.splits\<close>)
  ultimately show ?case by simp
qed

section \<open>Walks without failures\<close>

lemma fetched_labels:
  assumes "reach opts ls s" "page s \<noteq> 0"
  shows "\<forall>p x. fetched s p = Some x \<longrightarrow> p = 1 \<and> FirstFetched (Inr x) \<in> set ls \<or> FetchReturned p (Inr x) \<in> set ls"
  using assms
proof (induction rule: walk_induct)
  case (move ls s l s')
  from move(3) show ?case by (cases rule: walk_step.cases) (use move(4) in auto)
qed (simp split: if_splits)

text \<open>The first short page that was noticed, and what a goroutine saw of it.\<close>

lemma short_seen:
  assumes "1 \<le> MaxPages opts" "reach opts ls s" "page s \<noteq> 0"
  shows "(shortPage s \<noteq> 0 \<longrightarrow> 2 \<le> shortPage s
      \<and> (\<exists>x. fetched s (shortPage s) = Some x \<and> int (length x) < PerPage opts))
    \<and> (\<forall>p n. pcs s p = Checking n \<longrightarrow> n = 0 \<or> n = shortPage s)" (is "?short s \<and> ?seen s")
  using assms(2,3)
proof (induction rule: walk_induct)
  case (move ls s l s')
  note range = page_goroutine [OF assms(1) move(1,2)]
  have carry: "fetched s p = Some x" if "pcs s p = Fetched x" for p x
    using data_flow [OF assms(1) move(1,2)] that by simp
  have none: "fetched s p = None" if "pcs s p = Fetching" for p
    using data_flow [OF assms(1) move(1,2)] range [of p] that by simp
  have two: "2 \<le> p" if "pcs s p = Fetched x" for p x using range [of p] that by simp
  have "?short s'"
    using move(3) by (cases rule: walk_step.cases) (use move(4) carry none two in auto)
  moreover have "?seen s'"
    using move(3) by (cases rule: walk_step.cases) (use move(4) in auto)
  ultimately show ?case by simp
qed simp

text \<open>The environment of a walk that meets no trouble: the fetch function answers page \<open>p\<close> with
  \<open>f p\<close>, no callback fails and the caller does not cancel.\<close>

definition well_behaved :: "(nat \<Rightarrow> 'a list) \<Rightarrow> 'a label \<Rightarrow> bool" where
  "well_behaved f l \<longleftrightarrow> (case l of
       FirstFetched r \<Rightarrow> r = Inr (f 1)
     | FetchReturned p r \<Rightarrow> r = Inr (f p)
     | CallbackReturned r \<Rightarrow> r = None
     | CallerCancels \<Rightarrow> False
     | _ \<Rightarrow> True)"

lemma no_failure:
  assumes "1 \<le> MaxPages opts" "reach opts ls s" "page s \<noteq> 0" "list_all (well_behaved f) ls"
  shows "firstErr s = None" "\<not> aborted s" "walkCtx_Err s = None" "pcs s p \<noteq> Erred e" "pcs s p \<noteq> Failing e"
    "pcs s p \<noteq> Aborting" "pcs s p \<noteq> Cancelling" "fetched s p = Some x \<Longrightarrow> x = f p"
    "deliverMu s \<noteq> Some (a, DFail e)" "deliverMu s \<noteq> Some (a, DCancel)"
proof -
  have good: "well_behaved f l" if "l \<in> set ls" for l using assms(4) that by (simp add: list_all_iff)
  have nc: "\<not> caused ls e" for e
    using good by (fastforce simp: caused_def well_behaved_def)
  note ec = error_causes [OF assms(2,3)] and fo = failing_order [OF assms(1-3)]
  show fe: "firstErr s = None" using ec nc by (cases "firstErr s") auto
  then show ab: "\<not> aborted s" using fo by auto
  have "\<not> caller_cancelled s" using reach_cancelled [OF assms(2)] good by (fastforce simp: well_behaved_def)
  then show "walkCtx_Err s = None" using fo ab by (auto simp: walkCtx_Err_def)
  show "pcs s p \<noteq> Erred e" using ec good by (fastforce simp: well_behaved_def)
  show "pcs s p \<noteq> Failing e" using ec nc by blast
  show "pcs s p \<noteq> Aborting" using fo fe by blast
  show "pcs s p \<noteq> Cancelling" using fo ab by blast
  show "deliverMu s \<noteq> Some (a, DFail e)" using ec nc by blast
  show "deliverMu s \<noteq> Some (a, DCancel)" using fo ab by blast
  show "fetched s p = Some x \<Longrightarrow> x = f p"
    using fetched_labels [OF assms(2,3)] good by (fastforce simp: well_behaved_def)
qed

text \<open>In such a walk every page up to the short page is dispatched, recorded and delivered.\<close>

definition recorded :: "'a page_pc \<Rightarrow> bool" where
  "recorded pc \<longleftrightarrow> (\<exists>n. pc = Reporting n) \<or> pc = DrainLock \<or> pc = Draining"

definition left :: "'a page_pc \<Rightarrow> bool" where
  "left pc \<longleftrightarrow> pc = Leaving \<or> pc = Released \<or> pc = Gone"

lemma recorded_simps [simp]:
  "recorded (Reporting n)" "recorded DrainLock" "recorded Draining" "\<not> recorded Idle" "\<not> recorded Spawned"
  "\<not> recorded (Checking n)" "\<not> recorded Fetching" "\<not> recorded (Erred e)" "\<not> recorded (Fetched xs)"
  "\<not> recorded (Counting xs)" "\<not> recorded (Recording xs n)" "\<not> recorded Leaving" "\<not> recorded Released" "\<not> recorded Gone"
  by (auto simp: recorded_def)

lemma left_simps [simp]:
  "left Leaving" "left Released" "left Gone" "\<not> left Idle" "\<not> left Spawned" "\<not> left (Checking n)" "\<not> left Fetching"
  "\<not> left (Erred e)" "\<not> left (Fetched xs)" "\<not> left (Counting xs)" "\<not> left (Recording xs n)" "\<not> left (Reporting n)"
  "\<not> left DrainLock" "\<not> left Draining"
  by (auto simp: left_def)

lemma no_drain_at_end:
  assumes "1 \<le> MaxPages opts" "reach opts ls s" "page s \<noteq> 0" "main s = Final \<or> (\<exists>r. main s = Returned r)"
  shows "deliverMu s = None"
proof (rule ccontr)
  assume "deliverMu s \<noteq> None"
  then obtain a d where ad: "deliverMu s = Some (a, d)" by auto
  show False
  proof (cases a)
    case MainActor
    with drain_main [OF assms(1-3), of d] ad assms(4) show False by auto
  next
    case (PageActor p)
    with drain_page [OF assms(1-3), of p d] ad have "pcs s p = Draining" by simp
    with wait_all [OF assms(1-3), of p] assms(4) show False by auto
  qed
qed

lemma smooth_walk:
  assumes "1 \<le> MaxPages opts" "reach opts ls s" "page s \<noteq> 0"
  shows "list_all (well_behaved f) ls \<longrightarrow>
    (\<forall>p. 2 \<le> p \<and> p < page s \<longrightarrow> pcs s p \<noteq> Idle)
    \<and> (\<forall>p. recorded (pcs s p) \<longrightarrow> ready s p)
    \<and> (\<forall>p. left (pcs s p) \<longrightarrow> ready s p \<or> (shortPage s \<noteq> 0 \<and> shortPage s < p))
    \<and> (main s = Dispatch \<or> main s = Select \<or> max_page opts < page s \<or> (shortPage s \<noteq> 0 \<and> shortPage s < page s))
    \<and> (main s = Final \<or> (\<exists>r. main s = Returned r) \<or> deliverMu s = Some (MainActor, DUnlock) \<longrightarrow>
         max_page opts \<le> delivered s \<or> \<not> ready s (Suc (delivered s)))"
    (is "_ \<longrightarrow> ?disp s \<and> ?rec s \<and> ?left s \<and> ?main s \<and> ?end s")
  using assms(2,3)
proof (induction rule: walk_induct)
  case (move ls s l s')
  show ?case
  proof
    assume "list_all (well_behaved f) (ls @ [l])"
    then have wb: "list_all (well_behaved f) ls" by simp
    from move(4) wb have disp: "?disp s" and rec: "?rec s" and lft: "?left s" and main: "?main s" and end_: "?end s"
      by auto
    note nf = no_failure [OF assms(1) move(1,2) wb]
    note hold = drain_page [OF assms(1) move(1,2)]
    have idle: "pcs s (page s) = Idle" using page_goroutine [OF assms(1) move(1,2), of "page s"] by blast
    have seen: "n = 0 \<or> n = shortPage s" if "pcs s p = Checking n" for p n
      using short_seen [OF assms(1) move(1,2)] that by blast
    have rd: "ready s p" if "deliverMu s = Some (PageActor p, d)" for p d
      using hold [OF that] rec by (metis recorded_simps(3))
    have fd: "main s = FinalDrain" if "deliverMu s = Some (MainActor, d)" for d
      using drain_main [OF assms(1) move(1,2) that] .
    have busy: "main s \<notin> {FinalLock, FinalDrain, Final} \<and> (\<forall>r. main s \<noteq> Returned r)"
      if "pcs s p \<noteq> Idle" "pcs s p \<noteq> Gone" for p
      using wait_all [OF assms(1) move(1,2), of p] that by blast
    note free = no_drain_at_end [OF assms(1) move(1,2)]
    have "?disp s'"
      using move(3) by (cases rule: walk_step.cases) (use disp nf in \<open>auto simp: less_Suc_eq\<close>)
    moreover have "?rec s'"
      using move(3) by (cases rule: walk_step.cases) (use rec idle nf in \<open>auto dest: hold\<close>)
    moreover have "?left s'"
      using move(3)
    proof (cases rule: walk_step.cases)
      case (skip p sh)
      with nf(3) seen [OF skip(3)] lft show ?thesis by (auto simp: shouldSkip_def split: if_splits)
    next
      case (unlock_page p)
      with rd lft show ?thesis by auto
    qed (use lft rec nf idle in auto)
    moreover have "?main s'"
      using move(3) by (cases rule: walk_step.cases) (use main nf in \<open>auto dest: fd\<close>)
    moreover have "?end s'"
      using move(3)
    proof (cases rule: walk_step.cases)
      case (recording p items n)
      with busy [of p] fd show ?thesis by auto
    qed (use end_ nf free in \<open>auto dest: fd\<close>)
    ultimately show "?disp s' \<and> ?rec s' \<and> ?left s' \<and> ?main s' \<and> ?end s'" by simp
  qed
qed simp

lemma first_ok:
  assumes "reach opts ls s" "page s \<noteq> 0"
  shows "\<forall>x. FirstFetched (Inl x) \<notin> set ls"
  using assms
proof (induction rule: walk_induct)
  case (starts ls items cc rep)
  then show ?case by auto
next
  case (move ls s l s')
  from move(3) have "l \<noteq> FirstFetched (Inl x)" for x by (cases rule: walk_step.cases) auto
  with move(4) show ?case by auto
qed

lemma returned_at_rest:
  assumes "1 \<le> MaxPages opts" "reach opts ls s" "page s \<noteq> 0" "main s = Returned r"
  shows returned_quiet: "pcs s p = Idle \<or> pcs s p = Gone" "deliverMu s = None"
proof -
  have q: "pcs s p = Idle \<or> pcs s p = Gone" for p
    using wait_all [OF assms(1-3)] assms(4) by blast
  then show "pcs s p = Idle \<or> pcs s p = Gone" .
  show "deliverMu s = None"
  proof (rule ccontr)
    assume "deliverMu s \<noteq> None"
    then obtain a d where ad: "deliverMu s = Some (a, d)" by auto
    show False
    proof (cases a)
      case MainActor
      with drain_main [OF assms(1-3), of d] ad assms(4) show False by simp
    next
      case (PageActor p)
      with drain_page [OF assms(1-3), of p d] ad quiet_pcs(13) [OF q] show False by blast
    qed
  qed
qed

end
