(* ===== verification/PageProgress.thy ===== *)
theory PageProgress
  imports PageWalk
begin

text \<open>
  Termination and progress of a page walk: a measure every step decreases, and a step that is
  possible in every state that has not returned.
\<close>

section \<open>The measure\<close>

fun pc_rank :: "'a page_pc \<Rightarrow> nat" where
  "pc_rank Idle = 30"
| "pc_rank Spawned = 29"
| "pc_rank (Checking n) = 28"
| "pc_rank Fetching = 27"
| "pc_rank (Erred e) = 6"
| "pc_rank (Failing e) = 5"
| "pc_rank Aborting = 4"
| "pc_rank Cancelling = 3"
| "pc_rank (Fetched items) = 24"
| "pc_rank (Counting items) = 23"
| "pc_rank (Recording items n) = 22"
| "pc_rank (Reporting n) = 21"
| "pc_rank DrainLock = 20"
| "pc_rank Draining = 3"
| "pc_rank Leaving = 2"
| "pc_rank Released = 1"
| "pc_rank Gone = 0"

fun drain_rank :: "(actor \<times> 'a drain_pc) option \<Rightarrow> nat" where
  "drain_rank None = 0"
| "drain_rank (Some (a, DLoop)) = 10"
| "drain_rank (Some (a, DPeek)) = 9"
| "drain_rank (Some (a, DCall n items)) = 8"
| "drain_rank (Some (a, DCommit n)) = 7"
| "drain_rank (Some (a, DFail e)) = 6"
| "drain_rank (Some (a, DAbort)) = 5"
| "drain_rank (Some (a, DCancel)) = 4"
| "drain_rank (Some (a, DUnlock)) = 1"

fun main_rank :: "nat \<Rightarrow> nat \<Rightarrow> 'a main_pc \<Rightarrow> nat" where
  "main_rank m pg FetchFirst = 2 * m + 22"
| "main_rank m pg (CallFirst items) = 2 * m + 21"
| "main_rank m pg Dispatch = 2 * (Suc m - pg) + 20"
| "main_rank m pg Select = 2 * (Suc m - pg) + 19"
| "main_rank m pg WaitAll = 18"
| "main_rank m pg FinalLock = 17"
| "main_rank m pg FinalDrain = 4"
| "main_rank m pg Final = 3"
| "main_rank m pg (Returned r) = 0"

text \<open>What is left to do: the sum over the pages, and everything else.\<close>

definition page_weight :: "PaginationOptions \<Rightarrow> 'a walk \<Rightarrow> nat \<Rightarrow> nat" where
  "page_weight opts s p = (if 2 \<le> p \<and> p \<le> max_page opts then pc_rank (pcs s p) else 0)"

definition pages_left :: "PaginationOptions \<Rightarrow> 'a walk \<Rightarrow> nat" where
  "pages_left opts s = (\<Sum>p\<le>max_page opts. page_weight opts s p)"

definition rest_left :: "PaginationOptions \<Rightarrow> 'a walk \<Rightarrow> nat" where
  "rest_left opts s = main_rank (max_page opts) (page s) (main s) + 12 * (max_page opts - delivered s)
     + drain_rank (deliverMu s) + (if caller_cancelled s then 0 else 1)"

lemma pages_left_move:
  assumes "\<And>q. q \<noteq> p \<Longrightarrow> pcs s' q = pcs s q"
  shows "pages_left opts s' + page_weight opts s p = pages_left opts s + page_weight opts s' p"
proof (cases "p \<le> max_page opts")
  case True
  have same: "sum (page_weight opts s') ({..max_page opts} - {p}) = sum (page_weight opts s) ({..max_page opts} - {p})"
    using assms by (intro sum.cong) (auto simp: page_weight_def)
  have "p \<in> {..max_page opts}" using True by simp
  then show ?thesis
    using sum.remove [of "{..max_page opts}" p "page_weight opts s"]
      sum.remove [of "{..max_page opts}" p "page_weight opts s'"] same
    by (simp add: pages_left_def)
next
  case False
  then have "pages_left opts s' = pages_left opts s"
    using assms unfolding pages_left_def by (intro sum.cong) (auto simp: page_weight_def)
  with False show ?thesis by (simp add: page_weight_def)
qed

text \<open>The drain never goes beyond the last page.\<close>

lemma drain_bound:
  assumes "reach opts ls s" "page s \<noteq> 0"
  shows "(\<forall>a. deliverMu s = Some (a, DPeek) \<longrightarrow> delivered s < max_page opts)
    \<and> (\<forall>a n items. deliverMu s = Some (a, DCall n items) \<longrightarrow> n = Suc (delivered s) \<and> n \<le> max_page opts)
    \<and> (\<forall>a n. deliverMu s = Some (a, DCommit n) \<longrightarrow> n = Suc (delivered s) \<and> n \<le> max_page opts)"
  using assms
proof (induction rule: walk_induct)
  case (move ls s l s')
  from move(3) show ?case by (cases rule: walk_step.cases) (use move(4) in auto)
qed simp

lemma delivered_bound:
  assumes "1 \<le> MaxPages opts" "reach opts ls s" "page s \<noteq> 0"
  shows "1 \<le> delivered s \<and> delivered s \<le> max_page opts"
  using assms(2,3)
proof (induction rule: walk_induct)
  case (starts ls items cc rep)
  with assms(1) show ?case by simp
next
  case (move ls s l s')
  from move(3) show ?case
    by (cases rule: walk_step.cases) (use move(4) drain_bound [OF move(1,2)] in auto)
qed

text \<open>The page whose counter a label moves.\<close>

definition mover :: "'a walk \<Rightarrow> 'a label \<Rightarrow> nat" where
  "mover s l = (case l of
       PageStep p \<Rightarrow> p
     | FetchReturned p r \<Rightarrow> p
     | AcquireSem \<Rightarrow> page s
     | DrainStep \<Rightarrow> (case deliverMu s of Some (PageActor p, d) \<Rightarrow> p | _ \<Rightarrow> 0)
     | _ \<Rightarrow> 0)"

lemma walk_step_moves:
  assumes "1 \<le> MaxPages opts" "reach opts ls s" "page s \<noteq> 0" "walk_step opts s l s'"
  shows "(\<forall>q. q \<noteq> mover s l \<longrightarrow> pcs s' q = pcs s q)
    \<and> rest_left opts s' + page_weight opts s' (mover s l) < rest_left opts s + page_weight opts s (mover s l)"
proof -
  have range: "2 \<le> p" "p \<le> max_page opts" if "pcs s p \<noteq> Idle" for p
    using page_goroutine [OF assms(1-3) that] by auto
  note r = page_range [OF assms(1-3)] and b = drain_bound [OF assms(2,3)]
  have hold: "2 \<le> p \<and> p \<le> max_page opts \<and> pcs s p = Draining" if "deliverMu s = Some (PageActor p, d)" for p d
    using drain_page [OF assms(1-3) that] range [of p] by simp
  have fd: "main s = FinalDrain" if "deliverMu s = Some (MainActor, d)" for d
    using drain_main [OF assms(1-3) that] .
  have idle: "pcs s (page s) = Idle" using page_goroutine [OF assms(1-3), of "page s"] by blast
  show ?thesis
    using assms(4)
  proof (cases rule: walk_step.cases)
    case acquire
    with r idle show ?thesis by (auto simp: mover_def rest_left_def page_weight_def)
  next
    case (unlock_page p)
    with hold [OF unlock_page(3)] show ?thesis by (auto simp: mover_def rest_left_def page_weight_def)
  next
    case unlock_main
    with fd show ?thesis by (auto simp: mover_def rest_left_def page_weight_def)
  next
    case (commit a n)
    with b show ?thesis by (auto simp: mover_def rest_left_def page_weight_def split: actor.splits)
  qed (use range r in \<open>auto simp: mover_def rest_left_def page_weight_def split: actor.splits\<close>)
qed

lemma walk_step_decreases:
  assumes "1 \<le> MaxPages opts" "reach opts ls s" "page s \<noteq> 0" "walk_step opts s l s'"
  shows "pages_left opts s' + rest_left opts s' < pages_left opts s + rest_left opts s"
  using walk_step_moves [OF assms] pages_left_move [of "mover s l" s' s opts] by fastforce

lemma prelude_step_decreases:
  assumes "prelude opts ls s" "step opts l s = Some s'" "1 \<le> MaxPages opts"
  shows "pages_left opts s' + rest_left opts s' < pages_left opts s + rest_left opts s"
proof -
  have *: "pcs s' = pcs s \<and> rest_left opts s' < rest_left opts s"
    using assms(1)
  proof cases
    case (at_start cc)
    show ?thesis
    proof (cases l)
      case (FirstFetched r)
      with at_start assms(2) show ?thesis
        by (cases r) (auto simp: step_def first_fetched_def walk_start_def rest_left_def)
    qed (use at_start assms(2) in \<open>auto simp: first_defs walk_start_def rest_left_def split: if_splits\<close>)
  next
    case (calling items rep cc)
    show ?thesis
    proof (cases l)
      case (CallbackReturned r)
      with calling assms(2,3) show ?thesis
        by (cases r) (auto simp: step_def callback_returned_def first_called_def prelude_defs rest_left_def)
    qed (use calling assms(2) in \<open>auto simp: first_defs prelude_defs rest_left_def split: if_splits\<close>)
  next
    case (failed e cc)
    with prelude_ended_step [where s = "walk_start\<lparr>caller_cancelled := cc\<rparr>" and opts = opts and l = l and s' = s' and cc = cc
        and r = "Some (Errorf ''githubkit: fetch page 1: %w'' [] [e])"] assms(2)
    show ?thesis by (cases cc) (auto simp: first_defs prelude_defs rest_left_def)
  next
    case (refused items e rep cc)
    with prelude_ended_step [where s = "calling_first items cc rep" and opts = opts and l = l and s' = s'
        and items = items and cc = cc and rep = rep and r = "Some (callback_error 1 e)"] assms(2)
    show ?thesis by (cases cc) (auto simp: first_defs prelude_defs rest_left_def)
  next
    case (finished items rep cc)
    with prelude_ended_step [where s = "calling_first items cc rep" and opts = opts and l = l and s' = s'
        and items = items and cc = cc and rep = rep and r = None] assms(2)
    show ?thesis by (cases cc) (auto simp: first_defs prelude_defs rest_left_def)
  qed
  then have "pages_left opts s' = pages_left opts s"
    unfolding pages_left_def by (intro sum.cong) (auto simp: page_weight_def)
  with * show ?thesis by simp
qed

lemma run_bounded:
  assumes "1 \<le> MaxPages opts" "reach opts ls (s :: 'a walk)"
  shows "length ls + pages_left opts s + rest_left opts s
    \<le> pages_left opts (walk_start :: 'a walk) + rest_left opts (walk_start :: 'a walk)"
  using assms(2)
proof (induction rule: reach.induct)
  case (move ls s l s')
  have "pages_left opts s' + rest_left opts s' < pages_left opts s + rest_left opts s"
  proof (cases "page s = 0")
    case True
    with reach_prelude [OF move(1)] have "prelude opts ls s" by simp
    from prelude_step_decreases [OF this move(2) assms(1)] show ?thesis .
  next
    case False
    with reach_prelude [OF move(1)] prelude_page [of opts ls s]
    have "main s \<noteq> FetchFirst" "\<And>items. main s \<noteq> CallFirst items" by auto
    from walk_step_decreases [OF assms(1) move(1) False step_walk_step [OF move(2) this]] show ?thesis .
  qed
  with move(3) show ?case by simp
qed simp

lemma start_left:
  assumes "1 \<le> MaxPages opts"
  shows "pages_left opts (walk_start :: 'a walk) + rest_left opts (walk_start :: 'a walk) \<le> 44 * max_page opts + 41"
proof -
  have "pages_left opts (walk_start :: 'a walk) \<le> (\<Sum>p\<le>max_page opts. 30)"
    unfolding pages_left_def by (intro sum_mono) (simp add: page_weight_def walk_start_def)
  then have "pages_left opts (walk_start :: 'a walk) \<le> 30 * max_page opts + 30" by simp
  moreover have "1 \<le> max_page opts" using assms by simp
  ultimately show ?thesis by (simp add: rest_left_def walk_start_def)
qed

section \<open>Progress\<close>

lemma drain_moves:
  assumes "deliverMu s = Some (a, d)" "\<And>items. main s \<noteq> CallFirst items"
  shows "\<exists>l s'. l \<noteq> CallerCancels \<and> step opts l s = Some s'"
proof (cases d)
  case (DCall n items)
  with assms have "step opts (CallbackReturned None) s \<noteq> None"
    by (auto simp: step_def callback_returned_def split: main_pc.splits)
  then show ?thesis by blast
qed (use assms(1) in \<open>auto simp: step_def drain_step_def Let_def intro!: exI [of _ DrainStep] split: actor.splits\<close>)

lemma goroutine_moves:
  assumes "1 \<le> MaxPages opts" "reach opts ls s" "page s \<noteq> 0" "pcs s p \<noteq> Idle" "pcs s p \<noteq> Gone"
  shows "\<exists>l s'. l \<noteq> CallerCancels \<and> step opts l s = Some s'"
proof -
  have nf: "\<And>items. main s \<noteq> CallFirst items"
    using reach_prelude [OF assms(2)] prelude_page [of opts ls s] assms(3) by auto
  consider "pcs s p = Fetching" | "pcs s p = Draining" | "pcs s p = DrainLock"
    | "pcs s p \<noteq> Fetching" "pcs s p \<noteq> Draining" "pcs s p \<noteq> DrainLock" by blast
  then show ?thesis
  proof cases
    case 1
    then have "step opts (FetchReturned p (Inr [])) s \<noteq> None" by (simp add: step_def fetch_returned_def)
    then show ?thesis by blast
  next
    case 2
    from page_drains [OF assms(1-3) this] drain_moves nf show ?thesis by blast
  next
    case 3
    show ?thesis
    proof (cases "deliverMu s")
      case None
      with 3 have "step opts (PageStep p) s \<noteq> None" by (simp add: step_def page_step_def)
      then show ?thesis by blast
    next
      case (Some ad)
      then show ?thesis using drain_moves nf by (cases ad) blast
    qed
  next
    case 4
    with assms(4,5) have "step opts (PageStep p) s \<noteq> None"
      by (cases "pcs s p") (simp_all add: step_def page_step_def Let_def)
    then show ?thesis by blast
  qed
qed

lemma prelude_progress:
  assumes "prelude opts ls s" "\<And>r. main s \<noteq> Returned r"
  shows "\<exists>l s'. l \<noteq> CallerCancels \<and> step opts l s = Some s'"
  using assms(1)
proof cases
  case (at_start cc)
  then have "step opts (FirstFetched (Inr [])) s \<noteq> None" by (simp add: step_def walk_start_def)
  then show ?thesis by blast
next
  case (calling items rep cc)
  then have "step opts (CallbackReturned None) s \<noteq> None"
    by (simp add: step_def callback_returned_def prelude_defs)
  then show ?thesis by blast
qed (use assms(2) in auto)

lemma select_progress:
  assumes "1 \<le> MaxPages opts" "1 \<le> Concurrency opts" "reach opts ls s" "page s \<noteq> 0" "main s = Select"
  shows "\<exists>l s'. l \<noteq> CallerCancels \<and> step opts l s = Some s'"
proof (cases "sem s < nat (Concurrency opts)")
  case True
  with assms(5) have "step opts AcquireSem s \<noteq> None" by (simp add: step_def select_acquire_def)
  then show ?thesis by blast
next
  case False
  have "holders s \<noteq> {}" using semaphore [OF assms(1-4)] False assms(2) by auto
  then obtain p where "holds_sem (pcs s p)" by (auto simp: holders_def)
  with goroutine_moves [OF assms(1,3,4), of p] show ?thesis by (auto simp: holds_sem_def)
qed

lemma walk_progress:
  assumes "1 \<le> MaxPages opts" "1 \<le> Concurrency opts" "reach opts ls s" "\<And>r. main s \<noteq> Returned r"
  shows "\<exists>l s'. l \<noteq> CallerCancels \<and> step opts l s = Some s'"
proof (cases "page s = 0")
  case True
  with reach_prelude [OF assms(3)] have "prelude opts ls s" by simp
  from prelude_progress [OF this assms(4)] show ?thesis .
next
  case False
  have nf: "main s \<noteq> FetchFirst" "\<And>items. main s \<noteq> CallFirst items"
    using reach_prelude [OF assms(3)] prelude_page [of opts ls s] False by auto
  have drain: ?thesis if "deliverMu s \<noteq> None" using that drain_moves nf(2) by fastforce
  have stepped: ?thesis if "step opts MainStep s \<noteq> None" using that by blast
  show ?thesis
  proof (cases "main s")
    case Select
    from select_progress [OF assms(1-3) False this] show ?thesis .
  next
    case WaitAll
    show ?thesis
    proof (cases "list_all (\<lambda>p. pcs s p = Idle \<or> pcs s p = Gone) [2..<Suc (max_page opts)]")
      case True
      with WaitAll show ?thesis by (intro stepped) (simp_all add: step_def main_step_def)
    next
      case idle: False
      then obtain p where "pcs s p \<noteq> Idle" "pcs s p \<noteq> Gone" unfolding list_all_iff by blast
      from goroutine_moves [OF assms(1,3) False this] show ?thesis .
    qed
  next
    case FinalLock
    then show ?thesis
      using drain by (cases "deliverMu s") (auto intro!: stepped simp: step_def main_step_def)
  next
    case FinalDrain
    with main_drains [OF assms(1,3) False] drain show ?thesis by auto
  qed (use nf assms(4) in \<open>auto intro!: stepped simp: step_def main_step_def\<close>)
qed

end
