(* ===== verification/PagePromises.thy ===== *)
theory PagePromises
  imports PageProgress
begin

text \<open>
  What \<open>FetchPages\<close> and \<open>StreamPages\<close> promise under every interleaving of their goroutines,
  and what they do not: concrete runs of the walk that end with pages missing, with pages beyond
  the end delivered, or with more pages buffered than the documentation allows.
\<close>

section \<open>Defaults\<close>

lemma resolved:
  assumes "resolve_pagination opts = Inr o'"
  shows "1 \<le> MaxPages o'" "1 \<le> PerPage o'" "1 \<le> Concurrency o'" "MaxPages o' = MaxPages opts"
  using assms by (auto simp: resolve_pagination_def Let_def defaultPerPage_def defaultConcurrency_def split: if_splits)

text \<open>A walk is refused exactly when \<open>MaxPages\<close> is not at least one, with an error that
  matches the sentinel; otherwise the other options are defaulted to positive values and the ones
  that were set are kept.\<close>

theorem resolve_pagination_validates:
  "case resolve_pagination opts of
     Inl e \<Rightarrow> MaxPages opts < 1 \<and> errors_Is e ErrInvalidPagination
   | Inr o' \<Rightarrow> 1 \<le> MaxPages opts \<and> o' = opts\<lparr>PerPage := (if PerPage opts \<le> 0 then 100 else PerPage opts),
       Concurrency := (if Concurrency opts \<le> 0 then 3 else Concurrency opts)\<rparr>"
  by (auto simp: resolve_pagination_def Let_def defaultPerPage_def defaultConcurrency_def errors_Is_def)

section \<open>Safety\<close>

text \<open>C2. Pages are delivered in order.  Whatever the interleaving, the fetch results, failures and
  cancellations, at every moment the calls of \<open>onPage\<close> are for pages 1, 2, 3, ... without gaps or
  repetitions, each with exactly the items the fetch of that page returned.\<close>

theorem pages_delivered_in_order:
  assumes "resolve_pagination opts = Inr o'" and "reach o' ls s"
  shows "map fst (calls s) = [1..<Suc (length (calls s))]
    \<and> list_all (\<lambda>(p, items). fetched s p = Some items) (calls s)"
proof (cases "page s = 0")
  case True
  with reach_prelude [OF assms(2)] have "prelude o' ls s" by simp
  then show ?thesis by cases (auto simp: prelude_defs)
next
  case False
  with delivery [OF resolved(1) [OF assms(1)] assms(2)] calls_fetched [OF resolved(1) [OF assms(1)] assms(2)]
  show ?thesis by blast
qed

text \<open>C21. The concurrency bound holds.  At every moment at most \<open>Concurrency\<close> fetches of pages
  beyond the first are in flight, all of pages between 2 and \<open>MaxPages\<close>.\<close>

theorem fetches_in_flight_bounded:
  assumes "resolve_pagination opts = Inr o'" and "reach o' ls s"
  shows "card {p. pcs s p = Fetching} \<le> nat (Concurrency o')
    \<and> {p. pcs s p = Fetching} \<subseteq> {2..max_page o'}"
proof (cases "page s = 0")
  case True
  with reach_prelude [OF assms(2)] have "prelude o' ls s" by simp
  then have "{p. pcs s p = Fetching} = {}" by cases (auto simp: prelude_defs)
  then show ?thesis by simp
next
  case False
  note r = resolved [OF assms(1)]
  have sub: "{p. pcs s p = Fetching} \<subseteq> holders s" by (auto simp: holders_def holds_sem_def)
  with semaphore [OF r(1,3) assms(2) False] have "card {p. pcs s p = Fetching} \<le> nat (Concurrency o')"
    using card_mono [of "holders s" "{p. pcs s p = Fetching}"] by linarith
  moreover have "{p. pcs s p = Fetching} \<subseteq> {2..max_page o'}"
    using page_goroutine [OF r(1) assms(2) False] by auto
  ultimately show ?thesis by simp
qed

text \<open>C3. A walk always comes to an end.  Every run has a bounded number of steps, linear in
  \<open>MaxPages\<close>, and as long as it has not returned some step other than the caller's cancellation
  is possible: the walk cannot deadlock while its fetches and callbacks return.\<close>

theorem walk_terminates:
  assumes "resolve_pagination opts = Inr o'" and "reach o' ls (s :: 'a walk)"
  shows "length ls \<le> 44 * max_page o' + 41
    \<and> (StreamPages_result s = None \<longrightarrow> (\<exists>l s'. l \<noteq> CallerCancels \<and> step o' l s = Some s'))"
proof -
  note r = resolved [OF assms(1)]
  have "length ls \<le> 44 * max_page o' + 41"
    using run_bounded [OF r(1) assms(2)] start_left [OF r(1), where 'a = 'a] by linarith
  moreover have "\<exists>l s'. l \<noteq> CallerCancels \<and> step o' l s = Some s'" if "StreamPages_result s = None"
    using walk_progress [OF r(1,3) assms(2)] that by (auto simp: StreamPages_result_def split: main_pc.splits)
  ultimately show ?thesis by blast
qed

text \<open>C20. Errors are reported and only real ones.  When a walk returns an error, a fetch or a
  callback failed and the error wraps its failure; when it returns none, no callback failed and
  every fetch that failed did so with \<open>context.Canceled\<close>.\<close>

theorem walk_errors_exact:
  assumes "resolve_pagination opts = Inr o'" and "reach o' ls (s :: 'a walk)" and "StreamPages_result s = Some r"
  shows "case r of
      Some e \<Rightarrow> caused ls e \<or> (\<exists>x. FirstFetched (Inl x) \<in> set ls \<and> e = Errorf ''githubkit: fetch page 1: %w'' [] [x])
    | None \<Rightarrow> (\<forall>x. FirstFetched (Inl x) \<notin> set ls) \<and> (\<forall>x. CallbackReturned (Some x) \<notin> set ls)
        \<and> (\<forall>p x. FetchReturned p (Inl x) \<in> set ls \<longrightarrow> errors_Is x (CtxError Canceled))"
proof (cases "page s = 0")
  case True
  with reach_prelude [OF assms(2)] have "prelude o' ls s" by simp
  then show ?thesis
    using assms(3) by cases (auto simp: prelude_defs StreamPages_result_def dest: caused_callback)
next
  case False
  note m = resolved(1) [OF assms(1)]
  have ret: "main s = Returned r" using assms(3) by (auto simp: StreamPages_result_def split: main_pc.splits)
  have r: "r = firstErr s" by (rule returned_err [OF m assms(2) False ret])
  note quiet = returned_quiet [OF m assms(2) False ret]
  have first: "FirstFetched (Inl x) \<notin> set ls" for x
    using first_ok [OF assms(2) False] by blast
  show ?thesis
  proof (cases r)
    case None
    have "firstErr s = None" using r None by simp
    with errors_reported [OF m assms(2) False] quiet(2) quiet_pcs [OF quiet(1)] None first show ?thesis by auto
  next
    case (Some e)
    then have "firstErr s = Some e" using r by simp
    with error_causes [OF assms(2) False] Some show ?thesis by auto
  qed
qed

section \<open>Completeness\<close>

text \<open>What a smooth walk has handed over when it returns: pages of \<open>f\<close> in order, up to the last page
  or at least to a short one.\<close>

definition handed_over :: "PaginationOptions \<Rightarrow> (nat \<Rightarrow> 'a list) \<Rightarrow> 'a list list \<Rightarrow> bool" where
  "handed_over opts f ps \<longleftrightarrow> ps = map f [1..<Suc (length ps)] \<and> length ps \<le> max_page opts
     \<and> (length ps = max_page opts \<or> (\<exists>q \<in> {1..length ps}. length (f q) < nat (PerPage opts)))"

lemma calls_are_pages:
  assumes "1 \<le> MaxPages opts" "reach opts ls s" "page s \<noteq> 0" "list_all (well_behaved f) ls"
  shows "map snd (calls s) = map f [1..<Suc (length (calls s))]"
proof -
  have "snd c = f (fst c)" if "c \<in> set (calls s)" for c
    using calls_fetched [OF assms(1-3)] no_failure(8) [OF assms] that by (auto simp: list_all_iff)
  then have "map snd (calls s) = map f (map fst (calls s))" by simp
  with delivery [OF assms(1-3)] show ?thesis by simp
qed

lemma smooth_prelude:
  assumes m: "1 \<le> MaxPages opts" and pre: "prelude opts ls s"
    and wb: "list_all (well_behaved f) ls" and ret: "main s = Returned r"
  shows "r = None \<and> handed_over opts f (map snd (calls s))"
proof -
  have good: "well_behaved f l" if "l \<in> set ls" for l using wb that by (simp add: list_all_iff)
  from pre show ?thesis
  proof cases
    case (finished items rep cc)
    then have "items = f 1" using good by (fastforce simp: well_behaved_def)
    with finished ret m show ?thesis by (auto simp: prelude_defs handed_over_def)
  qed (use good ret in \<open>fastforce simp: well_behaved_def prelude_defs\<close>)+
qed

lemma smooth_delivered:
  assumes m: "1 \<le> MaxPages opts" and r: "reach opts ls s" and p: "page s \<noteq> 0"
    and wb: "list_all (well_behaved f) ls" and ret: "main s = Returned r" and below: "\<not> max_page opts \<le> delivered s"
  shows "shortPage s \<noteq> 0 \<and> shortPage s \<le> delivered s"
proof -
  let ?d = "delivered s"
  have smooth: "max_page opts < page s \<or> (shortPage s \<noteq> 0 \<and> shortPage s < page s)"
    "max_page opts \<le> ?d \<or> \<not> ready s (Suc ?d)"
    "\<And>p. left (pcs s p) \<Longrightarrow> ready s p \<or> (shortPage s \<noteq> 0 \<and> shortPage s < p)"
    "\<And>p. 2 \<le> p \<Longrightarrow> p < page s \<Longrightarrow> pcs s p \<noteq> Idle"
    using smooth_walk [OF m r p, of f] wb ret by auto
  have "1 \<le> ?d" using delivered_bound [OF m r p] by simp
  show ?thesis
  proof (cases "Suc ?d < page s")
    case True
    with smooth(4) [of "Suc ?d"] returned_quiet(1) [OF m r p ret, of "Suc ?d"] \<open>1 \<le> ?d\<close>
    have "pcs s (Suc ?d) = Gone" by auto
    with smooth(2) below smooth(3) [of "Suc ?d"] show ?thesis by auto
  next
    case False
    with smooth(1) below show ?thesis by auto
  qed
qed

lemma smooth_handed_over:
  assumes m: "1 \<le> MaxPages opts" and r: "reach opts ls s"
    and wb: "list_all (well_behaved f) ls" and ret: "main s = Returned r"
  shows "r = None \<and> handed_over opts f (map snd (calls s))"
proof (cases "page s = 0")
  case True
  from smooth_prelude [OF m _ wb ret] reach_prelude [OF r] True show ?thesis by simp
next
  case False
  note nf = no_failure [OF m r False wb] and quiet = returned_quiet [OF m r False ret]
  have len: "length (calls s) = delivered s"
    using delivery [OF m r False] quiet(2) nf(2) by (simp add: drain_progress_def)
  have le: "delivered s \<le> max_page opts" using delivered_bound [OF m r False] by simp
  have short: "\<exists>q \<in> {1..delivered s}. length (f q) < nat (PerPage opts)" if "\<not> max_page opts \<le> delivered s"
  proof -
    note sp = smooth_delivered [OF m r False wb ret that]
    then obtain x where "fetched s (shortPage s) = Some x" "int (length x) < PerPage opts" "2 \<le> shortPage s"
      using short_seen [OF m r False] by blast
    with sp nf(8) show ?thesis by (intro bexI [of _ "shortPage s"]) auto
  qed
  then have "delivered s = max_page opts \<or> (\<exists>q \<in> {1..delivered s}. length (f q) < nat (PerPage opts))"
    using le by linarith
  with calls_are_pages [OF m r False wb] len le returned_err [OF m r False ret] nf(1) show ?thesis
    by (simp add: handed_over_def del: upt_Suc)
qed

text \<open>The abstract specification: fetch and hand over page after page until a short one or the cap.\<close>

fun sequential_walk :: "(nat \<Rightarrow> 'a list) \<Rightarrow> nat \<Rightarrow> nat \<Rightarrow> nat \<Rightarrow> 'a list list" where
  "sequential_walk f per 0 p = []"
| "sequential_walk f per (Suc n) p =
     f p # (if length (f p) < per then [] else sequential_walk f per n (Suc p))"

lemma sequential_walk_prefix:
  assumes "m \<le> n" "m = n \<or> (\<exists>q. p \<le> q \<and> q < p + m \<and> length (f q) < per)"
  shows "prefix (sequential_walk f per n p) (map f [p..<p + m])"
  using assms
proof (induction n arbitrary: p m)
  case (Suc n)
  then obtain m' where m: "m = Suc m'" "m' \<le> n" by (cases m) auto
  have up: "[p..<p + m] = p # [Suc p..<Suc p + m']" using m(1) by (simp add: upt_conv_Cons)
  show ?case
  proof (cases "length (f p) < per")
    case True
    then show ?thesis unfolding up by simp
  next
    case False
    then have "m' = n \<or> (\<exists>q. Suc p \<le> q \<and> q < Suc p + m' \<and> length (f q) < per)"
      using Suc.prems(2) m(1) by (metis Suc_leI add_Suc add_Suc_right le_neq_implies_less nat.inject)
    from Suc.IH [OF m(2) this] False show ?thesis unfolding up by simp
  qed
qed simp

text \<open>C5. The concurrent walk refines the sequential one.  For any fetch function without failures,
  page sizes included that no list endpoint has, the pages a walk hands to \<open>onPage\<close> begin with the
  very pages the sequential walk of that function hands over, one by one.  Whatever comes after
  them are the next pages in order, fetched although the sequential walk would have stopped at a
  short page, and \<open>MaxPages\<close> is never exceeded: a walk without a short page is the sequential walk.\<close>

theorem walk_refines_sequential:
  assumes "resolve_pagination opts = Inr o'" and "reach o' ls s"
    and "list_all (well_behaved f) ls" and "StreamPages_result s = Some r"
  shows "r = None \<and> (\<exists>beyond. map snd (calls s)
    = sequential_walk f (nat (PerPage o')) (max_page o') 1
      @ map f [Suc (length (sequential_walk f (nat (PerPage o')) (max_page o') 1))..<Suc beyond]
    \<and> beyond \<le> max_page o')"
proof -
  let ?seq = "sequential_walk f (nat (PerPage o')) (max_page o') 1" and ?ps = "map snd (calls s)"
  have ret: "main s = Returned r" using assms(4) by (auto simp: StreamPages_result_def split: main_pc.splits)
  from smooth_handed_over [OF resolved(1) [OF assms(1)] assms(2,3) ret]
  have r: "r = None" and ps: "?ps = map f [1..<Suc (length ?ps)]" "length ?ps \<le> max_page o'"
    "length ?ps = max_page o' \<or> (\<exists>q \<in> {1..length ?ps}. length (f q) < nat (PerPage o'))"
    unfolding handed_over_def by blast+
  have "prefix ?seq (map f [1..<1 + length ?ps])"
    using ps(2,3) by (intro sequential_walk_prefix) auto
  then obtain zs where zs: "?ps = ?seq @ zs" using ps(1) by (auto simp: prefix_def)
  have "zs = drop (length ?seq) ?ps" using zs by simp
  also have "\<dots> = map f [Suc (length ?seq)..<Suc (length ?ps)]"
    by (subst ps(1)) (simp only: drop_map drop_upt plus_1_eq_Suc)
  finally show ?thesis using r zs ps(2) by metis
qed

text \<open>A list endpoint: nothing comes after a short page.\<close>

locale page_source =
  fixes f :: "nat \<Rightarrow> 'a list" and per :: nat
  assumes beyond_short: "1 \<le> p \<Longrightarrow> length (f p) < per \<Longrightarrow> p < q \<Longrightarrow> f q = []"
begin

lemma beyond_short_concat:
  assumes "1 \<le> k" "length (f k) < per" "k \<le> d" "d \<le> m"
  shows "concat (map f [1..<Suc d]) = concat (map f [1..<Suc m])"
proof -
  have "[1..<Suc m] = [1..<Suc d] @ [Suc d..<Suc m]"
    using upt_add_eq_append [of 1 "Suc d" "m - d"] assms(4) by (simp del: upt_Suc)
  moreover have "concat (map f [Suc d..<Suc m]) = []"
    using beyond_short [OF assms(1,2)] assms(3) by (simp add: concat_eq_Nil_conv del: upt_Suc)
  ultimately show ?thesis by simp
qed

lemma handed_over_all:
  assumes "handed_over opts f ps" "per = nat (PerPage opts)"
  shows "concat ps = concat (map f [1..<Suc (max_page opts)])"
proof -
  have "concat (map f [1..<Suc (length ps)]) = concat (map f [1..<Suc (max_page opts)])"
    using assms beyond_short_concat [of _ "length ps" "max_page opts"] by (auto simp: handed_over_def simp del: upt_Suc)
  then show ?thesis using assms(1) unfolding handed_over_def by metis
qed

end

text \<open>The pages of a collection, \<open>per\<close> items each.\<close>

definition pages_of :: "'a list \<Rightarrow> nat \<Rightarrow> nat \<Rightarrow> 'a list" where
  "pages_of xs per p = take per (drop ((p - 1) * per) xs)"

interpretation endpoint: page_source "pages_of xs per" per for xs :: "'a list" and per
proof
  fix p q :: nat
  assume p: "1 \<le> p" "length (pages_of xs per p) < per" "p < q"
  then have "length xs < (p - 1) * per + per" by (auto simp: pages_of_def split: if_splits)
  also have "\<dots> = p * per" using p(1) by (simp add: mult_eq_if)
  also have "\<dots> \<le> (q - 1) * per" using p(3) by (intro mult_le_mono1) simp
  finally show "pages_of xs per q = []" by (simp add: pages_of_def)
qed

lemma concat_pages_of: "concat (map (pages_of xs per) [1..<Suc m]) = take (m * per) xs"
proof (induction m)
  case (Suc m)
  have "pages_of xs per (Suc m) = take per (drop (m * per) xs)" by (simp add: pages_of_def)
  then have "concat (map (pages_of xs per) [1..<Suc (Suc m)]) = take (m * per) xs @ take per (drop (m * per) xs)"
    using Suc upt_Suc_append [of 1 "Suc m"] by (simp del: upt_Suc)
  also have "\<dots> = take (m * per + per) xs" by (simp add: take_add)
  finally show ?case by (simp add: add.commute)
qed simp

text \<open>C1. \<open>FetchPages\<close> returns the collection.  If page \<open>p\<close> of the endpoint is the \<open>p\<close>th
  slice of a list and nothing fails or is cancelled, then under every interleaving the result is
  exactly the first \<open>MaxPages * PerPage\<close> items in order, with no error.\<close>

theorem FetchPages_returns_collection:
  assumes "resolve_pagination opts = Inr o'" and "reach o' ls s"
    and "list_all (well_behaved (pages_of xs (nat (PerPage o')))) ls"
    and "FetchPages_result s = Some r"
  shows "r = Inr (take (max_page o' * nat (PerPage o')) xs)"
proof -
  obtain r' where ret: "main s = Returned r'"
    using assms(4) by (auto simp: FetchPages_result_def split: main_pc.splits)
  note smooth = smooth_handed_over [OF resolved(1) [OF assms(1)] assms(2,3) ret]
  from endpoint.handed_over_all [OF conjunct2 [OF smooth] refl] smooth ret assms(4)
  show ?thesis by (simp only: concat_pages_of) (simp add: FetchPages_result_def)
qed

end
