(* ===== verification/PageReports.thy ===== *)
theory PageReports
  imports PagePromises
begin

text \<open>
  What \<open>OnProgress\<close> is told.  A goroutine adds its items to the shared total, records the page, and
  only then reports, so reports arrive in any order; together they are complete.
\<close>

section \<open>The running total\<close>

definition counted :: "'a walk \<Rightarrow> nat \<Rightarrow> bool" where
  "counted s p \<longleftrightarrow> ready s p \<or> (\<exists>xs n. pcs s p = Recording xs n)"

definition page_size :: "'a walk \<Rightarrow> nat \<Rightarrow> nat" where
  "page_size s p = (case fetched s p of None \<Rightarrow> 0 | Some items \<Rightarrow> length items)"

definition counted_total :: "PaginationOptions \<Rightarrow> 'a walk \<Rightarrow> nat" where
  "counted_total opts s = (\<Sum>p\<in>{1..max_page opts}. if counted s p then page_size s p else 0)"

lemma counted_total_cong:
  assumes "\<And>p. counted s' p = counted s p" "\<And>p. counted s p \<Longrightarrow> page_size s' p = page_size s p"
  shows "counted_total opts s' = counted_total opts s"
  unfolding counted_total_def by (rule sum.cong) (auto simp: assms)

lemma counted_total_more:
  assumes "\<And>q. counted s' q = (q = p \<or> counted s q)" "\<And>q. page_size s' q = page_size s q"
    and "\<not> counted s p" "1 \<le> p" "p \<le> max_page opts"
  shows "counted_total opts s' = counted_total opts s + page_size s p"
proof -
  let ?A = "{1..max_page opts}" and ?f = "\<lambda>s q. if counted s q then page_size s q else 0"
  have p: "p \<in> ?A" using assms(4,5) by simp
  have rest: "sum (?f s') (?A - {p}) = sum (?f s) (?A - {p})"
    by (rule sum.cong) (simp_all add: assms(1,2))
  have "sum (?f s') ?A = ?f s' p + sum (?f s') (?A - {p})" by (rule sum.remove [OF _ p]) simp
  moreover have "sum (?f s) ?A = ?f s p + sum (?f s) (?A - {p})" by (rule sum.remove [OF _ p]) simp
  ultimately show ?thesis
    using rest assms(1-3) by (simp add: counted_total_def)
qed

text \<open>Where a page is between its fetch and its report.\<close>

lemma stages:
  assumes "1 \<le> MaxPages opts" "reach opts ls s" "page s \<noteq> 0"
  shows "(\<forall>p. 2 \<le> p \<and> ready s p \<longrightarrow> recorded (pcs s p) \<or> left (pcs s p))
    \<and> (\<forall>p. recorded (pcs s p) \<longrightarrow> ready s p)
    \<and> (\<forall>p. fetched s p \<noteq> None \<longrightarrow> ready s p \<or> (\<exists>items. carries (pcs s p) items))"
    (is "?placed s \<and> ?rec s \<and> ?kept s")
  using assms(2,3)
proof (induction rule: walk_induct)
  case (move ls s l s')
  note range = page_goroutine [OF assms(1) move(1,2)] and hold = drain_page [OF assms(1) move(1,2)]
  have idle: "pcs s (page s) = Idle" using range [of "page s"] by blast
  from move(4) have placed: "?placed s" and rec: "?rec s" and kept: "?kept s" by auto
  have holdr: "deliverMu s = Some (PageActor p, d) \<Longrightarrow> ready s p" for p d using hold [of p d] rec by simp
  have fresh: "2 \<le> p \<Longrightarrow> \<not> recorded (pcs s p) \<Longrightarrow> \<not> left (pcs s p) \<Longrightarrow> \<not> ready s p" for p
    using placed by blast
  have two: "pcs s p \<noteq> Idle \<Longrightarrow> 2 \<le> p" for p using range [of p] by blast
  have "?placed s'"
    using move(3)
  proof (cases rule: walk_step.cases)
    case acquire
    then show ?thesis using placed idle range page_range [OF assms(1) move(1,2)]
      by (auto simp: recorded_def left_def)
  qed (use placed in \<open>auto simp: recorded_def left_def dest: hold\<close>)
  moreover have "?rec s'"
    using move(3) by (cases rule: walk_step.cases) (use rec in \<open>auto simp: recorded_def dest: hold\<close>)
  moreover have "?kept s'"
    using move(3) by (cases rule: walk_step.cases) (use kept idle holdr rec in \<open>auto dest: hold\<close>)
  ultimately show ?case by simp
qed (simp add: prelude_defs)

lemma running_total:
  assumes "1 \<le> MaxPages opts" "reach opts ls s" "page s \<noteq> 0"
  shows "itemsFetched s = counted_total opts s"
  using assms(2,3)
proof (induction rule: walk_induct)
  case (starts ls items cc rep)
  have "counted (begun items cc rep) p \<longleftrightarrow> p = 1" for p by (simp add: counted_def)
  then have "counted_total opts (begun items cc rep)
      = (\<Sum>p\<in>{1..max_page opts}. if p = 1 then length items else 0)"
    unfolding counted_total_def by (intro sum.cong) (auto simp: page_size_def)
  then show ?case using assms(1) by simp
next
  case (move ls s l s')
  note range = page_goroutine [OF assms(1) move(1,2)] and hold = drain_page [OF assms(1) move(1,2)]
  note flow = data_flow [OF assms(1) move(1,2)] and st = stages [OF assms(1) move(1,2)]
  have idle: "pcs s (page s) = Idle" using range [of "page s"] by blast
  have early: "\<not> counted s p" if "pcs s p = Fetching \<or> pcs s p = Counting items" for p items
    using st range [of p] that by (auto simp: counted_def recorded_def left_def)
  show ?case
    using move(3)
  proof (cases rule: walk_step.cases)
    case (counting p items n)
    have sz: "page_size s p = length items" using flow counting by (simp add: page_size_def)
    have "counted_total opts s' = counted_total opts s + page_size s p"
      by (rule counted_total_more)
        (use counting early [of p items] range [of p] in \<open>auto simp: counted_def page_size_def\<close>)
    with counting move(4) sz show ?thesis by simp
  next
    case (fetch_ok p items)
    then have "counted_total opts s' = counted_total opts s"
      using early [of p] by (intro counted_total_cong) (auto simp: counted_def page_size_def)
    with fetch_ok move(4) show ?thesis by simp
  next
    case (recording p items n)
    then have "counted_total opts s' = counted_total opts s"
      by (intro counted_total_cong) (auto simp: counted_def page_size_def split: if_splits)
    with recording move(4) show ?thesis by simp
  next
    case (unlock_page p)
    with hold have "pcs s p = Draining" by blast
    with unlock_page have "counted_total opts s' = counted_total opts s"
      by (intro counted_total_cong) (auto simp: counted_def page_size_def split: if_splits)
    with unlock_page move(4) show ?thesis by simp
  qed (use move(4) idle in \<open>auto intro!: counted_total_cong [symmetric] simp: counted_def page_size_def
      split: if_splits dest: hold\<close>)
qed


section \<open>The reports\<close>

text \<open>The invariant of a walk with \<open>OnProgress\<close> set: recorded pages are reported once, with a total
  between the page's own size and the running total, and the running total is reported or on its
  way.\<close>

definition reported :: "'a walk \<Rightarrow> nat \<Rightarrow> bool" where
  "reported s p \<longleftrightarrow> p \<in> fst ` set (reports s)"

definition on_its_way :: "'a walk \<Rightarrow> nat \<Rightarrow> nat \<Rightarrow> bool" where
  "on_its_way s p c \<longleftrightarrow> (\<exists>xs. pcs s p = Recording xs c) \<or> pcs s p = Reporting c"

definition reports_ok :: "PaginationOptions \<Rightarrow> 'a walk \<Rightarrow> bool" where
  "reports_ok opts s \<longleftrightarrow> distinct (map fst (reports s))
    \<and> (\<forall>p. reported s p \<longleftrightarrow> ready s p \<and> (\<forall>n. pcs s p \<noteq> Reporting n))
    \<and> (\<forall>(p, n, c) \<in> set (reports s). n = max_page opts \<and> page_size s p \<le> c \<and> c \<le> itemsFetched s)
    \<and> (\<forall>p c. on_its_way s p c \<longrightarrow> page_size s p \<le> c \<and> c \<le> itemsFetched s)
    \<and> ((\<exists>p n. (p, n, itemsFetched s) \<in> set (reports s)) \<or> (\<exists>p. on_its_way s p (itemsFetched s)))"

lemma reports_okI:
  assumes "distinct (map fst (reports s))"
    and "\<And>p. reported s p \<longleftrightarrow> ready s p \<and> (\<forall>n. pcs s p \<noteq> Reporting n)"
    and "\<And>p n c. (p, n, c) \<in> set (reports s) \<Longrightarrow> n = max_page opts \<and> page_size s p \<le> c \<and> c \<le> itemsFetched s"
    and "\<And>p c. on_its_way s p c \<Longrightarrow> page_size s p \<le> c \<and> c \<le> itemsFetched s"
    and "(\<exists>p n. (p, n, itemsFetched s) \<in> set (reports s)) \<or> (\<exists>p. on_its_way s p (itemsFetched s))"
  shows "reports_ok opts s"
  using assms unfolding reports_ok_def by blast

lemma reports_okD:
  assumes "reports_ok opts s"
  shows "distinct (map fst (reports s))"
    and "reported s p \<longleftrightarrow> ready s p \<and> (\<forall>n. pcs s p \<noteq> Reporting n)"
    and "(p, n, c) \<in> set (reports s) \<Longrightarrow> n = max_page opts \<and> page_size s p \<le> c \<and> c \<le> itemsFetched s"
    and "on_its_way s p c \<Longrightarrow> page_size s p \<le> c \<and> c \<le> itemsFetched s"
    and "(\<exists>p n. (p, n, itemsFetched s) \<in> set (reports s)) \<or> (\<exists>p. on_its_way s p (itemsFetched s))"
  using assms unfolding reports_ok_def by blast+

text \<open>One lemma per step that matters, and one for the steps that do not.\<close>

lemma reports_ok_frame:
  assumes "reports_ok opts s" "reports s' = reports s" "itemsFetched s' = itemsFetched s"
    and "fetched s' = fetched s" "ready s' = ready s" "\<And>p c. on_its_way s' p c = on_its_way s p c"
    and "\<And>p n. pcs s' p = Reporting n \<longleftrightarrow> pcs s p = Reporting n"
  shows "reports_ok opts s'"
  using assms by (simp add: reports_ok_def reported_def page_size_def)

lemma reports_ok_counting:
  assumes "reports_ok opts s" "pcs s p = Counting items" "fetched s p = Some items"
  shows "reports_ok opts (goto p (Recording items (itemsFetched s + length items))
    (s\<lparr>itemsFetched := itemsFetched s + length items\<rparr>))"
    (is "reports_ok opts ?s'")
proof (rule reports_okI)
  note ok = reports_okD [OF assms(1)]
  show "distinct (map fst (reports ?s'))" using ok(1) by simp
  show "reported ?s' q \<longleftrightarrow> ready ?s' q \<and> (\<forall>n. pcs ?s' q \<noteq> Reporting n)" for q
    using ok(2) assms(2) by (auto simp: reported_def)
  show "n = max_page opts \<and> page_size ?s' q \<le> c \<and> c \<le> itemsFetched ?s'" if "(q, n, c) \<in> set (reports ?s')" for q n c
    using ok(3) [of q n c] that by (simp add: page_size_def)
  show "page_size ?s' q \<le> c \<and> c \<le> itemsFetched ?s'" if "on_its_way ?s' q c" for q c
    using ok(4) [of q c] that assms(3) by (auto simp: on_its_way_def page_size_def split: if_splits)
  show "(\<exists>q n. (q, n, itemsFetched ?s') \<in> set (reports ?s')) \<or> (\<exists>q. on_its_way ?s' q (itemsFetched ?s'))"
    by (auto simp: on_its_way_def)
qed

lemma reports_ok_recording:
  assumes "reports_ok opts s" "pcs s p = Recording items n" "\<not> ready s p"
  shows "reports_ok opts (goto p (Reporting n)
    (s\<lparr>ready := (ready s)(p := True), pending := (pending s)(p := items)\<rparr>))"
    (is "reports_ok opts ?s'")
proof (rule reports_okI)
  note ok = reports_okD [OF assms(1)]
  have ow: "on_its_way ?s' q c \<longleftrightarrow> on_its_way s q c" for q c using assms(2) by (auto simp: on_its_way_def)
  show "distinct (map fst (reports ?s'))" using ok(1) by simp
  show "reported ?s' q \<longleftrightarrow> ready ?s' q \<and> (\<forall>n. pcs ?s' q \<noteq> Reporting n)" for q
    using ok(2) assms(2,3) by (auto simp: reported_def)
  show "m = max_page opts \<and> page_size ?s' q \<le> c \<and> c \<le> itemsFetched ?s'" if "(q, m, c) \<in> set (reports ?s')" for q m c
    using ok(3) [of q m c] that by (simp add: page_size_def)
  show "page_size ?s' q \<le> c \<and> c \<le> itemsFetched ?s'" if "on_its_way ?s' q c" for q c
    using ok(4) that unfolding ow by (simp add: page_size_def)
  show "(\<exists>q m. (q, m, itemsFetched ?s') \<in> set (reports ?s')) \<or> (\<exists>q. on_its_way ?s' q (itemsFetched ?s'))"
    using ok(5) unfolding ow by simp
qed

lemma reports_ok_reporting:
  assumes "reports_ok opts s" "pcs s p = Reporting n" "ready s p" "OnProgress opts"
  shows "reports_ok opts (goto p DrainLock (reportProgress opts p n s))" (is "reports_ok opts ?s'")
proof (rule reports_okI)
  note ok = reports_okD [OF assms(1)]
  have s': "reports ?s' = reports s @ [(p, max_page opts, n)]" using assms(4) by (simp add: reportProgress_def)
  have ow: "on_its_way s q c \<longleftrightarrow> on_its_way ?s' q c \<or> q = p \<and> c = n" for q c
    using assms(2) by (auto simp: on_its_way_def)
  have "\<not> reported s p" using ok(2) assms(2) by blast
  then show "distinct (map fst (reports ?s'))" using ok(1) s' by (auto simp: reported_def)
  show "reported ?s' q \<longleftrightarrow> ready ?s' q \<and> (\<forall>n. pcs ?s' q \<noteq> Reporting n)" for q
    using ok(2) assms(2,3) s' by (auto simp: reported_def)
  show "m = max_page opts \<and> page_size ?s' q \<le> c \<and> c \<le> itemsFetched ?s'" if "(q, m, c) \<in> set (reports ?s')" for q m c
    using ok(3) [of q m c] ok(4) [of q c] ow [of q c] that s' by (auto simp: page_size_def)
  show "page_size ?s' q \<le> c \<and> c \<le> itemsFetched ?s'" if "on_its_way ?s' q c" for q c
    using ok(4) [of q c] ow that by (simp add: page_size_def)
  show "(\<exists>q m. (q, m, itemsFetched ?s') \<in> set (reports ?s')) \<or> (\<exists>q. on_its_way ?s' q (itemsFetched ?s'))"
    using ok(5) unfolding ow s' by auto
qed

lemma reports_ok_fetch:
  assumes "reports_ok opts s" "pcs s p = Fetching" "\<not> ready s p"
  shows "reports_ok opts (goto p (Fetched items) (s\<lparr>fetched := (fetched s)(p := Some items)\<rparr>))"
    (is "reports_ok opts ?s'")
proof (rule reports_okI)
  note ok = reports_okD [OF assms(1)]
  have ow: "on_its_way ?s' q c \<longleftrightarrow> on_its_way s q c" for q c using assms(2) by (auto simp: on_its_way_def)
  have nw: "\<not> on_its_way s p c" for c using assms(2) by (simp add: on_its_way_def)
  have nr: "\<not> reported s p" using ok(2) assms(3) by blast
  have sz: "page_size ?s' q = page_size s q" if "q \<noteq> p" for q using that by (simp add: page_size_def)
  show "distinct (map fst (reports ?s'))" using ok(1) by simp
  show "reported ?s' q \<longleftrightarrow> ready ?s' q \<and> (\<forall>n. pcs ?s' q \<noteq> Reporting n)" for q
    using ok(2) assms(2) by (auto simp: reported_def)
  show "m = max_page opts \<and> page_size ?s' q \<le> c \<and> c \<le> itemsFetched ?s'" if "(q, m, c) \<in> set (reports ?s')" for q m c
  proof -
    have "q \<noteq> p" using that nr by (force simp: reported_def)
    with ok(3) [of q m c] that show ?thesis by (simp add: page_size_def)
  qed
  show "page_size ?s' q \<le> c \<and> c \<le> itemsFetched ?s'" if "on_its_way ?s' q c" for q c
  proof -
    have "on_its_way s q c" using that ow by simp
    with nw have "q \<noteq> p" by blast
    with ok(4) [OF \<open>on_its_way s q c\<close>] sz show ?thesis by simp
  qed
  show "(\<exists>q m. (q, m, itemsFetched ?s') \<in> set (reports ?s')) \<or> (\<exists>q. on_its_way ?s' q (itemsFetched ?s'))"
    using ok(5) unfolding ow by simp
qed

lemma reports_kept:
  assumes "1 \<le> MaxPages opts" "OnProgress opts" "reach opts ls s" "page s \<noteq> 0"
  shows "reports_ok opts s"
  using assms(3,4)
proof (induction rule: walk_induct)
  case (starts ls items cc rep)
  then show ?case
    by (intro reports_okI) (auto simp: first_report_def assms(2) reported_def on_its_way_def page_size_def)
next
  case (move ls s l s')
  note range = page_goroutine [OF assms(1) move(1,2)] and hold = drain_page [OF assms(1) move(1,2)]
  note flow = data_flow [OF assms(1) move(1,2)] and st = stages [OF assms(1) move(1,2)]
  have idle: "pcs s (page s) = Idle" using range [of "page s"] by blast
  have early: "\<not> ready s p" if "pcs s p = Fetching \<or> pcs s p = Recording xs n" for p xs n
    using st range [of p] that by (auto simp: recorded_def left_def)
  show ?case
    using move(3)
  proof (cases rule: walk_step.cases)
    case (counting p items n)
    with reports_ok_counting [OF move(4)] flow show ?thesis by simp
  next
    case (recording p items n)
    with reports_ok_recording [OF move(4)] early show ?thesis by blast
  next
    case (reporting p n)
    with st have "ready s p" by (simp add: recorded_def)
    with reports_ok_reporting [OF move(4) reporting(3) _ assms(2)] reporting show ?thesis by simp
  next
    case (fetch_ok p items)
    with reports_ok_fetch [OF move(4)] early show ?thesis by blast
  qed (intro reports_ok_frame [OF move(4)]; use idle in \<open>auto simp: on_its_way_def split: if_splits dest: hold\<close>)+
qed

definition items_total :: "PaginationOptions \<Rightarrow> 'a walk \<Rightarrow> nat" where
  "items_total opts s = (\<Sum>p\<in>{1..max_page opts}. page_size s p)"

text \<open>C22. Progress reports add up.  When a walk with \<open>OnProgress\<close> has returned, every page whose fetch
  succeeded was reported exactly once, each report names the page cap and a total between the page's
  own size and the number of items fetched, and one report names that number itself.  The order of
  the reports is not fixed.\<close>

theorem progress_reports_complete:
  assumes "resolve_pagination opts = Inr o'" and "OnProgress o'" and "reach o' ls s"
    and "StreamPages_result s = Some r"
  shows "distinct (map fst (reports s))
    \<and> set (map fst (reports s)) = {p. fetched s p \<noteq> None}
    \<and> list_all (\<lambda>(p, n, c). n = max_page o' \<and> page_size s p \<le> c \<and> c \<le> items_total o' s) (reports s)
    \<and> (reports s \<noteq> [] \<longrightarrow> items_total o' s \<in> set (map (snd \<circ> snd) (reports s)))"
proof (cases "page s = 0")
  case True
  note m = resolved(1) [OF assms(1)]
  have one: "(\<Sum>p\<in>{1..max_page o'}. page_size s p) = page_size s 1"
    if "\<And>p. p \<noteq> 1 \<Longrightarrow> page_size s p = 0"
    using m that by (subst sum.remove [of _ 1]) auto
  from True reach_prelude [OF assms(3)] have "prelude o' ls s" by simp
  then show ?thesis
  proof cases
    case (failed e cc)
    then show ?thesis by (simp add: walk_start_def)
  qed (use assms(2,4) one in \<open>auto simp: prelude_defs StreamPages_result_def first_report_def items_total_def page_size_def
      split: if_splits\<close>)
next
  case False
  note m = resolved(1) [OF assms(1)]
  have ret: "main s = Returned r" using assms(4) by (auto simp: StreamPages_result_def split: main_pc.splits)
  note q = quiet_pcs [OF returned_quiet(1) [OF m assms(3) False ret]]
  note rk = reports_kept [OF m assms(2,3) False] and st = stages [OF m assms(3) False]
    and flow = data_flow [OF m assms(3) False]
  have "\<not> carries (pcs s p) items" for p items using q by (simp add: carries_def)
  with st flow have ready: "ready s p \<longleftrightarrow> fetched s p \<noteq> None" for p by blast
  then have "reported s p \<longleftrightarrow> fetched s p \<noteq> None" for p using reports_okD(2) [OF rk] q by simp
  then have which: "set (map fst (reports s)) = {p. fetched s p \<noteq> None}"
    unfolding set_map reported_def by blast
  have "counted s p \<longleftrightarrow> fetched s p \<noteq> None" for p using ready q by (simp add: counted_def)
  then have "itemsFetched s = items_total o' s"
    unfolding running_total [OF m assms(3) False] counted_total_def items_total_def
    by (intro sum.cong) (auto simp: page_size_def)
  moreover have "\<not> on_its_way s p c" for p c using q by (simp add: on_its_way_def)
  ultimately have "\<exists>p n. (p, n, items_total o' s) \<in> set (reports s)" and
    sums: "list_all (\<lambda>(p, n, c). n = max_page o' \<and> page_size s p \<le> c \<and> c \<le> items_total o' s) (reports s)"
    using reports_okD(3,5) [OF rk] by (auto simp: list_all_iff)
  then have "items_total o' s \<in> set (map (snd \<circ> snd) (reports s))" by force
  with reports_okD(1) [OF rk] which sums show ?thesis by blast
qed

end
