(* ===== verification/PageRuns.thy ===== *)
theory PageRuns
  imports PageReports
begin

text \<open>
  Concrete walks.  The first is a smooth one, at which the promises of \<open>PagePromises\<close> are
  instantiated; the others are interleavings with results that the documentation of
  \<open>src/pagination.go\<close> rules out.
\<close>

section \<open>A small walk\<close>

definition three_pages :: PaginationOptions where
  "three_pages = \<lparr>MaxPages = 3, PerPage = 1, Concurrency = 2, OnProgress = False\<rparr>"

definition start_page :: "nat \<Rightarrow> nat label list" where
  "start_page p = [MainStep, AcquireSem, PageStep p, PageStep p]"

definition record_page :: "nat \<Rightarrow> nat list \<Rightarrow> nat label list" where
  "record_page p items = FetchReturned p (Inr items) # replicate 4 (PageStep p)"

definition deliver_page :: "nat label list" where
  "deliver_page = [DrainStep, DrainStep, CallbackReturned None, DrainStep]"

definition leave_page :: "nat \<Rightarrow> nat label list" where
  "leave_page p = [PageStep p, PageStep p]"

definition first_page :: "nat list \<Rightarrow> nat label list" where
  "first_page items = [FirstFetched (Inr items), CallbackReturned None]"

text \<open>Pages 2 and 3 run concurrently and page 3 completes first.\<close>

definition smooth_labels :: "nat label list" where
  "smooth_labels = first_page [5] @ start_page 2 @ start_page 3
     @ record_page 3 [] @ [PageStep 3, DrainStep, DrainStep, DrainStep] @ leave_page 3
     @ record_page 2 [6] @ [PageStep 2] @ deliver_page @ deliver_page @ [DrainStep, DrainStep] @ leave_page 2
     @ [MainStep, MainStep, MainStep, DrainStep, DrainStep, MainStep]"

text \<open>The same start over a collection of one item: page 3 was dispatched before page 2 came back.\<close>

definition early_end_labels :: "nat label list" where
  "early_end_labels = first_page [5] @ start_page 2 @ start_page 3
     @ record_page 2 [] @ [PageStep 2] @ deliver_page @ [DrainStep, DrainStep, DrainStep] @ leave_page 2
     @ record_page 3 [] @ [PageStep 3] @ deliver_page @ [DrainStep, DrainStep] @ leave_page 3
     @ [MainStep, MainStep, MainStep, DrainStep, DrainStep, MainStep]"

lemma three_pages_resolved: "resolve_pagination three_pages = Inr three_pages"
  by (simp add: resolve_pagination_def three_pages_def)

lemma smooth_run:
  obtains s where "reach three_pages smooth_labels s" "FetchPages_result s = Some (Inr [5, 6])"
    "StreamPages_result s = Some None" "calls s = [(1, [5]), (2, [6]), (3, [])]"
proof -
  have "map_option (\<lambda>s. (FetchPages_result s, StreamPages_result s, calls s)) (run three_pages smooth_labels walk_start)
      = Some (Some (Inr [5, 6]), Some None, [(1, [5]), (2, [6]), (3, [])])"
    by code_simp
  then show ?thesis using that run_reach by (auto simp: map_option_case split: option.splits)
qed

lemma smooth_well_behaved:
  "list_all (well_behaved (pages_of [5, 6] (nat (PerPage three_pages)))) smooth_labels"
  by (simp add: smooth_labels_def first_page_def start_page_def record_page_def deliver_page_def leave_page_def
      three_pages_def well_behaved_def pages_of_def numeral_eq_Suc)

theorem pages_delivered_in_order_witness:
  "\<exists>s. reach three_pages smooth_labels s \<and> map fst (calls s) = [1, 2, 3]"
proof -
  obtain s where s: "reach three_pages smooth_labels s" "calls s = [(1, [5]), (2, [6]), (3, [])]"
    using smooth_run by blast
  from pages_delivered_in_order [OF three_pages_resolved s(1)] s(2) s(1) show ?thesis
    by (intro exI [of _ s]) simp
qed

theorem fetches_in_flight_bounded_witness:
  "\<exists>s. reach three_pages smooth_labels s \<and> card {p. pcs s p = Fetching} \<le> 2"
proof -
  obtain s where s: "reach three_pages smooth_labels s" using smooth_run by blast
  from fetches_in_flight_bounded [OF three_pages_resolved s] s show ?thesis
    by (intro exI [of _ s]) (simp add: three_pages_def)
qed

theorem walk_terminates_witness: "length smooth_labels \<le> 173"
proof -
  obtain s where s: "reach three_pages smooth_labels s" using smooth_run by blast
  from walk_terminates [OF three_pages_resolved s] show ?thesis by (simp add: three_pages_def)
qed

theorem walk_errors_exact_witness:
  "\<forall>x. CallbackReturned (Some x) \<notin> set smooth_labels"
proof -
  obtain s where s: "reach three_pages smooth_labels s" "StreamPages_result s = Some None" using smooth_run by blast
  from walk_errors_exact [OF three_pages_resolved s] show ?thesis by simp
qed

theorem FetchPages_returns_collection_witness:
  "\<exists>s. reach three_pages smooth_labels s \<and> FetchPages_result s = Some (Inr (take 3 [5, 6]))"
proof -
  obtain s where s: "reach three_pages smooth_labels s" "FetchPages_result s = Some (Inr [5, 6])" using smooth_run by blast
  from FetchPages_returns_collection [OF three_pages_resolved s(1) smooth_well_behaved s(2)] s show ?thesis
    by (intro exI [of _ s]) (simp add: three_pages_def)
qed

text \<open>Page 2 is short; the empty page 3 is handed over as well.\<close>

theorem walk_refines_sequential_witness:
  "\<exists>s. reach three_pages early_end_labels s \<and> map snd (calls s) = [[5], [], []]
    \<and> sequential_walk (pages_of [5 :: nat] 1) 1 3 1 = [[5], []]
    \<and> (\<exists>beyond. map snd (calls s) = sequential_walk (pages_of [5 :: nat] 1) 1 3 1 @ map (pages_of [5 :: nat] 1) [3..<Suc beyond])"
proof -
  have "map_option (\<lambda>s. (StreamPages_result s, calls s)) (run three_pages early_end_labels walk_start)
      = Some (Some None, [(1, [5]), (2, []), (3, [])])"
    by code_simp
  then obtain s where s: "reach three_pages early_end_labels s" "StreamPages_result s = Some None"
    "calls s = [(1, [5]), (2, []), (3, [])]"
    using run_reach by (auto simp: map_option_case split: option.splits)
  have seq: "sequential_walk (pages_of [5 :: nat] 1) 1 3 1 = [[5], []]" by code_simp
  have per: "nat (PerPage three_pages) = 1" "max_page three_pages = 3" by (simp_all add: three_pages_def)
  have wb: "list_all (well_behaved (pages_of [5] 1)) early_end_labels" by code_simp
  from walk_refines_sequential [OF three_pages_resolved s(1) wb s(2), unfolded per]
  obtain beyond where "map snd (calls s) = sequential_walk (pages_of [5] 1) 1 3 1
      @ map (pages_of [5] 1) [Suc (length (sequential_walk (pages_of [5 :: nat] 1) 1 3 1))..<Suc beyond]"
    by blast
  moreover have "Suc (length (sequential_walk (pages_of [5 :: nat] 1) 1 3 1)) = 3" unfolding seq by simp
  ultimately have "\<exists>beyond. map snd (calls s)
      = sequential_walk (pages_of [5] 1) 1 3 1 @ map (pages_of [5] 1) [3..<Suc beyond]"
    by metis
  with s seq show ?thesis by (intro exI [of _ s]) simp
qed

text \<open>Pages 2 and 3 add their items in this order, but page 3 reports first: the reported totals are
  1, 3 and then 2.\<close>

definition watched :: PaginationOptions where
  "watched = three_pages\<lparr>OnProgress := True\<rparr>"

definition late_report_labels :: "nat label list" where
  "late_report_labels = first_page [5] @ start_page 2 @ start_page 3
     @ [FetchReturned 2 (Inr [6]), PageStep 2, PageStep 2] @ record_page 3 [7] @ [PageStep 2, PageStep 2]
     @ [PageStep 3] @ deliver_page @ deliver_page @ [DrainStep, DrainStep] @ leave_page 3
     @ [PageStep 2, DrainStep, DrainStep] @ leave_page 2
     @ [MainStep, MainStep, MainStep, DrainStep, DrainStep, MainStep]"

theorem progress_reports_complete_witness:
  "\<exists>s. reach watched late_report_labels s \<and> StreamPages_result s = Some None
    \<and> reports s = [(1, 3, 1), (3, 3, 3), (2, 3, 2)] \<and> {p. fetched s p \<noteq> None} = {1, 2, 3}
    \<and> items_total watched s = 3"
proof -
  have "map_option (\<lambda>s. (StreamPages_result s, reports s)) (run watched late_report_labels walk_start)
      = Some (Some None, [(1, 3, 1), (3, 3, 3), (2, 3, 2)])"
    by code_simp
  then obtain s where s: "reach watched late_report_labels s" "StreamPages_result s = Some None"
    "reports s = [(1, 3, 1), (3, 3, 3), (2, 3, 2)]"
    using run_reach by (auto simp: map_option_case split: option.splits)
  have o': "resolve_pagination watched = Inr watched" "OnProgress watched"
    by (simp_all add: resolve_pagination_def watched_def three_pages_def)
  note all = progress_reports_complete [OF o' s(1,2)]
  then have "{p. fetched s p \<noteq> None} = {1, 2, 3}" using s(3) by auto
  moreover have "items_total watched s = 3" using all s(3) by auto
  ultimately show ?thesis using s by blast
qed

section \<open>Cancellation by the caller\<close>

lemmas step_defs = step_def first_fetched_def first_called_def main_step_def select_acquire_def select_done_def
  callback_returned_def fetch_returned_def drain_step_def walkCtx_Err_def

text \<open>C35. A cancelled walk can report success with items missing.  For every configuration of at
  least two pages: page 1 is full, no fetch fails, the caller cancels before page 2 is dispatched,
  and \<open>FetchPages\<close> returns page 1 alone with a nil error.\<close>

theorem caller_cancellation_truncates:
  assumes "2 \<le> MaxPages o'" and "PerPage o' \<le> int (length items)"
  shows "\<exists>ls s. reach o' ls s \<and> list_all (\<lambda>l. l = CallerCancels \<or> well_behaved (\<lambda>p. items) l) ls
    \<and> FetchPages_result s = Some (Inr items)"
proof -
  let ?ls = "[FirstFetched (Inr items), CallbackReturned None, CallerCancels, MainStep, SeeDone, MainStep, MainStep,
    DrainStep, DrainStep, DrainStep, MainStep]"
  have "\<exists>s. run o' ?ls walk_start = Some s \<and> FetchPages_result s = Some (Inr items)"
    using assms by (simp add: step_defs walk_start_def FetchPages_result_def Let_def list_all_iff)
  then obtain s where "run o' ?ls walk_start = Some s" "FetchPages_result s = Some (Inr items)" by blast
  moreover have "list_all (\<lambda>l. l = CallerCancels \<or> well_behaved (\<lambda>p. items) l) ?ls" by (simp add: well_behaved_def)
  ultimately show ?thesis using run_reach by blast
qed

theorem caller_cancellation_truncates_witness:
  "\<exists>ls s. reach three_pages ls s \<and> FetchPages_result s = Some (Inr [7 :: nat])"
  using caller_cancellation_truncates [of three_pages "[7 :: nat]"] by (fastforce simp: three_pages_def)

text \<open>C37. A cancelled fetch of an earlier page is taken for the end of the collection.  For every
  configuration of at least three pages and two workers, a full page 1, a short page 3 and an error
  \<open>x\<close> that wraps \<open>context.Canceled\<close>: page 3 can come back while page 2 is in flight, the caller
  cancel, page 2's fetch fail with \<open>x\<close>, and \<open>FetchPages\<close> return page 1 alone with a nil error.  The
  check does not compare the failed page with the short one.\<close>

theorem cancelled_earlier_page_swallowed:
  assumes "3 \<le> MaxPages o'" "2 \<le> Concurrency o'" "PerPage o' \<le> int (length items)"
    and "int (length short) < PerPage o'" "errors_Is x (CtxError Canceled)"
  shows "\<exists>ls s. reach o' ls s \<and> FetchReturned 2 (Inl x) \<in> set ls \<and> FetchReturned 3 (Inr short) \<in> set ls
    \<and> FetchPages_result s = Some (Inr items)"
proof -
  let ?ls = "[FirstFetched (Inr items), CallbackReturned None, MainStep, AcquireSem, PageStep 2, PageStep 2,
    MainStep, AcquireSem, PageStep 3, PageStep 3]
    @ [FetchReturned 3 (Inr short), PageStep 3, PageStep 3, PageStep 3, PageStep 3, PageStep 3,
       DrainStep, DrainStep, DrainStep, PageStep 3, PageStep 3]
    @ [CallerCancels, FetchReturned 2 (Inl x), PageStep 2, PageStep 2, PageStep 2]
    @ [MainStep, MainStep, MainStep, DrainStep, DrainStep, DrainStep, MainStep]"
  have "3 \<le> max_page o'" using assms(1) by simp
  with assms have "\<exists>s. run o' ?ls walk_start = Some s \<and> FetchPages_result s = Some (Inr items)"
    by (simp add: step_defs page_step_def shouldSkip_def walk_start_def FetchPages_result_def Let_def list_all_iff)
  then obtain s where "run o' ?ls walk_start = Some s" "FetchPages_result s = Some (Inr items)" by blast
  moreover have "FetchReturned 2 (Inl x) \<in> set ?ls" "FetchReturned 3 (Inr short) \<in> set ?ls" by simp_all
  ultimately show ?thesis using run_reach by blast
qed

theorem cancelled_earlier_page_swallowed_witness:
  "\<exists>ls s. reach three_pages ls s \<and> FetchReturned 2 (Inl (CtxError Canceled)) \<in> set ls
    \<and> FetchReturned 3 (Inr []) \<in> set ls \<and> FetchPages_result s = Some (Inr [7 :: nat])"
  by (rule cancelled_earlier_page_swallowed) (simp_all add: three_pages_def errors_Is_def)

section \<open>Pages beyond a short page\<close>

text \<open>Pages beyond a short page are delivered.  Page 2 comes back short while page 3 is in flight;
  page 3 is not cancelled, and \<open>onPage\<close> is called for it.\<close>

theorem page_beyond_short_delivered:
  "\<exists>ls s. reach three_pages ls s \<and> FetchReturned 2 (Inr []) \<in> set ls
    \<and> StreamPages_result s = Some None \<and> calls s = [(1, [7 :: nat]), (2, []), (3, [8])]"
proof -
  let ?ls = "first_page [7] @ start_page 2 @ start_page 3
    @ record_page 2 [] @ [PageStep 2] @ deliver_page @ [DrainStep, DrainStep, DrainStep] @ leave_page 2
    @ record_page 3 [8] @ [PageStep 3] @ deliver_page @ [DrainStep, DrainStep] @ leave_page 3
    @ [MainStep, MainStep, MainStep, DrainStep, DrainStep, MainStep]"
  have "map_option (\<lambda>s. (StreamPages_result s, calls s)) (run three_pages ?ls walk_start)
      = Some (Some None, [(1, [7]), (2, []), (3, [8])])"
    by code_simp
  then obtain s where "run three_pages ?ls walk_start = Some s" "StreamPages_result s = Some None"
    "calls s = [(1, [7]), (2, []), (3, [8])]"
    by (auto simp: map_option_case split: option.splits)
  moreover have "FetchReturned 2 (Inr []) \<in> set ?ls" by (simp add: record_page_def)
  ultimately show ?thesis using run_reach by blast
qed

text \<open>A failure beyond the end fails the walk.  Page 2 is short, so the collection is complete,
  but the fetch of page 3 already in flight fails and \<open>FetchPages\<close> returns its error instead of
  the collection.\<close>

theorem failure_beyond_short_fails_walk:
  "\<exists>ls s. reach three_pages ls s \<and> FetchReturned 2 (Inr []) \<in> set ls
    \<and> calls s = [(1, [7 :: nat]), (2, [])]
    \<and> FetchPages_result s = Some (Inl (fetch_error 3 ErrAPIUnavailable))"
proof -
  let ?ls = "first_page [7] @ start_page 2 @ start_page 3
    @ record_page 2 [] @ [PageStep 2] @ deliver_page @ [DrainStep, DrainStep, DrainStep] @ leave_page 2
    @ [FetchReturned 3 (Inl ErrAPIUnavailable), PageStep 3, PageStep 3, PageStep 3, PageStep 3] @ leave_page 3
    @ [MainStep, MainStep, MainStep, DrainStep, DrainStep, MainStep]"
  have "map_option (\<lambda>s. (FetchPages_result s, calls s)) (run three_pages ?ls walk_start)
      = Some (Some (Inl (fetch_error 3 ErrAPIUnavailable)), [(1, [7]), (2, [])])"
    by code_simp
  then obtain s where "run three_pages ?ls walk_start = Some s"
    "FetchPages_result s = Some (Inl (fetch_error 3 ErrAPIUnavailable))" "calls s = [(1, [7]), (2, [])]"
    by (auto simp: map_option_case split: option.splits)
  moreover have "FetchReturned 2 (Inr []) \<in> set ?ls" by (simp add: record_page_def)
  ultimately show ?thesis using run_reach by blast
qed

section \<open>Buffered pages\<close>

definition six_pages :: PaginationOptions where
  "six_pages = \<lparr>MaxPages = 6, PerPage = 1, Concurrency = 2, OnProgress = False\<rparr>"

definition park_page :: "nat \<Rightarrow> nat label list" where
  "park_page p = start_page p @ record_page p [p] @ [PageStep p, DrainStep, DrainStep, DrainStep] @ leave_page p"

text \<open>The buffer is not bounded by the concurrency.  With \<open>Concurrency\<close> 2 and page 2 slow, the
  other worker fetches pages 3, 4, 5 and 6, and four pages wait for delivery at once: the semaphore
  is released when a page is fetched, not when it is delivered.\<close>

theorem buffer_exceeds_concurrency:
  "\<exists>ls s. reach six_pages ls s \<and> list_all (well_behaved (\<lambda>p. [p])) ls
    \<and> filter (\<lambda>p. ready s p \<and> delivered s < p) [2..<7] = [3, 4, 5, 6]
    \<and> map (pending s) [3, 4, 5, 6] = [[3], [4], [5], [6 :: nat]]"
proof -
  let ?ls = "first_page [1] @ start_page 2 @ park_page 3 @ park_page 4 @ park_page 5 @ park_page 6"
  have "map_option (\<lambda>s. (filter (\<lambda>p. ready s p \<and> delivered s < p) [2..<7], map (pending s) [3, 4, 5, 6]))
      (run six_pages ?ls walk_start) = Some ([3, 4, 5, 6], [[3], [4], [5], [6]])"
    by code_simp
  then obtain s where "run six_pages ?ls walk_start = Some s"
    "filter (\<lambda>p. ready s p \<and> delivered s < p) [2..<7] = [3, 4, 5, 6]"
    "map (pending s) [3, 4, 5, 6] = [[3], [4], [5], [6]]"
    by (auto simp: map_option_case split: option.splits)
  moreover have "list_all (well_behaved (\<lambda>p. [p])) ?ls"
    by code_simp
  ultimately show ?thesis by (intro exI conjI) (rule run_reach)
qed

end
