(* ===== verification/Spec2Isabelle.thy ===== *)
theory Spec2Isabelle
  imports AppKernel BurstVerdicts ErrorTexts KernelPacing PacingBursts PageRuns
begin

text \<open>
  A model of go-github-kit (package \<open>githubkit\<close> under \<open>src/\<close> and \<open>src/appauth/\<close>): a
  go-github client whose HTTP stack is gated by the rate limit, retried, paced and cached.

  The program.  \<open>New\<close> (\<open>src/client.go\<close>) resolves functional options
  (\<open>src/options.go\<close>) and stacks RoundTrippers, outermost first: gate, feed, retry, ETag
  cache, pacing, base transport.  A prober with its own stack (retry, feed, pacing, base) fetches
  \<open>GET /rate_limit\<close> when no budget is known.  Gate, feed and prober share one
  \<open>RateLimitCache\<close>.  Beside the stack stand \<open>ClassifyError\<close>, the concurrent page walk of
  \<open>FetchPages\<close> and \<open>StreamPages\<close>, and package \<open>appauth\<close>, whose transports can serve
  as a kernel's base transport.

  Theories and the code they model.
  \<^item> \<open>Prelude\<close>: 64-bit integers with wrap-around, times and durations in nanoseconds,
    \<open>strconv\<close>; \<open>Net\<close>: headers, URLs, contexts, requests and responses, the part of the
    standard library the kit uses; \<open>TimeFormats\<close>: \<open>Duration.String\<close> and RFC 3339 with
    readers that invert them; \<open>Sha256\<close>: \<open>crypto/sha256\<close> and \<open>encoding/hex\<close>.
  \<^item> \<open>RateLimit\<close>: \<open>src/ratelimit.go\<close>.  Header parsing round-trips; a history of
    updates and decrements leaves the cache where it should, floored at zero.
  \<^item> \<open>Errors\<close>: \<open>src/errors.go\<close>.  Errors are trees; classification follows the status
    table, is idempotent and keeps the root cause, and it drops wrappers around API errors.
  \<^item> \<open>World\<close>: the state a request runs in (clock, shared cache, last probe, reserved slot,
    network state) with a ghost log of what went on the wire, and the interfaces \<open>clock_laws\<close>,
    \<open>round_tripper\<close> and \<open>leaf_transport\<close>.  How late timers and goroutines are, which ready branch a
    \<open>select\<close> takes and how much of a request body a transport reads is a function in the world
    that nothing writes; the theorems hold for every such function.
  \<^item> \<open>Retry\<close>: the retry layer of \<open>src/transport.go\<close>, refined by the protocol
    \<open>retry_protocol\<close>; what it sends, waits and closes, and its schedule.  The request body is a
    reader that reading and sending use up, so that resetting it matters.
  \<^item> \<open>Gate\<close>: feed and gate of \<open>src/transport.go\<close>, the prober of \<open>src/probe.go\<close>, one call at a
    time.  \<open>Bursts\<close>: the same code with any number of calls interleaved, an executable transition
    system whose steps are the critical sections of the cache's and the prober's mutexes; probes are
    spaced, and the floor is overshot by at most one request per goroutine.  \<open>BurstRuns\<close>: a call
    that runs alone refines the function of \<open>Gate\<close>, no call waits for another, and concrete runs
    that overshoot the floor.  \<open>BurstVerdicts\<close>: the budget a call has read decides its fate under
    every interleaving, and a late answer reopens the gate.  \<open>GateMessages\<close>: the text of
    \<open>resetTooFarError\<close>, which read back tells the true wait, reset and limit.
    \<open>ErrorTexts\<close>: the texts of all errors; a classified error's message tells its root cause.
  \<^item> \<open>Pacing\<close>: \<open>src/secondary.go\<close>, one request at a time; \<open>PacingBursts\<close>: any number of
    goroutines in the layer, interleaved; it bounds the rate on the wire, and a request that moves
    without delay does what the function does.  \<open>ETag\<close>: the cache policy of
    \<open>src/etag.go\<close>; \<open>Config\<close>: options, defaults and resolution.
  \<^item> \<open>KernelStack\<close>: \<open>New\<close> and the accessors.  The assembled stack is again a
    RoundTripper, and a call no layer has reason to touch is one round trip of the base transport.  \<open>KernelCosts\<close>: the cost
    of one call is bounded, by one law read as the number of requests on the wire and as the time
    spent waiting (\<open>AppKernel\<close> reads it as the number of anonymous requests).  \<open>KernelPacing\<close>:
    an invariant the base transport keeps is kept by the whole stack; hence the requests of a paced
    kernel, retries and probes included, keep their rate on the wire up to the lateness of timers.
  \<^item> \<open>Pagination\<close>: \<open>walkPages\<close> of \<open>src/pagination.go\<close> as an executable transition
    system, one step per atomic operation, with labels for the goroutine that moves and for the
    answers of fetch and callback.  \<open>PageWalk\<close>: the step relation as rules, induction over
    reachable states and the invariants; \<open>PageProgress\<close>: the measure and progress;
    \<open>PagePromises\<close>: order, bounds, termination, errors and completeness under every
    interleaving, against a sequential specification; \<open>PageReports\<close>: the running total and what
    \<open>OnProgress\<close> is told; \<open>PageRuns\<close>: concrete interleavings, among them those that lose pages after a cancellation or exceed the documented buffer.
  \<^item> \<open>Jwt\<close> and \<open>AppAuthTransports\<close>: \<open>src/appauth/jwt.go\<close> and
    \<open>src/appauth/transport.go\<close>.  JWTs read back and are never used near their expiry;
    installation tokens are reused exactly while they have more than a minute left and are shared
    by all callers; a request goes out authenticated or not at all.  \<open>AppKernel\<close>: a kernel over
    the installation transport sends nothing anonymous.

  Concurrency.  State behind a mutex that is held for a whole operation changes atomically, so
  concurrent calls are sequences of operations (\<open>cache_history\<close>, \<open>reserve_slots\<close>,
  \<open>token_calls\<close>).  The page walk, the gate and the pacing layer, which release their locks in between,
  are modelled with all their interleavings; below the gate and the pacing layer, the interleaved
  models take any answer at any time.
  Reading the clock twice in one critical section gives one time.

  Bounds.  The retry loop ends by the measure \<open>MaxRetries + 1 - attempt\<close>.  A page walk takes at
  most \<open>44 MaxPages + 41\<close> steps, by a measure every step decreases; a call in the gate is
  at most eight steps from its answer.  There is no fuel.  \<open>MaxPages\<close> is taken to be small enough
  for its slices to be allocated (the code makes two of length \<open>MaxPages + 1\<close>).

  Outside the model, as parameters: \<open>net/url.Parse\<close>, \<open>os.Getenv\<close>, \<open>strconv.Quote\<close>,
  \<open>http.Transport\<close>, RSA, PEM and X.509, the visiting order of \<open>json.Marshal\<close> on maps, the
  network, go-github (its client and \<open>AppsService\<close>) and larsartmann/go-etag (the conditional
  transport).  Their assumed laws are premises of the theorems that use them.

  Not modelled: panics of caller-supplied functions, exhausted memory, the verbs of \<open>fmt\<close> the kit
  does not use, the package documentation and the shell scripts.  \<open>RFC3339_UTC\<close> is written for years from 1 on, the years a rejection can name.
\<close>

end
